(* ===== verification/Prelude.thy ===== *)
theory Prelude
  imports Main "HOL-Library.Word"
begin

unbundle bit_operations_syntax

text \<open>
  The prelude of the development: names for the machine integers of the C++ code, the
  failures a C++ operation can end in (an exception, a failed assertion, or an access the
  language leaves undefined) as values of one datatype, sequencing of fallible operations,
  the effect of \<open>memcpy\<close> on a block (\<open>blit\<close>), and the generic facts about lists, blocks of
  equal length and words that the component theories share.
\<close>

named_theorems res_simps \<open>sequencing of fallible operations\<close>
named_theorems blit_simps \<open>overwriting a segment of a list\<close>

type_synonym u8 = "8 word"
type_synonym u16 = "16 word"
type_synonym u32 = "32 word"
type_synonym u64 = "64 word"

subsection \<open>Failures and sequencing\<close>

datatype cpp_error =
    OutOfRange        \<comment> \<open>\<open>std::out_of_range\<close> is thrown\<close>
  | InvalidArgument   \<comment> \<open>\<open>std::invalid_argument\<close> is thrown\<close>
  | TypeError         \<comment> \<open>\<open>nlohmann::json::type_error\<close> is thrown\<close>
  | ParseError        \<comment> \<open>\<open>nlohmann::json::parse_error\<close> is thrown\<close>
  | AssertFail        \<comment> \<open>\<open>SYLAR_ASSERT\<close> fails and aborts the process\<close>
  | NullDeref         \<comment> \<open>a null pointer is dereferenced\<close>
  | OutOfBounds       \<comment> \<open>memory outside a block is read or written\<close>
  | DivZero           \<comment> \<open>an integer is divided by zero\<close>
  | LogicError        \<comment> \<open>\<open>std::logic_error\<close> is thrown (a string built from a null pointer)\<close>
  | UseAfterFree      \<comment> \<open>a deleted object is used\<close>
  | IntOverflow       \<comment> \<open>signed arithmetic leaves its range\<close>
  | Diverges          \<comment> \<open>a loop is entered that never ends\<close>

type_synonym 'a res = "cpp_error + 'a"

fun bindR :: "'a res \<Rightarrow> ('a \<Rightarrow> 'b res) \<Rightarrow> 'b res" where
  "bindR (Inl e) f = Inl e"
| "bindR (Inr x) f = f x"

definition assertR :: "bool \<Rightarrow> unit res" where
  "assertR b = (if b then Inr () else Inl AssertFail)"

definition err_of :: "'a res \<Rightarrow> cpp_error option" where
  "err_of r = (case r of Inl e \<Rightarrow> Some e | Inr _ \<Rightarrow> None)"

lemma bindR_Inr_iff [res_simps]:
  "bindR m f = Inr y \<longleftrightarrow> (\<exists>x. m = Inr x \<and> f x = Inr y)"
  by (cases m) auto

lemma bindR_Inl_iff [res_simps]:
  "bindR m f = Inl e \<longleftrightarrow> m = Inl e \<or> (\<exists>x. m = Inr x \<and> f x = Inl e)"
  by (cases m) auto

lemma bindR_assoc: "bindR (bindR m f) g = bindR m (\<lambda>x. bindR (f x) g)"
  by (cases m) auto

lemma assertR_Inr_iff [res_simps]: "assertR b = Inr u \<longleftrightarrow> b"
  by (cases u) (simp add: assertR_def)

lemma assertR_True [simp]: "assertR True = Inr ()"
  by (simp add: assertR_def)

lemma assertR_False [simp]: "assertR False = Inl AssertFail"
  by (simp add: assertR_def)

subsection \<open>Unsigned subtraction of sizes\<close>

text \<open>
  Sizes are natural numbers below \<open>2 ^ 64\<close>; a subtraction of two of them is the one of
  \<open>size_t\<close>, which wraps where the result would be negative.
\<close>

definition size_sub :: "nat \<Rightarrow> nat \<Rightarrow> nat" where
  "size_sub a b = (if b \<le> a then a - b else 2 ^ 64 + a - b)"

lemma size_sub_le [simp]: "b \<le> a \<Longrightarrow> size_sub a b = a - b"
  by (simp add: size_sub_def)

subsection \<open>Loops over a bounded index\<close>

text \<open>
  \<open>scan f stop nx i\<close> is the loop \<open>for(;; i = nx(i)) if(stop(i)) return\<close>, cut off after \<open>f\<close>
  rounds. When the indices stay below \<open>N\<close>, \<open>N\<close> rounds decide whether the loop ever ends.
\<close>

fun scan :: "nat \<Rightarrow> ('i \<Rightarrow> 'r option) \<Rightarrow> ('i \<Rightarrow> 'i) \<Rightarrow> 'i \<Rightarrow> 'r option" where
  "scan 0 stop nx i = None"
| "scan (Suc f) stop nx i = (case stop i of Some r \<Rightarrow> Some r | None \<Rightarrow> scan f stop nx (nx i))"

lemma scan_None_iff: "scan f stop nx i = None \<longleftrightarrow> (\<forall>j<f. stop ((nx ^^ j) i) = None)"
proof (induction f arbitrary: i)
  case (Suc f)
  have "(\<forall>j<Suc f. stop ((nx ^^ j) i) = None)
      \<longleftrightarrow> stop i = None \<and> (\<forall>j<f. stop ((nx ^^ j) (nx i)) = None)"
    by (auto simp: less_Suc_eq_0_disj funpow_swap1)
  then show ?case using Suc by (auto split: option.splits)
qed simp

lemma scan_None_mono: "scan f stop nx i = None \<Longrightarrow> g \<le> f \<Longrightarrow> scan g stop nx i = None"
  by (simp add: scan_None_iff)

lemma scan_Some_stop: "scan f stop nx i = Some r \<Longrightarrow> \<exists>j. stop j = Some r"
  by (induction f arbitrary: i) (auto split: option.splits)

lemma funpow_below: "(\<And>i. i < N \<Longrightarrow> nx i < N) \<Longrightarrow> i < N \<Longrightarrow> (nx ^^ j) i < (N :: nat)"
  by (induction j) auto

lemma scan_decides:
  assumes nx: "\<And>i. i < N \<Longrightarrow> nx i < N" and i: "i < N" and none: "scan N stop nx i = None"
  shows "scan f stop nx i = None"
proof (rule ccontr)
  assume "scan f stop nx i \<noteq> None"
  then have "\<exists>j. stop ((nx ^^ j) i) \<noteq> None" by (auto simp: scan_None_iff)
  define k where "k = (LEAST j. stop ((nx ^^ j) i) \<noteq> None)"
  have k: "stop ((nx ^^ k) i) \<noteq> None"
    unfolding k_def using \<open>\<exists>j. _\<close> by (rule LeastI_ex)
  have before: "\<And>j. j < k \<Longrightarrow> stop ((nx ^^ j) i) = None"
    unfolding k_def by (auto dest: not_less_Least)
  have "N \<le> k" using none k by (meson not_le scan_None_iff)
  have "inj_on (\<lambda>j. (nx ^^ j) i) {..k}"
  proof (rule linorder_inj_onI)
    fix a b assume "a < b" "a \<in> {..k}" "b \<in> {..k}"
    then have e: "k = (k - b) + b" "(k - b) + a < k" by auto
    show "(nx ^^ a) i \<noteq> (nx ^^ b) i"
    proof
      assume "(nx ^^ a) i = (nx ^^ b) i"
      then have "(nx ^^ ((k - b) + a)) i = (nx ^^ k) i"
        by (subst (2) e(1)) (simp add: funpow_add)
      then show False using before [OF e(2)] k by simp
    qed
  qed auto
  then have "card {..k} = card ((\<lambda>j. (nx ^^ j) i) ` {..k})" by (simp add: card_image)
  also have "\<dots> \<le> card {..<N}" by (rule card_mono) (auto simp: funpow_below [OF nx i])
  finally show False using \<open>N \<le> k\<close> by simp
qed

lemma scan_steps:
  assumes "\<And>j. j < n \<Longrightarrow> stop (st j) = None" and "\<And>j. j < n \<Longrightarrow> nx (st j) = st (Suc j)"
    and "stop (st n) = Some r" "n < f"
  shows "scan f stop nx (st 0) = Some r"
  using assms
proof (induction n arbitrary: st f)
  case 0
  then show ?case by (cases f) auto
next
  case (Suc n)
  obtain f' where f: "f = Suc f'" using Suc.prems(4) by (cases f) auto
  have "scan f' stop nx (st (Suc 0)) = Some r"
    using Suc.prems f by (intro Suc.IH [of "\<lambda>j. st (Suc j)"]) auto
  then show ?case using Suc.prems(1,2) [of 0] f by simp
qed

subsection \<open>Conversion to int\<close>

text \<open>The conversion of an integer to the 32-bit \<open>int\<close>, which keeps the low bits.\<close>

definition to_int32 :: "int \<Rightarrow> int" where
  "to_int32 x = (x + 2 ^ 31) mod 2 ^ 32 - 2 ^ 31"

definition int32_ok :: "int \<Rightarrow> bool" where
  "int32_ok x \<longleftrightarrow> - (2 ^ 31) \<le> x \<and> x < 2 ^ 31"

lemma to_int32_id [simp]: "int32_ok x \<Longrightarrow> to_int32 x = x"
  by (simp add: int32_ok_def to_int32_def)

lemma int32_ok_to_int32 [simp]: "int32_ok (to_int32 x)"
  by (simp add: int32_ok_def to_int32_def)

subsection \<open>Overwriting a segment\<close>

definition blit :: "'a list \<Rightarrow> nat \<Rightarrow> 'a list \<Rightarrow> 'a list" where
  "blit xs i ys = take i xs @ ys @ drop (i + length ys) xs"

lemma length_blit [simp]:
  "i \<le> length xs \<Longrightarrow> length (blit xs i ys) = max (length xs) (i + length ys)"
  by (simp add: blit_def)

lemma blit_Nil [simp]: "blit xs i [] = xs"
  by (simp add: blit_def)

lemma blit_end [blit_simps]: "blit xs (length xs) ys = xs @ ys"
  by (simp add: blit_def)

lemma take_blit [blit_simps]:
  "i \<le> length xs \<Longrightarrow> take (i + length ys) (blit xs i ys) = take i xs @ ys"
  by (simp add: blit_def)

lemma take_blit_before [blit_simps]:
  "i \<le> length xs \<Longrightarrow> n \<le> i \<Longrightarrow> take n (blit xs i ys) = take n xs"
  by (simp add: blit_def min_def)

lemma drop_blit_at [blit_simps]:
  "i \<le> length xs \<Longrightarrow> drop i (blit xs i ys) = ys @ drop (i + length ys) xs"
  by (simp add: blit_def)

lemma blit_blit [blit_simps]:
  "i \<le> length xs \<Longrightarrow> blit (blit xs i ys) (i + length ys) zs = blit xs i (ys @ zs)"
  by (simp add: blit_def ac_simps min_def)

lemma blit_append1:
  "i + length ys \<le> length xs \<Longrightarrow> blit (xs @ zs) i ys = blit xs i ys @ zs"
  by (simp add: blit_def)

lemma blit_append2:
  "blit (xs @ zs) (length xs + i) ys = xs @ blit zs i ys"
  by (simp add: blit_def add.assoc)

lemma blit_split:
  assumes "i + length ys = length xs"
  shows "blit (xs @ zs) i (ys @ us) = blit xs i ys @ blit zs 0 us"
  using assms by (simp add: blit_def add.assoc [symmetric])

lemma take_blit_superset:
  assumes "i \<le> n" "n \<le> length xs"
  shows "take (max n (i + length ys)) (blit xs i ys) = blit (take n xs) i ys"
proof (cases "n \<le> i + length ys")
  case True
  then show ?thesis using assms by (simp add: blit_def max_def)
next
  case False
  then obtain k where "n = i + length ys + k"
    by (metis less_imp_add_positive not_le)
  then show ?thesis using assms by (simp add: blit_def max_def take_drop add.commute)
qed

text \<open>\<open>memcpy(dst + i, src + j, n)\<close>, with the bounds of both blocks.\<close>

definition memcpy :: "'a list \<Rightarrow> nat \<Rightarrow> 'a list \<Rightarrow> nat \<Rightarrow> nat \<Rightarrow> 'a list res" where
  "memcpy dst i src j n =
     (if length dst < i + n \<or> length src < j + n then Inl OutOfBounds
      else Inr (blit dst i (take n (drop j src))))"

subsection \<open>Chains of blocks of equal length\<close>

definition blocks :: "nat \<Rightarrow> 'a list list \<Rightarrow> bool" where
  "blocks b xss \<longleftrightarrow> 0 < b \<and> (\<forall>xs\<in>set xss. length xs = b)"

lemma blocks_nth: "blocks b xss \<Longrightarrow> c < length xss \<Longrightarrow> length (xss ! c) = b"
  by (simp add: blocks_def)

lemma blocks_length_concat: "blocks b xss \<Longrightarrow> length (concat xss) = b * length xss"
  by (induction xss) (auto simp: blocks_def)

lemma blocks_append: "blocks b (xss @ yss) \<longleftrightarrow> blocks b xss \<and> (0 < b \<longrightarrow> blocks b yss)"
  by (auto simp: blocks_def)

lemma blocks_take: "blocks b xss \<Longrightarrow> blocks b (take n xss)"
  by (auto simp: blocks_def dest: in_set_takeD)

lemma blocks_update: "blocks b xss \<Longrightarrow> length xs = b \<Longrightarrow> blocks b (xss[c := xs])"
  by (auto simp: blocks_def dest: set_update_subset_insert [THEN subsetD])

lemma concat_nth_split:
  "c < length xss \<Longrightarrow>
     concat xss = concat (take c xss) @ xss ! c @ concat (drop (Suc c) xss)"
  by (metis append_take_drop_id concat.simps(2) concat_append Cons_nth_drop_Suc)

lemma concat_update_split:
  "c < length xss \<Longrightarrow>
     concat (xss[c := xs]) = concat (take c xss) @ xs @ concat (drop (Suc c) xss)"
  by (simp add: upd_conv_take_nth_drop)

lemma blocks_concat_take:
  "blocks b xss \<Longrightarrow> c \<le> length xss \<Longrightarrow> length (concat (take c xss)) = b * c"
  using blocks_length_concat [OF blocks_take, of b xss c] by (simp add: min_def)

lemma blocks_drop_nth:
  assumes "blocks b xss" "c < length xss" "i \<le> b"
  shows "drop (b * c + i) (concat xss) = drop i (xss ! c) @ concat (drop (Suc c) xss)"
proof -
  have "length (concat (take c xss)) = b * c"
    using assms by (simp add: blocks_concat_take)
  moreover have "length (xss ! c) = b"
    using assms by (simp add: blocks_nth)
  ultimately show ?thesis
    using assms by (simp add: concat_nth_split [OF assms(2)])
qed

lemma blocks_blit_within:
  assumes "blocks b xss" "c < length xss" "i + length ys \<le> b"
  shows "concat (xss[c := blit (xss ! c) i ys]) = blit (concat xss) (b * c + i) ys"
proof -
  have len: "length (concat (take c xss)) = b * c" "length (xss ! c) = b"
    using assms by (simp_all add: blocks_concat_take blocks_nth)
  have "blit (concat xss) (b * c + i) ys
      = concat (take c xss) @ blit (xss ! c @ concat (drop (Suc c) xss)) i ys"
    using blit_append2 [of "concat (take c xss)"] len
    by (simp add: concat_nth_split [OF assms(2)])
  then show ?thesis
    using assms(3) len by (simp add: concat_update_split [OF assms(2)] blit_append1)
qed

subsection \<open>Words as byte sequences\<close>

text \<open>
  The bytes of an integer in memory order of a little-endian host, and the integer that a
  byte sequence in memory stands for.
\<close>

definition word_bytes :: "nat \<Rightarrow> 'a::len word \<Rightarrow> u8 list" where
  "word_bytes n w = map (\<lambda>i. ucast (drop_bit (8 * i) w)) [0..<n]"

fun bytes_word :: "u8 list \<Rightarrow> 'a::len word" where
  "bytes_word [] = 0"
| "bytes_word (b # bs) = ucast b OR push_bit 8 (bytes_word bs)"

lemma length_word_bytes [simp]: "length (word_bytes n w) = n"
  by (simp add: word_bytes_def)

lemma bit_bytes_word:
  "bit (bytes_word bs :: 'a::len word) i \<longleftrightarrow>
     i < LENGTH('a) \<and> i div 8 < length bs \<and> bit (bs ! (i div 8)) (i mod 8)"
proof (induction bs arbitrary: i)
  case Nil
  show ?case by simp
next
  case (Cons b bs)
  show ?case
  proof (cases "i < 8")
    case True
    then show ?thesis
      by (auto simp: bit_or_iff bit_ucast_iff bit_push_bit_iff)
  next
    case False
    then obtain j where j: "i = j + 8"
      by (metis add.commute le_add_diff_inverse not_less)
    have "\<not> bit b i"
      using False bit_imp_le_length [of b i] by auto
    then show ?thesis
      using Cons.IH [of j]
      by (auto simp: j div_add_self2 bit_or_iff bit_ucast_iff bit_push_bit_iff)
  qed
qed

lemma bytes_word_word_bytes:
  "LENGTH('a) \<le> 8 * n \<Longrightarrow> bytes_word (word_bytes n (w :: 'a::len word)) = w"
proof (rule bit_eqI)
  fix i
  assume "LENGTH('a) \<le> 8 * n" and "possible_bit TYPE('a word) i"
  then have i: "i < LENGTH('a)" and n: "i div 8 < n"
    by (auto simp: possible_bit_word)
  have "i mod 8 < 8" by simp
  then show "bit (bytes_word (word_bytes n w) :: 'a word) i = bit w i"
    using i n by (simp add: bit_bytes_word word_bytes_def bit_ucast_iff bit_drop_bit_eq)
qed

lemma word_bytes_bytes_word:
  assumes "8 * length bs \<le> LENGTH('a::len)"
  shows "word_bytes (length bs) (bytes_word bs :: 'a word) = bs"
proof (rule nth_equalityI)
  show "length (word_bytes (length bs) (bytes_word bs :: 'a word)) = length bs"
    by simp
next
  fix i
  assume "i < length (word_bytes (length bs) (bytes_word bs :: 'a word))"
  then have i: "i < length bs" by simp
  show "word_bytes (length bs) (bytes_word bs :: 'a word) ! i = bs ! i"
  proof (rule bit_eqI)
    fix k
    assume "possible_bit TYPE(u8) k"
    then have k: "k < 8" by (simp add: possible_bit_word)
    then have "(8 * i + k) div 8 = i" and "(8 * i + k) mod 8 = k"
      by auto
    moreover have "8 * i + k < LENGTH('a)"
      using i k assms by linarith
    ultimately show "bit (word_bytes (length bs) (bytes_word bs :: 'a word) ! i) k = bit (bs ! i) k"
      using i k by (simp add: word_bytes_def bit_ucast_iff bit_drop_bit_eq bit_bytes_word add.commute)
  qed
qed

end
