(* ===== verification/ByteArray.thy ===== *)
theory ByteArray
  imports Prelude
begin

text \<open>
  \<open>sherry/bytearray.h\<close>, \<open>sherry/bytearray.cc\<close>: the growable byte array and its raw
  operations. The chain of \<open>Node\<close>s that starts at \<open>m_root\<close> is the list \<open>m_nodes\<close> of their
  blocks; the pointer \<open>m_cur\<close> is an index into the chain, \<open>None\<close> for the null pointer it
  becomes when the position reaches the end of the last block. The file shows that the
  chain of blocks implements one flat array: \<open>ba_write\<close> overwrites and extends it,
  \<open>ba_read\<close> returns a segment of it, and every operation keeps \<open>ba_inv\<close>.
\<close>

unbundle bit_operations_syntax

subsection \<open>State\<close>

definition SYLAR_LITTLE_ENDIAN :: nat where "SYLAR_LITTLE_ENDIAN = 1"
definition SYLAR_BIG_ENDIAN :: nat where "SYLAR_BIG_ENDIAN = 2"

text \<open>The host is little-endian (the branch of \<open>endian.h\<close> that x86-64 compiles).\<close>

definition SYLAR_BYTE_ORDER :: nat where "SYLAR_BYTE_ORDER = SYLAR_LITTLE_ENDIAN"

record bytearray =
  m_baseSize :: nat
  m_position :: nat
  m_capacity :: nat
  m_size :: nat
  m_endian :: nat
  m_nodes :: "u8 list list"
  m_cur :: "nat option"

text \<open>\<open>new char[s]\<close> leaves the bytes of a block unspecified; the model fills them with 0.\<close>

definition new_Node :: "nat \<Rightarrow> u8 list" where
  "new_Node s = replicate s 0"

definition new_ByteArray :: "nat \<Rightarrow> bytearray" where
  "new_ByteArray base_size =
     \<lparr>m_baseSize = base_size, m_position = 0, m_capacity = base_size, m_size = 0,
      m_endian = SYLAR_BIG_ENDIAN, m_nodes = [new_Node base_size], m_cur = Some 0\<rparr>"

definition isLittleEndian :: "bytearray \<Rightarrow> bool" where
  "isLittleEndian ba \<longleftrightarrow> m_endian ba = SYLAR_LITTLE_ENDIAN"

definition setIsLittleEndian :: "bool \<Rightarrow> bytearray \<Rightarrow> bytearray" where
  "setIsLittleEndian val ba =
     ba\<lparr>m_endian := (if val then SYLAR_LITTLE_ENDIAN else SYLAR_BIG_ENDIAN)\<rparr>"

definition getReadSize :: "bytearray \<Rightarrow> nat" where
  "getReadSize ba = size_sub (m_size ba) (m_position ba)"

definition getCapacity :: "bytearray \<Rightarrow> nat" where
  "getCapacity ba = size_sub (m_capacity ba) (m_position ba)"

definition clear :: "bytearray \<Rightarrow> bytearray" where
  "clear ba = ba\<lparr>m_position := 0, m_size := 0, m_capacity := m_baseSize ba,
                 m_nodes := take 1 (m_nodes ba), m_cur := Some 0\<rparr>"

subsection \<open>The chain of blocks\<close>

text \<open>\<open>cur->next\<close>, and the block a pointer leads to.\<close>

definition node_next :: "'a list list \<Rightarrow> nat \<Rightarrow> nat option" where
  "node_next nodes c = (if Suc c < length nodes then Some (Suc c) else None)"

fun node_at :: "'a list list \<Rightarrow> nat option \<Rightarrow> 'a list res" where
  "node_at nodes None = Inl NullDeref"
| "node_at nodes (Some c) = (if c < length nodes then Inr (nodes ! c) else Inl OutOfBounds)"

text \<open>
  \<open>ceil(1.0 * size / m_baseSize)\<close> is the exact quotient rounded up for every size below
  \<open>2 ^ 53\<close>; for \<open>m_baseSize = 0\<close> the conversion of the infinite quotient is undefined.
\<close>

definition addCapacity :: "nat \<Rightarrow> bytearray \<Rightarrow> bytearray res" where
  "addCapacity sz ba =
     (if sz = 0 then Inr ba
      else let old_cap = getCapacity ba in
        if sz \<le> old_cap then Inr ba
        else if m_baseSize ba = 0 then Inl DivZero
        else let need = sz - old_cap;
                 count = (need + m_baseSize ba - 1) div m_baseSize ba;
                 first = Some (length (m_nodes ba))
             in Inr (ba\<lparr>m_nodes := m_nodes ba @ replicate count (new_Node (m_baseSize ba)),
                        m_capacity := m_capacity ba + count * m_baseSize ba,
                        m_cur := (if old_cap = 0 then first else m_cur ba)\<rparr>))"

subsection \<open>Raw write and read\<close>

text \<open>
  The loop of \<open>ByteArray::write\<close>: \<open>buf\<close> is what is left of the caller's buffer. A
  \<open>memcpy\<close> past the end of the block is \<open>OutOfBounds\<close>.
\<close>

function write_loop ::
  "u8 list list \<Rightarrow> nat option \<Rightarrow> nat \<Rightarrow> nat \<Rightarrow> u8 list \<Rightarrow> nat
     \<Rightarrow> (u8 list list \<times> nat option \<times> nat) res" where
  "write_loop nodes cur npos ncap buf pos =
     (if buf = [] then Inr (nodes, cur, pos)
      else case cur of
        None \<Rightarrow> Inl NullDeref
      | Some c \<Rightarrow>
          if length nodes \<le> c then Inl OutOfBounds
          else if length buf \<le> ncap then
            if length (nodes ! c) < npos + length buf then Inl OutOfBounds
            else Inr (nodes[c := blit (nodes ! c) npos buf],
                      (if length (nodes ! c) = npos + length buf then node_next nodes c else cur),
                      pos + length buf)
          else if length (nodes ! c) < npos + ncap then Inl OutOfBounds
          else case node_next nodes c of
              None \<Rightarrow> Inl NullDeref
            | Some d \<Rightarrow> write_loop (nodes[c := blit (nodes ! c) npos (take ncap buf)]) (Some d)
                          0 (length (nodes ! d)) (drop ncap buf) (pos + ncap))"
  by pat_completeness auto
termination
  by (relation "measure (\<lambda>(nodes, cur, npos, ncap, buf, pos).
        case cur of None \<Rightarrow> 0 | Some c \<Rightarrow> length nodes - c)")
     (auto simp: node_next_def split: if_splits)

declare write_loop.simps [simp del]

definition ba_write :: "u8 list \<Rightarrow> bytearray \<Rightarrow> bytearray res" where
  "ba_write buf ba =
     (if buf = [] then Inr ba
      else bindR (addCapacity (length buf) ba) (\<lambda>ba.
        if m_baseSize ba = 0 then Inl DivZero
        else let npos = m_position ba mod m_baseSize ba in
          bindR (node_at (m_nodes ba) (m_cur ba)) (\<lambda>blk.
          bindR (write_loop (m_nodes ba) (m_cur ba) npos (size_sub (length blk) npos) buf
                   (m_position ba)) (\<lambda>(nodes, cur, pos).
            Inr (ba\<lparr>m_nodes := nodes, m_cur := cur, m_position := pos,
                    m_size := (if pos > m_size ba then pos else m_size ba)\<rparr>)))))"

text \<open>The loop of both \<open>ByteArray::read\<close>s; \<open>size\<close> counts the bytes still to copy.\<close>

function read_loop ::
  "u8 list list \<Rightarrow> nat option \<Rightarrow> nat \<Rightarrow> nat \<Rightarrow> nat \<Rightarrow> nat \<Rightarrow> u8 list
     \<Rightarrow> (u8 list \<times> nat option \<times> nat) res" where
  "read_loop nodes cur npos ncap sz pos buf =
     (if sz = 0 then Inr (buf, cur, pos)
      else case cur of
        None \<Rightarrow> Inl NullDeref
      | Some c \<Rightarrow>
          if length nodes \<le> c then Inl OutOfBounds
          else if sz \<le> ncap then
            if length (nodes ! c) < npos + sz then Inl OutOfBounds
            else Inr (buf @ take sz (drop npos (nodes ! c)),
                      (if length (nodes ! c) = npos + sz then node_next nodes c else cur),
                      pos + sz)
          else if length (nodes ! c) < npos + ncap then Inl OutOfBounds
          else case node_next nodes c of
              None \<Rightarrow> Inl NullDeref
            | Some d \<Rightarrow> read_loop nodes (Some d) 0 (length (nodes ! d)) (sz - ncap)
                          (pos + ncap) (buf @ take ncap (drop npos (nodes ! c))))"
  by pat_completeness auto
termination
  by (relation "measure (\<lambda>(nodes, cur, npos, ncap, sz, pos, buf).
        case cur of None \<Rightarrow> 0 | Some c \<Rightarrow> length nodes - c)")
     (auto simp: node_next_def split: if_splits)

declare read_loop.simps [simp del]

text \<open>
  \<open>read(buf, size)\<close>. The block of \<open>m_cur\<close> is looked at before the loop, also when
  \<open>size\<close> is 0.
\<close>

definition ba_read :: "nat \<Rightarrow> bytearray \<Rightarrow> (u8 list \<times> bytearray) res" where
  "ba_read sz ba =
     (if sz > getReadSize ba then Inl OutOfRange
      else if m_baseSize ba = 0 then Inl DivZero
      else let npos = m_position ba mod m_baseSize ba in
        bindR (node_at (m_nodes ba) (m_cur ba)) (\<lambda>blk.
        bindR (read_loop (m_nodes ba) (m_cur ba) npos (size_sub (length blk) npos) sz
                 (m_position ba) []) (\<lambda>(buf, cur, pos).
          Inr (buf, ba\<lparr>m_cur := cur, m_position := pos\<rparr>))))"

text \<open>\<open>read(buf, size, position)\<close>: like \<open>read\<close>, but it starts at block \<open>m_cur\<close> whatever
  block \<open>position\<close> lies in.\<close>

definition ba_read_at :: "nat \<Rightarrow> nat \<Rightarrow> bytearray \<Rightarrow> u8 list res" where
  "ba_read_at sz position ba =
     (if sz > size_sub (m_size ba) position then Inl OutOfRange
      else if m_baseSize ba = 0 then Inl DivZero
      else let npos = position mod m_baseSize ba in
        bindR (node_at (m_nodes ba) (m_cur ba)) (\<lambda>blk.
        bindR (read_loop (m_nodes ba) (m_cur ba) npos (size_sub (length blk) npos) sz
                 position []) (\<lambda>(buf, cur, pos). Inr buf)))"

function setPosition_loop :: "u8 list list \<Rightarrow> nat option \<Rightarrow> nat \<Rightarrow> (nat option) res" where
  "setPosition_loop nodes cur v =
     (case cur of
        None \<Rightarrow> Inl NullDeref
      | Some c \<Rightarrow>
          if length nodes \<le> c then Inl OutOfBounds
          else if v > length (nodes ! c)
            then setPosition_loop nodes (node_next nodes c) (v - length (nodes ! c))
          else if v = length (nodes ! c) then Inr (node_next nodes c)
          else Inr cur)"
  by pat_completeness auto
termination
  by (relation "measure (\<lambda>(nodes, cur, v).
        case cur of None \<Rightarrow> 0 | Some c \<Rightarrow> length nodes - c)")
     (auto simp: node_next_def split: if_splits)

declare setPosition_loop.simps [simp del]

definition setPosition :: "nat \<Rightarrow> bytearray \<Rightarrow> bytearray res" where
  "setPosition v ba =
     (if v > m_capacity ba then Inl OutOfRange
      else bindR (setPosition_loop (m_nodes ba) (Some 0) v) (\<lambda>cur.
        Inr (ba\<lparr>m_position := v,
                m_size := (if v > m_size ba then v else m_size ba),
                m_cur := cur\<rparr>)))"

subsection \<open>The flat array behind the chain\<close>

text \<open>
  \<open>bytes ba\<close> is the whole content, \<open>rest ba\<close> what a reader at the current position can
  still read, \<open>cur_at\<close> the block pointer that belongs to a position.
\<close>

definition bytes :: "bytearray \<Rightarrow> u8 list" where
  "bytes ba = take (m_size ba) (concat (m_nodes ba))"

definition rest :: "bytearray \<Rightarrow> u8 list" where
  "rest ba = drop (m_position ba) (bytes ba)"

definition cur_at :: "nat \<Rightarrow> 'a list list \<Rightarrow> nat \<Rightarrow> nat option" where
  "cur_at b nodes p = (if p < b * length nodes then Some (p div b) else None)"

definition ba_inv :: "bytearray \<Rightarrow> bool" where
  "ba_inv ba \<longleftrightarrow>
     blocks (m_baseSize ba) (m_nodes ba) \<and> m_nodes ba \<noteq> [] \<and>
     m_capacity ba = m_baseSize ba * length (m_nodes ba) \<and>
     m_position ba \<le> m_size ba \<and> m_size ba \<le> m_capacity ba \<and>
     m_cur ba = cur_at (m_baseSize ba) (m_nodes ba) (m_position ba)"

text \<open>What one completed write of the bytes \<open>bs\<close> does to the array.\<close>

definition written :: "bytearray \<Rightarrow> u8 list \<Rightarrow> bytearray \<Rightarrow> bool" where
  "written ba bs ba' \<longleftrightarrow>
     ba_inv ba' \<and> m_baseSize ba' = m_baseSize ba \<and> m_endian ba' = m_endian ba \<and>
     m_position ba' = m_position ba + length bs \<and>
     bytes ba' = blit (bytes ba) (m_position ba) bs"

text \<open>What one completed read of \<open>n\<close> bytes does to it: the position moves, nothing else.\<close>

definition advanced :: "bytearray \<Rightarrow> nat \<Rightarrow> bytearray" where
  "advanced ba n =
     ba\<lparr>m_position := m_position ba + n,
        m_cur := cur_at (m_baseSize ba) (m_nodes ba) (m_position ba + n)\<rparr>"

lemma ba_inv_base_pos: "ba_inv ba \<Longrightarrow> 0 < m_baseSize ba"
  by (simp add: ba_inv_def blocks_def)

lemma length_bytes: "ba_inv ba \<Longrightarrow> length (bytes ba) = m_size ba"
  using blocks_length_concat [of "m_baseSize ba" "m_nodes ba"]
  by (simp add: bytes_def ba_inv_def)

lemma length_rest: "ba_inv ba \<Longrightarrow> length (rest ba) = m_size ba - m_position ba"
  by (simp add: rest_def length_bytes)

lemma getReadSize_rest: "ba_inv ba \<Longrightarrow> getReadSize ba = length (rest ba)"
  by (simp add: getReadSize_def length_rest ba_inv_def)

lemma getCapacity_inv: "ba_inv ba \<Longrightarrow> getCapacity ba = m_capacity ba - m_position ba"
  by (simp add: getCapacity_def ba_inv_def)

lemma ba_inv_new: "0 < base_size \<Longrightarrow> ba_inv (new_ByteArray base_size)"
  by (simp add: ba_inv_def new_ByteArray_def blocks_def new_Node_def cur_at_def)

lemma ba_inv_setIsLittleEndian [simp]: "ba_inv (setIsLittleEndian v ba) = ba_inv ba"
  by (simp add: ba_inv_def setIsLittleEndian_def)

lemma ba_inv_clear: "ba_inv ba \<Longrightarrow> ba_inv (clear ba)"
  by (cases "m_nodes ba") (auto simp: ba_inv_def clear_def blocks_def cur_at_def)

lemma ba_inv_advanced:
  "ba_inv ba \<Longrightarrow> n \<le> length (rest ba) \<Longrightarrow> ba_inv (advanced ba n)"
  by (auto simp: length_rest) (auto simp: ba_inv_def advanced_def)

lemma bytes_advanced [simp]: "bytes (advanced ba n) = bytes ba"
  by (simp add: bytes_def advanced_def)

lemma rest_advanced: "rest (advanced ba n) = drop n (rest ba)"
  by (simp add: rest_def) (simp add: advanced_def add.commute)

lemma advanced_advanced [simp]: "advanced (advanced ba m) n = advanced ba (m + n)"
  by (simp add: advanced_def add.assoc)

lemma advanced_fields [simp]:
  "m_endian (advanced ba n) = m_endian ba"
  "m_baseSize (advanced ba n) = m_baseSize ba"
  "m_position (advanced ba n) = m_position ba + n"
  "m_size (advanced ba n) = m_size ba"
  "m_capacity (advanced ba n) = m_capacity ba"
  "m_nodes (advanced ba n) = m_nodes ba"
  by (simp_all add: advanced_def)

lemma written_trans:
  assumes "ba_inv ba" "written ba xs ba1" "written ba1 ys ba2"
  shows "written ba (xs @ ys) ba2"
proof -
  have "m_position ba \<le> length (bytes ba)"
    using assms(1) by (simp add: length_bytes ba_inv_def)
  then show ?thesis
    using assms(2,3) by (simp add: written_def blit_blit)
qed

lemma written_Nil: "ba_inv ba \<Longrightarrow> written ba [] ba"
  by (simp add: written_def)

subsection \<open>The loops on the chain\<close>

lemma cur_at_within:
  "npos < b \<Longrightarrow> c < length nodes \<Longrightarrow> cur_at b nodes (b * c + npos) = Some c"
proof -
  assume "npos < b" "c < length nodes"
  then have "b * Suc c \<le> b * length nodes" by (metis Suc_leI mult_le_mono2)
  then show ?thesis using \<open>npos < b\<close> by (simp add: cur_at_def)
qed

lemma block_end_less: "b * c + b < b * n \<longleftrightarrow> 0 < b \<and> Suc c < n" for b c n :: nat
  using mult_less_cancel1 [of b "Suc c" n] by (simp add: add.commute)

lemma cur_at_next: "0 < b \<Longrightarrow> c < length nodes \<Longrightarrow> cur_at b nodes (b * c + b) = node_next nodes c"
  by (simp add: cur_at_def node_next_def block_end_less)

text \<open>Where the pointer ends after \<open>k\<close> bytes of block \<open>c\<close> from offset \<open>npos\<close>.\<close>

lemma cur_at_step:
  assumes "0 < b" "c < length nodes" "npos + k \<le> b"
  shows "(if b = npos + k then node_next nodes c else Some c) = cur_at b nodes (b * c + npos + k)"
proof (cases "b = npos + k")
  case True
  then show ?thesis using cur_at_next [OF assms(1,2)] by (simp add: add.assoc)
next
  case False
  then show ?thesis using cur_at_within [of "npos + k" b c nodes] assms by (simp add: add.assoc)
qed

lemma node_next_Some:
  "b * c + b < b * length nodes \<Longrightarrow> node_next nodes c = Some (Suc c)"
  by (simp add: node_next_def block_end_less)

lemma write_loop_correct:
  assumes "blocks b nodes" "c < length nodes" "npos < b" "buf \<noteq> []"
    and "b * c + npos + length buf \<le> b * length nodes"
  shows "\<exists>nodes'. write_loop nodes (Some c) npos (b - npos) buf (b * c + npos)
           = Inr (nodes', cur_at b nodes (b * c + npos + length buf), b * c + npos + length buf)
         \<and> blocks b nodes' \<and> length nodes' = length nodes
         \<and> concat nodes' = blit (concat nodes) (b * c + npos) buf"
  using assms
proof (induction "length nodes - c" arbitrary: nodes c npos buf rule: less_induct)
  case less
  let ?pos = "b * c + npos"
  have b: "0 < b" and lenc: "length (nodes ! c) = b"
    using less.prems by (auto simp: blocks_nth)
  show ?case
  proof (cases "length buf \<le> b - npos")
    case True
    let ?nodes' = "nodes[c := blit (nodes ! c) npos buf]"
    have le: "npos + length buf \<le> b" using True less.prems(3) by simp
    have "write_loop nodes (Some c) npos (b - npos) buf ?pos
        = Inr (?nodes', cur_at b nodes (?pos + length buf), ?pos + length buf)"
      using less.prems True le lenc cur_at_step [OF b less.prems(2) le]
      by (simp add: write_loop.simps)
    moreover have "blocks b ?nodes'"
      using less.prems le lenc by (intro blocks_update) auto
    moreover have "concat ?nodes' = blit (concat nodes) ?pos buf"
      using less.prems le by (intro blocks_blit_within) auto
    ultimately show ?thesis by auto
  next
    case False
    let ?hd = "take (b - npos) buf" and ?tl = "drop (b - npos) buf"
    let ?nodes1 = "nodes[c := blit (nodes ! c) npos ?hd]"
    have hd: "npos + length ?hd = b" using False less.prems(3) by simp
    have "b * c + b < b * length nodes"
      using False less.prems(3,5) by linarith
    then have nxt: "node_next nodes c = Some (Suc c)" and Suc: "Suc c < length nodes"
      by (auto simp: node_next_def block_end_less)
    have step: "write_loop nodes (Some c) npos (b - npos) buf ?pos
        = write_loop ?nodes1 (Some (Suc c)) 0 (b - 0) ?tl (b * Suc c + 0)"
      using less.prems False lenc nxt blocks_nth [OF less.prems(1) Suc]
      by (simp add: write_loop.simps [of nodes] ac_simps)
    have bl1: "blocks b ?nodes1"
      using less.prems(1) hd lenc by (intro blocks_update) auto
    have cat1: "concat ?nodes1 = blit (concat nodes) ?pos ?hd"
      using less.prems hd by (intro blocks_blit_within) auto
    have sum: "b * Suc c + 0 + length ?tl = ?pos + length buf"
      using False less.prems(3) by simp
    have dec: "length ?nodes1 - Suc c < length nodes - c"
      using less.prems(2) by simp
    obtain nodes' where IH:
      "write_loop ?nodes1 (Some (Suc c)) 0 (b - 0) ?tl (b * Suc c + 0)
         = Inr (nodes', cur_at b ?nodes1 (b * Suc c + 0 + length ?tl), b * Suc c + 0 + length ?tl)"
      "blocks b nodes'" "length nodes' = length ?nodes1"
      "concat nodes' = blit (concat ?nodes1) (b * Suc c + 0) ?tl"
      using less.hyps [of ?nodes1 "Suc c" 0 ?tl, OF dec] bl1 Suc b False less.prems(5) sum
      by auto
    have "concat nodes' = blit (concat nodes) ?pos buf"
    proof -
      have "?pos \<le> length (concat nodes)"
        using less.prems(5) by (simp add: blocks_length_concat [OF less.prems(1)])
      then have "blit (blit (concat nodes) ?pos ?hd) (?pos + length ?hd) ?tl
          = blit (concat nodes) ?pos buf"
        using blit_blit [of ?pos "concat nodes" ?hd ?tl] by (simp only: append_take_drop_id)
      moreover have "b * Suc c + 0 = ?pos + length ?hd" using hd by simp
      ultimately show ?thesis using IH(4) cat1 by (simp add: add.commute)
    qed
    moreover have "cur_at b ?nodes1 p = cur_at b nodes p" for p
      by (simp add: cur_at_def)
    ultimately show ?thesis using step IH(1-3) sum by (auto simp: ac_simps)
  qed
qed

lemma read_loop_correct:
  assumes "blocks b nodes" "c < length nodes" "npos < b" "0 < n"
    and "b * c + npos + n \<le> b * length nodes"
  shows "read_loop nodes (Some c) npos (b - npos) n (b * c + npos) acc
       = Inr (acc @ take n (drop (b * c + npos) (concat nodes)),
              cur_at b nodes (b * c + npos + n), b * c + npos + n)"
  using assms
proof (induction "length nodes - c" arbitrary: c npos n acc rule: less_induct)
  case less
  let ?pos = "b * c + npos"
  have b: "0 < b" and lenc: "length (nodes ! c) = b"
    using less.prems by (auto simp: blocks_nth)
  have slice: "drop ?pos (concat nodes) = drop npos (nodes ! c) @ concat (drop (Suc c) nodes)"
    using less.prems by (simp add: blocks_drop_nth)
  show ?case
  proof (cases "n \<le> b - npos")
    case True
    then have le: "npos + n \<le> b" using less.prems(3) by simp
    have "take n (drop ?pos (concat nodes)) = take n (drop npos (nodes ! c))"
      using le lenc by (simp add: slice)
    then show ?thesis
      using less.prems True le lenc cur_at_step [OF b less.prems(2) le]
      by (simp add: read_loop.simps)
  next
    case False
    have "b * c + b < b * length nodes"
      using False less.prems(3,5) by linarith
    then have nxt: "node_next nodes c = Some (Suc c)" and Suc: "Suc c < length nodes"
      by (auto simp: node_next_def block_end_less)
    let ?hd = "drop npos (nodes ! c)"
    have step: "read_loop nodes (Some c) npos (b - npos) n ?pos acc
        = read_loop nodes (Some (Suc c)) 0 (b - 0) (n - (b - npos)) (b * Suc c + 0) (acc @ ?hd)"
      using less.prems False lenc nxt blocks_nth [OF less.prems(1) Suc]
      by (simp add: read_loop.simps [of nodes "Some c"] ac_simps)
    have sum: "b * Suc c + 0 + (n - (b - npos)) = ?pos + n"
      using False less.prems(3) by simp
    have nx: "concat (drop (Suc c) nodes) = drop (b * Suc c) (concat nodes)"
      using blocks_drop_nth [OF less.prems(1) less.prems(2), of b] lenc by (simp add: add.commute)
    have "take n (drop ?pos (concat nodes))
        = ?hd @ take (n - (b - npos)) (drop (b * Suc c) (concat nodes))"
      using False lenc by (simp add: slice nx)
    moreover have "read_loop nodes (Some (Suc c)) 0 (b - 0) (n - (b - npos)) (b * Suc c + 0) (acc @ ?hd)
        = Inr ((acc @ ?hd) @ take (n - (b - npos)) (drop (b * Suc c + 0) (concat nodes)),
               cur_at b nodes (b * Suc c + 0 + (n - (b - npos))), b * Suc c + 0 + (n - (b - npos)))"
    proof (rule less.hyps)
      show "length nodes - Suc c < length nodes - c" using less.prems(2) by simp
      show "b * Suc c + 0 + (n - (b - npos)) \<le> b * length nodes"
        using less.prems(5) sum by simp
    qed (use less.prems(1) Suc b False in auto)
    ultimately show ?thesis using step sum by (simp add: ac_simps)
  qed
qed

lemma setPosition_loop_correct:
  assumes "blocks b nodes" "c < length nodes" "v \<le> b * (length nodes - c)"
  shows "setPosition_loop nodes (Some c) v = Inr (cur_at b nodes (b * c + v))"
  using assms
proof (induction "length nodes - c" arbitrary: c v rule: less_induct)
  case less
  have b: "0 < b" and lenc: "length (nodes ! c) = b"
    using less.prems by (auto simp: blocks_nth blocks_def)
  show ?case
  proof (cases "v \<le> b")
    case True
    then show ?thesis
      using less.prems lenc cur_at_step [OF b less.prems(2), of 0 v]
      by (auto simp: setPosition_loop.simps split: if_splits)
  next
    case False
    then have "Suc c < length nodes"
      using less.prems(2,3) by (metis Suc_lessI diff_Suc_Suc diff_diff_left mult.right_neutral
          One_nat_def Suc_diff_Suc diff_self_eq_0)
    moreover have "v - b \<le> b * (length nodes - Suc c)"
      using less.prems(3) by (simp add: diff_mult_distrib2)
    ultimately show ?thesis
      using less.hyps [of "Suc c" "v - b"] less.prems False lenc
      by (simp add: setPosition_loop.simps [of nodes "Some c"] node_next_def add.assoc)
  qed
qed

subsection \<open>Operations on the flat array\<close>

lemma inv_position_split:
  assumes "ba_inv ba" "m_cur ba = Some c"
  shows "c < length (m_nodes ba)"
    and "m_position ba = m_baseSize ba * c + m_position ba mod m_baseSize ba"
    and "m_position ba mod m_baseSize ba < m_baseSize ba"
proof -
  have b: "0 < m_baseSize ba" using assms(1) by (rule ba_inv_base_pos)
  have c: "m_position ba < m_baseSize ba * length (m_nodes ba)" "c = m_position ba div m_baseSize ba"
    using assms by (auto simp: ba_inv_def cur_at_def split: if_splits)
  then show "c < length (m_nodes ba)"
    using b by (simp add: less_mult_imp_div_less mult.commute)
  show "m_position ba = m_baseSize ba * c + m_position ba mod m_baseSize ba"
    using c(2) by simp
  show "m_position ba mod m_baseSize ba < m_baseSize ba"
    using b by simp
qed

lemma ceil_mult_ge: "0 < b \<Longrightarrow> n \<le> (n + b - 1) div b * b" for n b :: nat
proof -
  assume b: "0 < b"
  have "n + b - 1 = (n + b - 1) div b * b + (n + b - 1) mod b" by simp
  moreover have "(n + b - 1) mod b < b" using b by simp
  ultimately show ?thesis using b by linarith
qed

text \<open>Growing the chain keeps the content and makes room for \<open>n\<close> bytes.\<close>

lemma addCapacity_correct:
  assumes inv: "ba_inv ba" and n: "0 < n"
  shows "\<exists>ba'. addCapacity n ba = Inr ba' \<and> ba_inv ba' \<and> m_position ba + n \<le> m_capacity ba'
    \<and> m_baseSize ba' = m_baseSize ba \<and> m_endian ba' = m_endian ba \<and> m_position ba' = m_position ba
    \<and> m_size ba' = m_size ba \<and> bytes ba' = bytes ba \<and> m_cur ba' \<noteq> None"
proof (cases "n \<le> getCapacity ba")
  case True
  then have "m_position ba < m_capacity ba"
    using n by (simp add: getCapacity_inv [OF inv])
  then have "m_cur ba \<noteq> None"
    using inv by (simp add: ba_inv_def cur_at_def)
  moreover have "m_position ba + n \<le> m_capacity ba"
    using True n by (simp add: getCapacity_inv [OF inv])
  ultimately show ?thesis using True inv by (simp add: addCapacity_def)
next
  case False
  let ?b = "m_baseSize ba"
  let ?cap = "m_capacity ba - m_position ba"
  let ?k = "(n - ?cap + ?b - 1) div ?b"
  let ?new = "replicate ?k (new_Node ?b)"
  let ?ba = "ba\<lparr>m_nodes := m_nodes ba @ ?new, m_capacity := m_capacity ba + ?k * ?b,
                m_cur := (if ?cap = 0 then Some (length (m_nodes ba)) else m_cur ba)\<rparr>"
  have b: "0 < ?b" using inv by (rule ba_inv_base_pos)
  have add: "addCapacity n ba = Inr ?ba"
    using False n b by (simp add: addCapacity_def getCapacity_inv [OF inv] Let_def)
  have cap: "m_capacity ba = ?b * length (m_nodes ba)" and bl: "blocks ?b (m_nodes ba)"
    and pos: "m_position ba \<le> m_capacity ba" and sz: "m_size ba \<le> m_capacity ba"
    using inv by (auto simp: ba_inv_def)
  have need: "n - ?cap \<le> ?k * ?b" using b by (rule ceil_mult_ge)
  have room: "m_position ba + n \<le> m_capacity ba + ?k * ?b"
    using need pos by linarith
  have k: "0 < ?k" using need False n by (cases "?k = 0") (auto simp: getCapacity_inv [OF inv])
  have lt: "m_position ba < ?b * length (m_nodes ba @ ?new)"
    using room n cap by (simp add: distrib_left mult.commute)
  have cur: "m_cur ?ba = cur_at ?b (m_nodes ba @ ?new) (m_position ba)"
  proof (cases "?cap = 0")
    case True
    then have "m_position ba = ?b * length (m_nodes ba)" using pos cap by simp
    then show ?thesis using True lt b by (simp add: cur_at_def)
  next
    case False
    then show ?thesis using inv lt cap pos by (simp add: ba_inv_def cur_at_def)
  qed
  have "m_cur ?ba \<noteq> None" using cur lt by (simp add: cur_at_def)
  moreover have "blocks ?b (m_nodes ba @ ?new)"
    using bl b by (auto simp: blocks_def new_Node_def)
  moreover have "bytes ?ba = bytes ba"
    using sz cap by (simp add: bytes_def blocks_length_concat [OF bl])
  ultimately show ?thesis
    using add inv cap room cur by (auto simp: ba_inv_def algebra_simps)
qed

lemma ba_write_correct:
  assumes inv: "ba_inv ba"
  shows "\<exists>ba'. ba_write buf ba = Inr ba' \<and> written ba buf ba'"
proof (cases "buf = []")
  case True
  then show ?thesis using inv by (simp add: ba_write_def written_Nil)
next
  case False
  then have len: "0 < length buf" by simp
  obtain ba1 where add: "addCapacity (length buf) ba = Inr ba1" and inv1: "ba_inv ba1"
    and room: "m_position ba + length buf \<le> m_capacity ba1"
    and same: "m_baseSize ba1 = m_baseSize ba" "m_endian ba1 = m_endian ba"
      "m_position ba1 = m_position ba" "m_size ba1 = m_size ba" "bytes ba1 = bytes ba"
    and cur: "m_cur ba1 \<noteq> None"
    using addCapacity_correct [OF inv len] by blast
  obtain c where c: "m_cur ba1 = Some c" using cur by auto
  let ?b = "m_baseSize ba1" and ?npos = "m_position ba1 mod m_baseSize ba1"
  note split = inv_position_split [OF inv1 c]
  have bl: "blocks ?b (m_nodes ba1)" and cap: "m_capacity ba1 = ?b * length (m_nodes ba1)"
    and pos: "m_position ba1 \<le> m_size ba1" "m_size ba1 \<le> m_capacity ba1"
    using inv1 by (auto simp: ba_inv_def)
  obtain nodes' where loop:
    "write_loop (m_nodes ba1) (Some c) ?npos (?b - ?npos) buf (m_position ba1)
       = Inr (nodes', cur_at ?b (m_nodes ba1) (m_position ba1 + length buf), m_position ba1 + length buf)"
    "blocks ?b nodes'" "length nodes' = length (m_nodes ba1)"
    "concat nodes' = blit (concat (m_nodes ba1)) (m_position ba1) buf"
    using write_loop_correct [OF bl split(1,3) False] split(2) room same(3) cap by auto
  let ?pos' = "m_position ba + length buf"
  let ?ba' = "ba1\<lparr>m_nodes := nodes', m_cur := cur_at ?b (m_nodes ba1) ?pos', m_position := ?pos',
      m_size := max (m_size ba) ?pos'\<rparr>"
  have wr: "ba_write buf ba = Inr ?ba'"
    using False add c split(1,3) ba_inv_base_pos [OF inv1] loop(1) same(3,4)
    by (simp add: ba_write_def blocks_nth [OF bl] max_def)
  have "ba_inv ?ba'"
    using inv1 loop(2,3) pos room same(3,4) cap
    by (auto simp: ba_inv_def cur_at_def)
  moreover have "bytes ?ba' = blit (bytes ba) (m_position ba) buf"
    using take_blit_superset [of "m_position ba" "m_size ba" "concat (m_nodes ba1)" buf]
      pos same loop(4) cap blocks_length_concat [OF bl]
    by (simp add: bytes_def)
  ultimately show ?thesis using wr same by (auto simp: written_def)
qed

lemma ba_read_correct:
  assumes inv: "ba_inv ba" and n: "n \<le> length (rest ba)" and cur: "0 < n \<or> m_cur ba \<noteq> None"
  shows "ba_read n ba = Inr (take n (rest ba), advanced ba n)"
proof -
  let ?b = "m_baseSize ba" and ?npos = "m_position ba mod m_baseSize ba"
  have bl: "blocks ?b (m_nodes ba)" and cap: "m_capacity ba = ?b * length (m_nodes ba)"
    and pos: "m_position ba \<le> m_size ba" "m_size ba \<le> m_capacity ba"
    using inv by (auto simp: ba_inv_def)
  have le: "m_position ba + n \<le> m_size ba"
    using n pos by (simp add: length_rest [OF inv])
  have "m_cur ba \<noteq> None"
    using cur le pos cap inv by (auto simp: ba_inv_def cur_at_def split: if_splits)
  then obtain c where c: "m_cur ba = Some c" by auto
  note split = inv_position_split [OF inv c]
  have loop: "read_loop (m_nodes ba) (Some c) ?npos (?b - ?npos) n (m_position ba) []
      = Inr (take n (rest ba), cur_at ?b (m_nodes ba) (m_position ba + n), m_position ba + n)"
  proof (cases "n = 0")
    case True
    then show ?thesis
      using inv c by (simp add: read_loop.simps ba_inv_def)
  next
    case False
    have "take n (rest ba) = take n (drop (m_position ba) (concat (m_nodes ba)))"
      using le by (simp add: rest_def bytes_def drop_take min_def)
    then show ?thesis
      using read_loop_correct [OF bl split(1,3), of n "[]"] False split(2) le pos cap by simp
  qed
  show ?thesis
    using n c split(1,3) loop ba_inv_base_pos [OF inv]
    by (simp add: ba_read_def getReadSize_rest [OF inv] blocks_nth [OF bl] advanced_def)
qed

lemma ba_read_at_position:
  assumes "ba_inv ba" "n \<le> length (rest ba)" "0 < n"
  shows "ba_read_at n (m_position ba) ba = Inr (take n (rest ba))"
  using ba_read_correct [OF assms(1,2)] assms
  by (auto simp: ba_read_def ba_read_at_def getReadSize_def res_simps Let_def split: if_splits)

lemma setPosition_correct:
  assumes inv: "ba_inv ba" and v: "v \<le> m_capacity ba"
  shows "\<exists>ba'. setPosition v ba = Inr ba' \<and> ba_inv ba' \<and> m_position ba' = v
    \<and> m_nodes ba' = m_nodes ba \<and> m_size ba' = max (m_size ba) v
    \<and> m_endian ba' = m_endian ba \<and> m_baseSize ba' = m_baseSize ba"
proof -
  have bl: "blocks (m_baseSize ba) (m_nodes ba)" "m_nodes ba \<noteq> []"
    "m_capacity ba = m_baseSize ba * length (m_nodes ba)"
    using inv by (auto simp: ba_inv_def)
  have "setPosition_loop (m_nodes ba) (Some 0) v = Inr (cur_at (m_baseSize ba) (m_nodes ba) v)"
    using setPosition_loop_correct [of "m_baseSize ba" "m_nodes ba" 0 v] bl v by simp
  then show ?thesis
    using inv v by (auto simp: setPosition_def ba_inv_def)
qed

lemma setPosition_back:
  assumes "ba_inv ba" "v \<le> m_size ba"
  shows "\<exists>ba'. setPosition v ba = Inr ba' \<and> ba_inv ba' \<and> m_position ba' = v
    \<and> bytes ba' = bytes ba \<and> m_endian ba' = m_endian ba \<and> rest ba' = drop v (bytes ba)"
proof -
  have "v \<le> m_capacity ba" using assms by (simp add: ba_inv_def)
  then show ?thesis
    using setPosition_correct [OF assms(1), of v] assms(2)
    by (auto simp: bytes_def rest_def)
qed

end
