(* ===== verification/ByteArray_Codec.thy ===== *)
theory ByteArray_Codec
  imports ByteArray
begin

text \<open>
  The typed operations of \<open>ByteArray\<close> (\<open>sherry/bytearray.cc\<close>) and the byte order helpers of
  \<open>sherry/endian.h\<close>: fixed-width integers in either byte order, zigzag and variable-length
  integers, floating-point bit patterns and length-prefixed strings. Signed integers are
  the words that hold them; a \<open>std::string\<close> is the list of its bytes. The locale \<open>codec\<close>
  states what a matching pair of a write and a read operation promises; it is interpreted
  on every pair of the class, and the round trip of a whole sequence of values follows.
\<close>

unbundle bit_operations_syntax

subsection \<open>Byte order\<close>

definition byteswap :: "'a::len word \<Rightarrow> 'a word" where
  "byteswap w = bytes_word (rev (word_bytes (LENGTH('a) div 8) w))"

text \<open>On a little-endian host (\<open>endian.h\<close>, the \<open>#else\<close> branch).\<close>

definition byteswapOnLittleEndian :: "'a::len word \<Rightarrow> 'a word" where
  "byteswapOnLittleEndian t = byteswap t"

definition byteswapOnBigEndian :: "'a::len word \<Rightarrow> 'a word" where
  "byteswapOnBigEndian t = t"

subsection \<open>Fixed-width integers\<close>

definition writeFint8 :: "u8 \<Rightarrow> bytearray \<Rightarrow> bytearray res" where
  "writeFint8 val ba = ba_write (word_bytes 1 val) ba"

definition writeFuint8 :: "u8 \<Rightarrow> bytearray \<Rightarrow> bytearray res" where
  "writeFuint8 val ba = ba_write (word_bytes 1 val) ba"

definition writeFint16 :: "u16 \<Rightarrow> bytearray \<Rightarrow> bytearray res" where
  "writeFint16 val ba =
     ba_write (word_bytes 2 (if m_endian ba \<noteq> SYLAR_BYTE_ORDER then byteswap val else val)) ba"

definition writeFuint16 :: "u16 \<Rightarrow> bytearray \<Rightarrow> bytearray res" where
  "writeFuint16 val ba =
     ba_write (word_bytes 2 (if m_endian ba \<noteq> SYLAR_BYTE_ORDER then byteswap val else val)) ba"

definition writeFint32 :: "u32 \<Rightarrow> bytearray \<Rightarrow> bytearray res" where
  "writeFint32 val ba =
     ba_write (word_bytes 4 (if m_endian ba \<noteq> SYLAR_BYTE_ORDER then byteswap val else val)) ba"

definition writeFuint32 :: "u32 \<Rightarrow> bytearray \<Rightarrow> bytearray res" where
  "writeFuint32 val ba =
     ba_write (word_bytes 4 (if m_endian ba \<noteq> SYLAR_BYTE_ORDER then byteswap val else val)) ba"

definition writeFint64 :: "u64 \<Rightarrow> bytearray \<Rightarrow> bytearray res" where
  "writeFint64 val ba =
     ba_write (word_bytes 8 (if m_endian ba \<noteq> SYLAR_BYTE_ORDER then byteswap val else val)) ba"

definition writeFuint64 :: "u64 \<Rightarrow> bytearray \<Rightarrow> bytearray res" where
  "writeFuint64 val ba =
     ba_write (word_bytes 8 (if m_endian ba \<noteq> SYLAR_BYTE_ORDER then byteswap val else val)) ba"

definition readFint8 :: "bytearray \<Rightarrow> (u8 \<times> bytearray) res" where
  "readFint8 ba = bindR (ba_read 1 ba) (\<lambda>(bs, ba). Inr (bytes_word bs, ba))"

definition readFuint8 :: "bytearray \<Rightarrow> (u8 \<times> bytearray) res" where
  "readFuint8 ba = bindR (ba_read 1 ba) (\<lambda>(bs, ba). Inr (bytes_word bs, ba))"

text \<open>The body of the macro \<open>XX(type)\<close>, with \<open>sizeof(type)\<close> as a parameter.\<close>

definition read_XX :: "nat \<Rightarrow> bytearray \<Rightarrow> ('a::len word \<times> bytearray) res" where
  "read_XX n ba = bindR (ba_read n ba) (\<lambda>(bs, ba).
     let v = bytes_word bs in
     if m_endian ba = SYLAR_BYTE_ORDER then Inr (v, ba) else Inr (byteswap v, ba))"

definition readFint16 :: "bytearray \<Rightarrow> (u16 \<times> bytearray) res" where
  "readFint16 ba = read_XX 2 ba"

definition readFuint16 :: "bytearray \<Rightarrow> (u16 \<times> bytearray) res" where
  "readFuint16 ba = read_XX 2 ba"

definition readFint32 :: "bytearray \<Rightarrow> (u32 \<times> bytearray) res" where
  "readFint32 ba = read_XX 4 ba"

definition readFuint32 :: "bytearray \<Rightarrow> (u32 \<times> bytearray) res" where
  "readFuint32 ba = read_XX 4 ba"

definition readFint64 :: "bytearray \<Rightarrow> (u64 \<times> bytearray) res" where
  "readFint64 ba = read_XX 8 ba"

definition readFuint64 :: "bytearray \<Rightarrow> (u64 \<times> bytearray) res" where
  "readFuint64 ba = read_XX 8 ba"

subsection \<open>Zigzag and variable-length integers\<close>

text \<open>
  \<open>-v\<close> wraps for the least value, as the two's complement negation of the target does.
\<close>

definition EncodeZigzag32 :: "u32 \<Rightarrow> u32" where
  "EncodeZigzag32 v = (if sint v < 0 then (- v) * 2 - 1 else v * 2)"

definition EncodeZigzag64 :: "u64 \<Rightarrow> u64" where
  "EncodeZigzag64 v = (if sint v < 0 then (- v) * 2 - 1 else v * 2)"

definition DecodeZigzag32 :: "u32 \<Rightarrow> u32" where
  "DecodeZigzag32 v = drop_bit 1 v XOR - (v AND 1)"

definition DecodeZigzag64 :: "u64 \<Rightarrow> u64" where
  "DecodeZigzag64 v = drop_bit 1 v XOR - (v AND 1)"

text \<open>The bytes that the loops of \<open>writeUint32\<close> and \<open>writeUint64\<close> put into \<open>tmp\<close>.\<close>

function varint32_tmp :: "u32 \<Rightarrow> u8 list" where
  "varint32_tmp val =
     (if 128 \<le> val then ucast ((val AND 127) OR 128) # varint32_tmp (drop_bit 7 val)
      else [ucast val])"
  by pat_completeness auto
termination
proof (relation "measure unat")
  fix val :: u32
  assume "128 \<le> val"
  then have "128 \<le> unat val" by (simp add: word_le_nat_alt)
  then show "(drop_bit 7 val, val) \<in> measure unat"
    by (simp add: drop_bit_eq_div unat_div)
qed auto

function varint64_tmp :: "u64 \<Rightarrow> u8 list" where
  "varint64_tmp val =
     (if 128 \<le> val then ucast ((val AND 127) OR 128) # varint64_tmp (drop_bit 7 val)
      else [ucast val])"
  by pat_completeness auto
termination
proof (relation "measure unat")
  fix val :: u64
  assume "128 \<le> val"
  then have "128 \<le> unat val" by (simp add: word_le_nat_alt)
  then show "(drop_bit 7 val, val) \<in> measure unat"
    by (simp add: drop_bit_eq_div unat_div)
qed auto

declare varint32_tmp.simps [simp del] varint64_tmp.simps [simp del]

definition writeUint32 :: "u32 \<Rightarrow> bytearray \<Rightarrow> bytearray res" where
  "writeUint32 val ba = ba_write (varint32_tmp val) ba"

definition writeUint64 :: "u64 \<Rightarrow> bytearray \<Rightarrow> bytearray res" where
  "writeUint64 val ba = ba_write (varint64_tmp val) ba"

definition writeInt32 :: "u32 \<Rightarrow> bytearray \<Rightarrow> bytearray res" where
  "writeInt32 val ba = writeUint32 (EncodeZigzag32 val) ba"

definition writeInt64 :: "u64 \<Rightarrow> bytearray \<Rightarrow> bytearray res" where
  "writeInt64 val ba = writeUint64 (EncodeZigzag64 val) ba"

text \<open>
  The loop of \<open>readUint32\<close> (with the bound 32) and of \<open>readUint64\<close> (with 64): the bound is
  the width of the result type.
\<close>

function readUint_loop :: "nat \<Rightarrow> 'a::len word \<Rightarrow> bytearray \<Rightarrow> ('a word \<times> bytearray) res" where
  "readUint_loop i result ba =
     (if i < LENGTH('a) then
        (case readFuint8 ba of
           Inl e \<Rightarrow> Inl e
         | Inr (b, ba') \<Rightarrow>
             if b < 128 then Inr (result OR push_bit i (ucast b), ba')
             else readUint_loop (i + 7) (result OR push_bit i (ucast (b AND 127))) ba')
      else Inr (result, ba))"
  by pat_completeness auto
termination
  by (relation "measure (\<lambda>(i, result :: 'a word, ba). LENGTH('a) - i)") auto

declare readUint_loop.simps [simp del]

definition readUint32 :: "bytearray \<Rightarrow> (u32 \<times> bytearray) res" where
  "readUint32 ba = readUint_loop 0 0 ba"

definition readUint64 :: "bytearray \<Rightarrow> (u64 \<times> bytearray) res" where
  "readUint64 ba = readUint_loop 0 0 ba"

definition readInt32 :: "bytearray \<Rightarrow> (u32 \<times> bytearray) res" where
  "readInt32 ba = bindR (readUint32 ba) (\<lambda>(v, ba). Inr (DecodeZigzag32 v, ba))"

definition readInt64 :: "bytearray \<Rightarrow> (u64 \<times> bytearray) res" where
  "readInt64 ba = bindR (readUint64 ba) (\<lambda>(v, ba). Inr (DecodeZigzag64 v, ba))"

subsection \<open>Floating point and strings\<close>

text \<open>A \<open>float\<close> and a \<open>double\<close> are their bit patterns, which \<open>memcpy\<close> moves unchanged.\<close>

definition writeFloat :: "u32 \<Rightarrow> bytearray \<Rightarrow> bytearray res" where
  "writeFloat v ba = writeFuint32 v ba"

definition writeDouble :: "u64 \<Rightarrow> bytearray \<Rightarrow> bytearray res" where
  "writeDouble v ba = writeFuint64 v ba"

definition readFloat :: "bytearray \<Rightarrow> (u32 \<times> bytearray) res" where
  "readFloat ba = readFuint32 ba"

definition readDouble :: "bytearray \<Rightarrow> (u64 \<times> bytearray) res" where
  "readDouble ba = readFuint64 ba"

definition writeStringF16 :: "u8 list \<Rightarrow> bytearray \<Rightarrow> bytearray res" where
  "writeStringF16 val ba =
     bindR (writeFuint16 (word_of_nat (length val)) ba) (\<lambda>ba. ba_write val ba)"

definition writeStringF32 :: "u8 list \<Rightarrow> bytearray \<Rightarrow> bytearray res" where
  "writeStringF32 val ba =
     bindR (writeFuint32 (word_of_nat (length val)) ba) (\<lambda>ba. ba_write val ba)"

definition writeStringF64 :: "u8 list \<Rightarrow> bytearray \<Rightarrow> bytearray res" where
  "writeStringF64 val ba =
     bindR (writeFuint64 (word_of_nat (length val)) ba) (\<lambda>ba. ba_write val ba)"

definition writeStringVint :: "u8 list \<Rightarrow> bytearray \<Rightarrow> bytearray res" where
  "writeStringVint val ba =
     bindR (writeUint64 (word_of_nat (length val)) ba) (\<lambda>ba. ba_write val ba)"

definition writeStringWithoutLength :: "u8 list \<Rightarrow> bytearray \<Rightarrow> bytearray res" where
  "writeStringWithoutLength val ba = ba_write val ba"

definition readStringF16 :: "bytearray \<Rightarrow> (u8 list \<times> bytearray) res" where
  "readStringF16 ba = bindR (readFuint16 ba) (\<lambda>(len, ba). ba_read (unat len) ba)"

definition readStringF32 :: "bytearray \<Rightarrow> (u8 list \<times> bytearray) res" where
  "readStringF32 ba = bindR (readFuint32 ba) (\<lambda>(len, ba). ba_read (unat len) ba)"

definition readStringF64 :: "bytearray \<Rightarrow> (u8 list \<times> bytearray) res" where
  "readStringF64 ba = bindR (readFuint64 ba) (\<lambda>(len, ba). ba_read (unat len) ba)"

definition readStringVint :: "bytearray \<Rightarrow> (u8 list \<times> bytearray) res" where
  "readStringVint ba = bindR (readUint64 ba) (\<lambda>(len, ba). ba_read (unat len) ba)"

subsection \<open>Byte order facts\<close>

lemma word_bytes_byteswap:
  "LENGTH('a::len) = 8 * n \<Longrightarrow> word_bytes n (byteswap (w :: 'a word)) = rev (word_bytes n w)"
  using word_bytes_bytes_word [of "rev (word_bytes n w)", where 'a = 'a]
  by (simp add: byteswap_def)

lemma byteswap_bytes_word:
  "LENGTH('a::len) = 8 * length bs \<Longrightarrow> byteswap (bytes_word bs :: 'a word) = bytes_word (rev bs)"
  using word_bytes_bytes_word [of bs, where 'a = 'a] by (simp add: byteswap_def)

lemma byteswap_byteswap:
  "LENGTH('a::len) = 8 * n \<Longrightarrow> byteswap (byteswap (w :: 'a word)) = w"
  using byteswap_bytes_word [of "rev (word_bytes n w)", where 'a = 'a]
    bytes_word_word_bytes [of n w]
  by (simp add: byteswap_def)

text \<open>The bytes of a fixed-width integer as they lie in the array.\<close>

definition enc_fixed :: "nat \<Rightarrow> nat \<Rightarrow> 'a::len word \<Rightarrow> u8 list" where
  "enc_fixed n e w = (if e = SYLAR_BYTE_ORDER then word_bytes n w else rev (word_bytes n w))"

lemma length_enc_fixed [simp]: "length (enc_fixed n e w) = n"
  by (simp add: enc_fixed_def)

lemma fixed_bytes:
  "LENGTH('a::len) = 8 * n \<Longrightarrow>
     word_bytes n (if e \<noteq> SYLAR_BYTE_ORDER then byteswap w else w) = enc_fixed n e (w :: 'a word)"
  by (simp add: enc_fixed_def word_bytes_byteswap)

lemma write_fixed:
  assumes "ba_inv ba" "LENGTH('a::len) = 8 * n"
  shows "\<exists>ba'. ba_write (word_bytes n
             (if m_endian ba \<noteq> SYLAR_BYTE_ORDER then byteswap w else (w :: 'a word))) ba = Inr ba'
           \<and> written ba (enc_fixed n (m_endian ba) w) ba'"
  using ba_write_correct [OF assms(1), of "enc_fixed n (m_endian ba) w"]
  by (simp add: fixed_bytes [OF assms(2)])

lemma ba_read_prefix:
  "ba_inv ba \<Longrightarrow> rest ba = xs @ ys \<Longrightarrow> xs \<noteq> [] \<Longrightarrow>
     ba_read (length xs) ba = Inr (xs, advanced ba (length xs))"
  by (simp add: ba_read_correct)

lemma read_XX_prefix:
  assumes "ba_inv ba" "LENGTH('a::len) = 8 * n" "0 < n"
    and "rest ba = enc_fixed n (m_endian ba) (w :: 'a word) @ ys"
  shows "read_XX n ba = Inr (w, advanced ba n)"
proof -
  let ?bs = "enc_fixed n (m_endian ba) w"
  have "?bs \<noteq> []" using assms(3) by (metis length_enc_fixed length_greater_0_conv)
  then have "ba_read n ba = Inr (?bs, advanced ba n)"
    using ba_read_prefix [OF assms(1,4)] by simp
  moreover have "byteswap (bytes_word (rev (word_bytes n w)) :: 'a word) = w"
    using assms(2) by (simp add: byteswap_bytes_word bytes_word_word_bytes)
  ultimately show ?thesis
    using assms(2) by (simp add: read_XX_def enc_fixed_def bytes_word_word_bytes)
qed

lemma readFuint8_prefix:
  "ba_inv ba \<Longrightarrow> rest ba = b # ys \<Longrightarrow> readFuint8 ba = Inr (b, advanced ba 1)"
  using ba_read_prefix [of ba "[b]" ys] by (simp add: readFuint8_def)

lemma word_bytes_1: "word_bytes 1 (b :: u8) = [b]"
  by (simp add: word_bytes_def)

subsection \<open>Zigzag is a bijection\<close>

lemma zigzag_round_trip:
  fixes v :: "'a::len word"
  assumes "1 < LENGTH('a)"
  defines "e \<equiv> (if sint v < 0 then (- v) * 2 - 1 else v * 2)"
  shows "drop_bit 1 e XOR - (e AND 1) = v"
proof (cases "sint v < 0")
  case True
  then have msb: "bit v (LENGTH('a) - 1)"
    by (simp add: bit_last_iff)
  have e: "e = push_bit 1 (NOT v) + 1"
    using True by (simp add: e_def push_bit_eq_mult not_eq_complement algebra_simps)
  have "push_bit 1 (NOT v) + 1 = push_bit 1 (NOT v) OR 1"
    by (rule disjunctive_add) (auto simp only: bit_push_bit_iff bit_1_iff)
  then have "e = push_bit 1 (NOT v) OR 1" using e by simp
  moreover have "drop_bit 1 (push_bit 1 (NOT v) OR 1) = NOT v"
  proof (rule bit_eqI)
    fix n
    assume "possible_bit TYPE('a word) n"
    then have n: "n < LENGTH('a)" by simp
    show "bit (drop_bit 1 (push_bit 1 (NOT v) OR 1)) n = bit (NOT v) n"
    proof (cases "Suc n < LENGTH('a)")
      case False
      then have "n = LENGTH('a) - 1" using n by simp
      then show ?thesis using msb n False
        by (simp add: bit_drop_bit_eq bit_or_iff bit_push_bit_iff bit_1_iff bit_not_iff)
    qed (auto simp: bit_drop_bit_eq bit_or_iff bit_push_bit_iff bit_1_iff bit_not_iff
          simp del: push_bit_Suc)
  qed
  moreover have "(push_bit 1 (NOT v) OR 1) AND 1 = (1 :: 'a word)"
    by (rule bit_eqI) (auto simp: bit_and_iff bit_or_iff bit_1_iff bit_push_bit_iff)
  ultimately show ?thesis
    by simp
next
  case False
  then have msb: "\<not> bit v (LENGTH('a) - 1)"
    by (simp add: bit_last_iff)
  have e: "e = push_bit 1 v"
    using False by (simp add: e_def push_bit_eq_mult mult.commute)
  have "drop_bit 1 (push_bit 1 v) = v"
  proof (rule bit_eqI)
    fix n
    assume "possible_bit TYPE('a word) n"
    then have n: "n < LENGTH('a)" by simp
    show "bit (drop_bit 1 (push_bit 1 v)) n = bit v n"
    proof (cases "Suc n < LENGTH('a)")
      case False
      then have "n = LENGTH('a) - 1" using n by simp
      then show ?thesis using msb n False by (simp add: bit_drop_bit_eq bit_push_bit_iff)
    qed (simp add: bit_drop_bit_eq bit_push_bit_iff del: push_bit_Suc)
  qed
  moreover have "push_bit 1 v AND 1 = 0"
    by (rule bit_eqI) (auto simp: bit_and_iff bit_1_iff bit_push_bit_iff simp del: push_bit_Suc)
  ultimately show ?thesis using e by simp
qed

lemma DecodeZigzag32_Encode: "DecodeZigzag32 (EncodeZigzag32 v) = v"
  using zigzag_round_trip [of v] by (simp add: DecodeZigzag32_def EncodeZigzag32_def)

lemma DecodeZigzag64_Encode: "DecodeZigzag64 (EncodeZigzag64 v) = v"
  using zigzag_round_trip [of v] by (simp add: DecodeZigzag64_def EncodeZigzag64_def)

subsection \<open>Variable-length integers\<close>

text \<open>The byte sequence over numbers, independent of the width of the type.\<close>

fun varint_nat :: "nat \<Rightarrow> u8 list" where
  "varint_nat n =
     (if 128 \<le> n then word_of_nat (n mod 128 + 128) # varint_nat (n div 128) else [word_of_nat n])"

declare varint_nat.simps [simp del]

lemma varint_nat_nonempty [simp]: "varint_nat n \<noteq> []"
  by (simp add: varint_nat.simps [of n])

lemma mask7_or: "(n AND 127) OR 128 = n mod 128 + 128" for n :: nat
proof -
  have "n AND 127 = take_bit 7 n" by (simp add: take_bit_eq_mask mask_eq_exp_minus_1)
  moreover have "take_bit 7 n OR 128 = take_bit 7 n + 2 ^ 7"
  proof -
    have "take_bit 7 n OR push_bit 7 1 = take_bit 7 n + push_bit 7 (1 :: nat)"
      by (rule disjunctive_add [symmetric])
        (auto simp only: bit_take_bit_iff bit_push_bit_iff)
    then show ?thesis by (simp add: push_bit_eq_mult)
  qed
  ultimately show ?thesis by (simp add: take_bit_eq_mod)
qed

lemma varint_byte:
  fixes val :: "'a::len word"
  assumes "8 < LENGTH('a)"
  shows "ucast ((val AND 127) OR 128) = (word_of_nat (unat val mod 128 + 128) :: u8)"
proof -
  have le: "2 ^ 8 < (2::nat) ^ LENGTH('a)" using assms by (intro power_strict_increasing) auto
  have "unat (127 :: 'a word) = 127" "unat (128 :: 'a word) = 128"
    using le by (simp_all add: unat_numeral take_bit_eq_mod)
  then have "unat ((val AND 127) OR 128) = unat val mod 128 + 128"
    by (simp add: unsigned_or_eq unsigned_and_eq mask7_or)
  then show ?thesis by (metis of_nat_unat)
qed

lemma le_128_unat: "8 < LENGTH('a) \<Longrightarrow> 128 \<le> (val :: 'a::len word) \<longleftrightarrow> 128 \<le> unat val"
proof -
  assume "8 < LENGTH('a)"
  then have "2 ^ 8 < (2::nat) ^ LENGTH('a)" by (intro power_strict_increasing) auto
  then have "unat (128 :: 'a word) = 128" by (simp add: unat_numeral take_bit_eq_mod)
  then show ?thesis by (simp add: word_le_nat_alt)
qed

lemma varint32_tmp_nat: "varint32_tmp val = varint_nat (unat val)"
proof (induction val rule: varint32_tmp.induct)
  case (1 val)
  then show ?case
    by (simp add: varint32_tmp.simps [of val] varint_nat.simps [of "unat val"] le_128_unat
        varint_byte drop_bit_eq_div unat_div)
qed

lemma varint64_tmp_nat: "varint64_tmp val = varint_nat (unat val)"
proof (induction val rule: varint64_tmp.induct)
  case (1 val)
  then show ?case
    by (simp add: varint64_tmp.simps [of val] varint_nat.simps [of "unat val"] le_128_unat
        varint_byte drop_bit_eq_div unat_div)
qed

lemma length_varint_nat: "n < 128 ^ k \<Longrightarrow> 0 < k \<Longrightarrow> length (varint_nat n) \<le> k"
proof (induction n arbitrary: k rule: varint_nat.induct)
  case (1 n)
  show ?case
  proof (cases "128 \<le> n")
    case True
    then have "k \<noteq> 1" using "1.prems" by auto
    then obtain j where j: "k = Suc j" "0 < j"
      using "1.prems" by (cases k) auto
    then have "n div 128 < 128 ^ j"
      using "1.prems" by (simp add: less_mult_imp_div_less mult.commute)
    then show ?thesis
      using "1.IH" [OF True, of j] j True by (simp add: varint_nat.simps [of n])
  next
    case False
    then show ?thesis using "1.prems" by (simp add: varint_nat.simps [of n])
  qed
qed

lemma u8_unat: "m < 256 \<Longrightarrow> unat (word_of_nat m :: u8) = m"
  by (simp add: unat_of_nat)

lemma u8_less_128: "m < 256 \<Longrightarrow> (word_of_nat m :: u8) < 128 \<longleftrightarrow> m < 128"
  by (simp add: word_less_nat_alt u8_unat)

text \<open>All bytes but the last announce a successor by their high bit.\<close>

definition varint_shape :: "u8 list \<Rightarrow> bool" where
  "varint_shape bs \<longleftrightarrow> bs \<noteq> [] \<and> list_all (\<lambda>b. 128 \<le> b) (butlast bs) \<and> last bs < 128"

lemma varint_nat_shape: "varint_shape (varint_nat n)"
proof (induction n rule: varint_nat.induct)
  case (1 n)
  have "n < 128 \<Longrightarrow> (word_of_nat n :: u8) < 128" by (simp add: u8_less_128)
  moreover have "\<not> (word_of_nat (n mod 128 + 128) :: u8) < 128"
    by (subst u8_less_128) (auto simp: mod_less)
  ultimately show ?case
    using "1.IH" by (auto simp: varint_nat.simps [of n] varint_shape_def not_less simp del: of_nat_add)
qed

lemma u8_ucast: "m < 256 \<Longrightarrow> ucast (word_of_nat m :: u8) = (word_of_nat m :: 'a::len word)"
  by (simp add: unsigned_of_nat take_bit_nat_eq_self)

lemma u8_low7: "m < 128 \<Longrightarrow> (word_of_nat (m + 128) :: u8) AND 127 = word_of_nat m"
proof -
  assume m: "m < 128"
  have "(m + 128) AND 127 = (m + 128) mod 128"
    using take_bit_eq_mask [of 7 "m + 128"] by (simp add: take_bit_eq_mod mask_eq_exp_minus_1)
  then have "unat ((word_of_nat (m + 128) :: u8) AND 127) = m"
    using m by (simp add: unsigned_and_eq u8_unat del: of_nat_add)
  then show ?thesis using m by (simp add: word_unat_eq_iff u8_unat del: of_nat_add)
qed

lemma push_bit_split7:
  "push_bit i (word_of_nat (n mod 128)) OR push_bit (i + 7) (word_of_nat (n div 128))
     = push_bit i (word_of_nat n :: 'a::len word)"
proof (rule bit_eqI)
  fix k
  have "bit (n mod 128) j = (j < 7 \<and> bit n j)" and "bit (n div 128) j = bit n (j + 7)" for j
    using bit_take_bit_iff [of 7 n j] bit_drop_bit_eq [of 7 n]
    by (simp_all add: take_bit_eq_mod drop_bit_eq_div add.commute fun_eq_iff)
  then show "bit (push_bit i (word_of_nat (n mod 128)) OR push_bit (i + 7) (word_of_nat (n div 128))
        :: 'a word) k = bit (push_bit i (word_of_nat n) :: 'a word) k"
    by (cases "i + 7 \<le> k") (auto simp: bit_or_iff bit_push_bit_iff bit_of_nat_iff)
qed

lemma readUint_loop_prefix:
  assumes "ba_inv ba" "rest ba = varint_nat n @ ys" "i < LENGTH('a)" "n < 2 ^ (LENGTH('a) - i)"
  shows "readUint_loop i (r :: 'a::len word) ba
       = Inr (r OR push_bit i (word_of_nat n), advanced ba (length (varint_nat n)))"
  using assms
proof (induction n arbitrary: i r ba rule: varint_nat.induct)
  case (1 n)
  show ?case
  proof (cases "128 \<le> n")
    case False
    then have "readFuint8 ba = Inr (word_of_nat n, advanced ba 1)"
      using "1.prems"(1,2) by (intro readFuint8_prefix) (auto simp: varint_nat.simps [of n])
    then show ?thesis
      using False "1.prems"(3)
      by (simp add: readUint_loop.simps [of i] u8_less_128 u8_ucast varint_nat.simps [of n])
  next
    case True
    define b where "b = (word_of_nat (n mod 128 + 128) :: u8)"
    have rd: "readFuint8 ba = Inr (b, advanced ba 1)"
      using "1.prems"(1,2) True
      by (intro readFuint8_prefix) (auto simp: varint_nat.simps [of n] b_def simp del: of_nat_add)
    have nb: "\<not> b < 128" unfolding b_def by (subst u8_less_128) (auto simp: mod_less)
    have "b AND 127 = word_of_nat (n mod 128)" unfolding b_def by (rule u8_low7) simp
    then have lo: "ucast (b AND 127) = (word_of_nat (n mod 128) :: 'a word)"
      by (simp add: u8_ucast)
    have "(2::nat) ^ 7 < 2 ^ (LENGTH('a) - i)" using True "1.prems"(4) by simp
    then have i: "7 < LENGTH('a) - i" by (rule power_less_imp_less_exp [rotated]) simp
    then have pow: "(2::nat) ^ (LENGTH('a) - i) = 2 ^ (LENGTH('a) - (i + 7)) * 128"
      using power_add [of "2::nat" "LENGTH('a) - (i + 7)" 7] by simp
    have rest1: "rest (advanced ba 1) = varint_nat (n div 128) @ ys"
      using "1.prems"(2) True by (simp add: rest_advanced varint_nat.simps [of n])
    have inv1: "ba_inv (advanced ba 1)"
      using "1.prems"(1,2) by (intro ba_inv_advanced) (auto simp: Suc_le_eq)
    have "readUint_loop (i + 7) (r OR push_bit i (word_of_nat (n mod 128))) (advanced ba 1)
        = Inr ((r OR push_bit i (word_of_nat (n mod 128))) OR push_bit (i + 7) (word_of_nat (n div 128)),
               advanced (advanced ba 1) (length (varint_nat (n div 128))))"
      using i "1.prems"(4) pow
      by (intro "1.IH" [OF True inv1 rest1]) (auto simp: less_mult_imp_div_less)
    then show ?thesis
      using True "1.prems"(3) rd nb lo push_bit_split7 [of i n, where 'a = 'a]
      by (simp add: readUint_loop.simps [of i] or.assoc varint_nat.simps [of n])
  qed
qed

lemma readUint32_prefix:
  "ba_inv ba \<Longrightarrow> rest ba = varint32_tmp v @ ys \<Longrightarrow>
     readUint32 ba = Inr (v, advanced ba (length (varint32_tmp v)))"
  using readUint_loop_prefix [of ba "unat v" ys 0 "0 :: u32"] unsigned_less [of v]
  by (simp add: readUint32_def varint32_tmp_nat)

lemma readUint64_prefix:
  "ba_inv ba \<Longrightarrow> rest ba = varint64_tmp v @ ys \<Longrightarrow>
     readUint64 ba = Inr (v, advanced ba (length (varint64_tmp v)))"
  using readUint_loop_prefix [of ba "unat v" ys 0 "0 :: u64"] unsigned_less [of v]
  by (simp add: readUint64_def varint64_tmp_nat)

subsection \<open>The contract of a write/read pair\<close>

locale codec =
  fixes wr :: "'a \<Rightarrow> bytearray \<Rightarrow> bytearray res"
    and rd :: "bytearray \<Rightarrow> ('a \<times> bytearray) res"
    and enc :: "nat \<Rightarrow> 'a \<Rightarrow> u8 list"
    and ok :: "'a \<Rightarrow> bool"
  assumes wr_law: "ba_inv ba \<Longrightarrow>
      \<exists>ba'. wr x ba = Inr ba' \<and> written ba (enc (m_endian ba) x) ba'"
    and rd_law: "ba_inv ba \<Longrightarrow> ok x \<Longrightarrow> rest ba = enc (m_endian ba) x @ ys \<Longrightarrow>
      rd ba = Inr (x, advanced ba (length (enc (m_endian ba) x)))"
begin

lemma wr_keeps_inv: "ba_inv ba \<Longrightarrow> wr x ba = Inr ba' \<Longrightarrow> ba_inv ba'"
  using wr_law [of ba x] by (auto simp: written_def)

lemma wr_total: "ba_inv ba \<Longrightarrow> wr x ba \<noteq> Inl e"
  using wr_law [of ba x] by auto

lemma rd_after_wr:
  assumes "ba_inv ba" "ok x"
  shows "\<exists>ba1 ba2. wr x ba = Inr ba1 \<and> setPosition (m_position ba) ba1 = Inr ba2
    \<and> rd ba2 = Inr (x, advanced ba2 (length (enc (m_endian ba) x)))"
proof -
  obtain ba1 where wr: "wr x ba = Inr ba1" and w: "written ba (enc (m_endian ba) x) ba1"
    using wr_law [OF assms(1)] by blast
  have pos: "m_position ba \<le> length (bytes ba)"
    using assms(1) by (simp add: length_bytes) (simp add: ba_inv_def)
  have "m_position ba \<le> m_size ba1"
    using w by (simp add: written_def ba_inv_def)
  then obtain ba2 where set: "setPosition (m_position ba) ba1 = Inr ba2" "ba_inv ba2"
      "m_endian ba2 = m_endian ba1" "rest ba2 = drop (m_position ba) (bytes ba1)"
    using setPosition_back [of ba1 "m_position ba"] w by (auto simp: written_def)
  have "rest ba2 = enc (m_endian ba2) x @ drop (m_position ba + length (enc (m_endian ba) x)) (bytes ba)"
    using w set pos by (simp add: written_def drop_blit_at)
  then have "rd ba2 = Inr (x, advanced ba2 (length (enc (m_endian ba2) x)))"
    using rd_law set(2) assms(2) by blast
  then show ?thesis using wr set w by (auto simp: written_def)
qed

end

text \<open>A length-prefixed string is the codec of the prefix followed by the raw bytes.\<close>

lemma prefixed_write:
  assumes inv: "ba_inv ba"
    and wr: "\<exists>ba'. wr ba = Inr ba' \<and> written ba xs ba'"
  shows "\<exists>ba'. bindR (wr ba) (ba_write str) = Inr ba' \<and> written ba (xs @ str) ba'"
proof -
  obtain ba1 where ba1: "wr ba = Inr ba1" "written ba xs ba1" using wr by blast
  then obtain ba2 where ba2: "ba_write str ba1 = Inr ba2" "written ba1 str ba2"
    using ba_write_correct [of ba1 str] by (auto simp: written_def)
  then show ?thesis using written_trans [OF inv ba1(2) ba2(2)] ba1(1) by auto
qed

lemma prefixed_read:
  assumes "ba_inv ba" "rest ba = (xs @ str) @ ys" "str \<noteq> []"
    and "rd ba = Inr (len, advanced ba (length xs))" "unat len = length str"
  shows "bindR (rd ba) (\<lambda>(len, ba). ba_read (unat len) ba) = Inr (str, advanced ba (length (xs @ str)))"
proof -
  have "ba_inv (advanced ba (length xs))"
    using assms(1,2) by (intro ba_inv_advanced) auto
  moreover have "rest (advanced ba (length xs)) = str @ ys"
    using assms(2) by (simp add: rest_advanced)
  ultimately show ?thesis
    using ba_read_prefix [of "advanced ba (length xs)" str ys] assms(3-5) by simp
qed

subsection \<open>The pairs of the class\<close>

definition enc_str16 :: "nat \<Rightarrow> u8 list \<Rightarrow> u8 list" where
  "enc_str16 e s = enc_fixed 2 e (word_of_nat (length s) :: u16) @ s"

definition enc_str32 :: "nat \<Rightarrow> u8 list \<Rightarrow> u8 list" where
  "enc_str32 e s = enc_fixed 4 e (word_of_nat (length s) :: u32) @ s"

definition enc_str64 :: "nat \<Rightarrow> u8 list \<Rightarrow> u8 list" where
  "enc_str64 e s = enc_fixed 8 e (word_of_nat (length s) :: u64) @ s"

definition enc_strv :: "u8 list \<Rightarrow> u8 list" where
  "enc_strv s = varint64_tmp (word_of_nat (length s)) @ s"

text \<open>A string a reader gets back: not empty, and its length fits the prefix.\<close>

definition str_ok :: "nat \<Rightarrow> u8 list \<Rightarrow> bool" where
  "str_ok w s \<longleftrightarrow> s \<noteq> [] \<and> length s < 2 ^ w"

lemma fixed_codec:
  assumes "wr = (\<lambda>w ba. ba_write (word_bytes n
             (if m_endian ba \<noteq> SYLAR_BYTE_ORDER then byteswap w else (w :: 'a::len word))) ba)"
    and "rd = read_XX n" and "LENGTH('a) = 8 * n" "0 < n"
  shows "codec wr rd (enc_fixed n) (\<lambda>_. True)"
  unfolding assms(1,2)
  by (rule codec.intro) (use assms(3,4) in \<open>auto intro: write_fixed read_XX_prefix simp del: if_not_P split del: if_split\<close>)

interpretation c8: codec writeFuint8 readFuint8 "\<lambda>e v. [v]" "\<lambda>_. True"
  by unfold_locales
    (auto simp: writeFuint8_def word_bytes_1 [unfolded One_nat_def] intro: ba_write_correct readFuint8_prefix
      [unfolded One_nat_def])

interpretation c8s: codec writeFint8 readFint8 "\<lambda>e v. [v]" "\<lambda>_. True"
  using c8.codec_axioms
  by (simp add: codec_def writeFint8_def writeFuint8_def readFint8_def readFuint8_def)

interpretation c16: codec writeFuint16 readFuint16 "enc_fixed 2" "\<lambda>_. True"
  by (rule fixed_codec) (simp_all add: fun_eq_iff writeFuint16_def readFuint16_def)

interpretation c16s: codec writeFint16 readFint16 "enc_fixed 2" "\<lambda>_. True"
  by (rule fixed_codec) (simp_all add: fun_eq_iff writeFint16_def readFint16_def)

interpretation c32: codec writeFuint32 readFuint32 "enc_fixed 4" "\<lambda>_. True"
  by (rule fixed_codec) (simp_all add: fun_eq_iff writeFuint32_def readFuint32_def)

interpretation c32s: codec writeFint32 readFint32 "enc_fixed 4" "\<lambda>_. True"
  by (rule fixed_codec) (simp_all add: fun_eq_iff writeFint32_def readFint32_def)

interpretation c64: codec writeFuint64 readFuint64 "enc_fixed 8" "\<lambda>_. True"
  by (rule fixed_codec) (simp_all add: fun_eq_iff writeFuint64_def readFuint64_def)

interpretation c64s: codec writeFint64 readFint64 "enc_fixed 8" "\<lambda>_. True"
  by (rule fixed_codec) (simp_all add: fun_eq_iff writeFint64_def readFint64_def)

interpretation cflt: codec writeFloat readFloat "enc_fixed 4" "\<lambda>_. True"
  using c32.codec_axioms by (simp add: codec_def writeFloat_def readFloat_def)

interpretation cdbl: codec writeDouble readDouble "enc_fixed 8" "\<lambda>_. True"
  using c64.codec_axioms by (simp add: codec_def writeDouble_def readDouble_def)

interpretation v32: codec writeUint32 readUint32 "\<lambda>e. varint32_tmp" "\<lambda>_. True"
  by unfold_locales (auto simp: writeUint32_def intro: ba_write_correct readUint32_prefix)

interpretation v64: codec writeUint64 readUint64 "\<lambda>e. varint64_tmp" "\<lambda>_. True"
  by unfold_locales (auto simp: writeUint64_def intro: ba_write_correct readUint64_prefix)

interpretation z32: codec writeInt32 readInt32 "\<lambda>e v. varint32_tmp (EncodeZigzag32 v)" "\<lambda>_. True"
proof unfold_locales
  show "\<exists>ba'. writeInt32 x ba = Inr ba' \<and> written ba (varint32_tmp (EncodeZigzag32 x)) ba'"
    if "ba_inv ba" for ba x
    using v32.wr_law [OF that] by (simp add: writeInt32_def)
  show "readInt32 ba = Inr (x, advanced ba (length (varint32_tmp (EncodeZigzag32 x))))"
    if "ba_inv ba" "rest ba = varint32_tmp (EncodeZigzag32 x) @ ys" for ba x ys
    using v32.rd_law [OF that(1) _ that(2)] by (simp add: readInt32_def DecodeZigzag32_Encode)
qed

interpretation z64: codec writeInt64 readInt64 "\<lambda>e v. varint64_tmp (EncodeZigzag64 v)" "\<lambda>_. True"
proof unfold_locales
  show "\<exists>ba'. writeInt64 x ba = Inr ba' \<and> written ba (varint64_tmp (EncodeZigzag64 x)) ba'"
    if "ba_inv ba" for ba x
    using v64.wr_law [OF that] by (simp add: writeInt64_def)
  show "readInt64 ba = Inr (x, advanced ba (length (varint64_tmp (EncodeZigzag64 x))))"
    if "ba_inv ba" "rest ba = varint64_tmp (EncodeZigzag64 x) @ ys" for ba x ys
    using v64.rd_law [OF that(1) _ that(2)] by (simp add: readInt64_def DecodeZigzag64_Encode)
qed

lemma prefixed_codec:
  fixes wrl :: "'a::len word \<Rightarrow> bytearray \<Rightarrow> bytearray res"
  assumes len: "codec wrl rdl encl (\<lambda>_. True)"
    and wr: "\<And>s ba. wr s ba = bindR (wrl (word_of_nat (length s)) ba) (ba_write s)"
    and rd: "\<And>ba. rd ba = bindR (rdl ba) (\<lambda>(len, ba). ba_read (unat len) ba)"
    and enc: "\<And>e s. enc e s = encl e (word_of_nat (length s)) @ s"
  shows "codec wr rd enc (str_ok LENGTH('a))"
proof (rule codec.intro)
  show "\<exists>ba'. wr s ba = Inr ba' \<and> written ba (enc (m_endian ba) s) ba'" if "ba_inv ba" for ba s
    unfolding wr enc by (rule prefixed_write [OF that]) (rule codec.wr_law [OF len that])
  show "rd ba = Inr (s, advanced ba (length (enc (m_endian ba) s)))"
    if "ba_inv ba" "str_ok LENGTH('a) s" "rest ba = enc (m_endian ba) s @ ys" for ba s ys
    unfolding rd enc
  proof (rule prefixed_read [OF that(1)])
    show "rest ba = (encl (m_endian ba) (word_of_nat (length s)) @ s) @ ys"
      using that(3) by (simp add: enc)
    then show "rdl ba = Inr (word_of_nat (length s),
        advanced ba (length (encl (m_endian ba) (word_of_nat (length s)))))"
      by (intro codec.rd_law [OF len that(1)]) auto
  qed (use that(2) in \<open>auto simp: str_ok_def unat_of_nat\<close>)
qed

interpretation s16: codec writeStringF16 readStringF16 enc_str16 "str_ok 16"
  using prefixed_codec [OF c16.codec_axioms, of writeStringF16 readStringF16 enc_str16]
  by (simp add: writeStringF16_def readStringF16_def enc_str16_def)

interpretation s32: codec writeStringF32 readStringF32 enc_str32 "str_ok 32"
  using prefixed_codec [OF c32.codec_axioms, of writeStringF32 readStringF32 enc_str32]
  by (simp add: writeStringF32_def readStringF32_def enc_str32_def)

interpretation s64: codec writeStringF64 readStringF64 enc_str64 "str_ok 64"
  using prefixed_codec [OF c64.codec_axioms, of writeStringF64 readStringF64 enc_str64]
  by (simp add: writeStringF64_def readStringF64_def enc_str64_def)

interpretation sv: codec writeStringVint readStringVint "\<lambda>e. enc_strv" "str_ok 64"
  using prefixed_codec [OF v64.codec_axioms, of writeStringVint readStringVint "\<lambda>e. enc_strv"]
  by (simp add: writeStringVint_def readStringVint_def enc_strv_def)

end
