(* ===== verification/ByteArray_Buffers.thy ===== *)
theory ByteArray_Buffers
  imports ByteArray_Codec
begin

text \<open>
  The operations of \<open>ByteArray\<close> (\<open>sherry/bytearray.cc\<close>) that expose or transfer its blocks:
  \<open>getReadBuffers\<close>, \<open>getWriteBuffers\<close>, \<open>toString\<close>, \<open>toHexString\<close>, \<open>writeToFile\<close> and
  \<open>readFromFile\<close>. An \<open>iovec\<close> is a segment of one block. The contract of the buffers is
  \<open>iov_chain\<close>: consecutive, non-empty segments, each inside one block, of the requested
  total length. Gathering through them reads the flat array and scattering through them
  writes it.
\<close>

subsection \<open>Buffers\<close>

record iovec =
  iov_node :: nat
  iov_off :: nat
  iov_len :: nat

text \<open>The loop the three operations share; \<open>len\<close> counts the bytes still to cover.\<close>

function buffers_loop ::
  "'a list list \<Rightarrow> nat option \<Rightarrow> nat \<Rightarrow> nat \<Rightarrow> nat \<Rightarrow> iovec list \<Rightarrow> (iovec list) res" where
  "buffers_loop nodes cur npos ncap len buffers =
     (if len = 0 then Inr buffers
      else case cur of
        None \<Rightarrow> Inl NullDeref
      | Some c \<Rightarrow>
          if length nodes \<le> c then Inl OutOfBounds
          else if len \<le> ncap then
            Inr (buffers @ [\<lparr>iov_node = c, iov_off = npos, iov_len = len\<rparr>])
          else case node_next nodes c of
              None \<Rightarrow> Inl NullDeref
            | Some d \<Rightarrow> buffers_loop nodes (Some d) 0 (length (nodes ! d)) (len - ncap)
                          (buffers @ [\<lparr>iov_node = c, iov_off = npos, iov_len = ncap\<rparr>]))"
  by pat_completeness auto
termination
  by (relation "measure (\<lambda>(nodes, cur, npos, ncap, len, buffers).
        case cur of None \<Rightarrow> 0 | Some c \<Rightarrow> length nodes - c)")
     (auto simp: node_next_def split: if_splits)

declare buffers_loop.simps [simp del]

text \<open>\<open>getReadBuffers(buffers, len)\<close>: the returned size and the extended vector.\<close>

definition getReadBuffers :: "iovec list \<Rightarrow> nat \<Rightarrow> bytearray \<Rightarrow> (nat \<times> iovec list) res" where
  "getReadBuffers buffers len ba =
     (let len = (if len > getReadSize ba then getReadSize ba else len) in
      if len = 0 then Inr (0, buffers)
      else if m_baseSize ba = 0 then Inl DivZero
      else let npos = m_position ba mod m_baseSize ba in
        bindR (node_at (m_nodes ba) (m_cur ba)) (\<lambda>blk.
        bindR (buffers_loop (m_nodes ba) (m_cur ba) npos (size_sub (length blk) npos) len buffers)
          (\<lambda>buffers. Inr (len, buffers))))"

text \<open>The walk of \<open>count\<close> steps from \<open>m_root\<close>.\<close>

fun node_walk :: "'a list list \<Rightarrow> nat \<Rightarrow> nat option \<Rightarrow> (nat option) res" where
  "node_walk nodes 0 cur = Inr cur"
| "node_walk nodes (Suc count) None = Inl NullDeref"
| "node_walk nodes (Suc count) (Some c) = node_walk nodes count (node_next nodes c)"

text \<open>\<open>getReadBuffers(buffers, len, position)\<close>: \<open>len\<close> is cut to the bytes that are left after
  \<open>m_position\<close>, not after \<open>position\<close>.\<close>

definition getReadBuffers_at ::
  "iovec list \<Rightarrow> nat \<Rightarrow> nat \<Rightarrow> bytearray \<Rightarrow> (nat \<times> iovec list) res" where
  "getReadBuffers_at buffers len position ba =
     (let len = (if len > getReadSize ba then getReadSize ba else len) in
      if len = 0 then Inr (0, buffers)
      else if m_baseSize ba = 0 then Inl DivZero
      else let npos = position mod m_baseSize ba in
        bindR (node_walk (m_nodes ba) (position div m_baseSize ba) (Some 0)) (\<lambda>cur.
        bindR (node_at (m_nodes ba) cur) (\<lambda>blk.
        bindR (buffers_loop (m_nodes ba) cur npos (size_sub (length blk) npos) len buffers)
          (\<lambda>buffers. Inr (len, buffers)))))"

definition getWriteBuffers ::
  "iovec list \<Rightarrow> nat \<Rightarrow> bytearray \<Rightarrow> (nat \<times> iovec list \<times> bytearray) res" where
  "getWriteBuffers buffers len ba =
     (if len = 0 then Inr (0, buffers, ba)
      else bindR (addCapacity len ba) (\<lambda>ba.
        if m_baseSize ba = 0 then Inl DivZero
        else let npos = m_position ba mod m_baseSize ba in
          bindR (node_at (m_nodes ba) (m_cur ba)) (\<lambda>blk.
          bindR (buffers_loop (m_nodes ba) (m_cur ba) npos (size_sub (length blk) npos) len buffers)
            (\<lambda>buffers. Inr (len, buffers, ba)))))"

subsection \<open>Text and files\<close>

definition ba_toString :: "bytearray \<Rightarrow> u8 list res" where
  "ba_toString ba =
     (if getReadSize ba = 0 then Inr []
      else ba_read_at (getReadSize ba) (m_position ba) ba)"

definition hex_digit :: "nat \<Rightarrow> char" where
  "hex_digit n = ''0123456789abcdef'' ! n"

definition hex_byte :: "u8 \<Rightarrow> string" where
  "hex_byte b = [hex_digit (unat b div 16), hex_digit (unat b mod 16)]"

fun toHexString_loop :: "nat \<Rightarrow> u8 list \<Rightarrow> string" where
  "toHexString_loop i [] = []"
| "toHexString_loop i (b # bs) =
     (if 0 < i \<and> i mod 32 = 0 then [CHR 0x0A] else []) @ hex_byte b @ '' '' @
     toHexString_loop (Suc i) bs"

definition toHexString :: "bytearray \<Rightarrow> string res" where
  "toHexString ba = bindR (ba_toString ba) (\<lambda>str. Inr (toHexString_loop 0 str))"

text \<open>
  The loop of \<open>writeToFile\<close>; \<open>out\<close> is what the stream has received. \<open>ostream::write\<close> with
  a negative count is outside its contract, as is a count past the end of the block.
\<close>

function writeToFile_loop ::
  "nat \<Rightarrow> 'a list list \<Rightarrow> nat option \<Rightarrow> int \<Rightarrow> int \<Rightarrow> 'a list \<Rightarrow> ('a list) res" where
  "writeToFile_loop base nodes cur pos read_size out =
     (if read_size \<le> 0 then Inr out
      else let diff = pos mod int base;
               len = (if read_size > int base then int base else read_size) - diff
           in case cur of
                None \<Rightarrow> Inl NullDeref
              | Some c \<Rightarrow>
                  if length nodes \<le> c then Inl OutOfBounds
                  else if len < 0 \<or> int (length (nodes ! c)) < diff + len then Inl OutOfBounds
                  else writeToFile_loop base nodes (node_next nodes c) (pos + len) (read_size - len)
                         (out @ take (nat len) (drop (nat diff) (nodes ! c))))"
  by pat_completeness auto
termination
  by (relation "measure (\<lambda>(base, nodes, cur, pos, read_size, out).
        case cur of None \<Rightarrow> 0 | Some c \<Rightarrow> length nodes - c)")
     (auto simp: node_next_def)

declare writeToFile_loop.simps [simp del]

text \<open>
  \<open>opened\<close> says whether the stream could be opened; the result is the returned flag and the
  content of the file.
\<close>

definition writeToFile :: "bool \<Rightarrow> bytearray \<Rightarrow> (bool \<times> u8 list) res" where
  "writeToFile opened ba =
     (if \<not> opened then Inr (False, [])
      else if m_baseSize ba = 0 \<and> 0 < getReadSize ba then Inl DivZero
      else bindR (writeToFile_loop (m_baseSize ba) (m_nodes ba) (m_cur ba) (int (m_position ba))
                    (int (getReadSize ba)) [])
        (\<lambda>out. Inr (True, out)))"

text \<open>
  The loop of \<open>readFromFile\<close> on the unread content of the stream. \<open>ifs.read\<close> sets the end
  flag when it gets fewer than \<open>m_baseSize\<close> bytes; with \<open>m_baseSize = 0\<close> it never does.
\<close>

function readFromFile_loop :: "nat \<Rightarrow> u8 list \<Rightarrow> bytearray \<Rightarrow> bytearray res" where
  "readFromFile_loop base content ba =
     (if base = 0 then Inl Diverges
      else case ba_write (take base content) ba of
        Inl e \<Rightarrow> Inl e
      | Inr ba' \<Rightarrow>
          if length content < base then Inr ba'
          else readFromFile_loop base (drop base content) ba')"
  by pat_completeness auto
termination
  by (relation "measure (\<lambda>(base, content, ba). length content)") auto

declare readFromFile_loop.simps [simp del]

definition readFromFile :: "u8 list option \<Rightarrow> bytearray \<Rightarrow> (bool \<times> bytearray) res" where
  "readFromFile file ba =
     (case file of
        None \<Rightarrow> Inr (False, ba)
      | Some content \<Rightarrow>
          bindR (readFromFile_loop (m_baseSize ba) content ba) (\<lambda>ba. Inr (True, ba)))"

subsection \<open>The contract of the buffers\<close>

fun iov_chain :: "nat \<Rightarrow> nat \<Rightarrow> iovec list \<Rightarrow> nat \<Rightarrow> bool" where
  "iov_chain b pos [] n \<longleftrightarrow> n = 0"
| "iov_chain b pos (v # vs) n \<longleftrightarrow>
     b * iov_node v + iov_off v = pos \<and> 0 < iov_len v \<and> iov_off v + iov_len v \<le> b \<and>
     iov_len v \<le> n \<and> iov_chain b (pos + iov_len v) vs (n - iov_len v)"

text \<open>What \<open>writev\<close> takes from the buffers and what \<open>readv\<close> does to the blocks.\<close>

definition gather :: "'a list list \<Rightarrow> iovec list \<Rightarrow> 'a list" where
  "gather nodes vs = concat (map (\<lambda>v. take (iov_len v) (drop (iov_off v) (nodes ! iov_node v))) vs)"

fun scatter :: "'a list list \<Rightarrow> iovec list \<Rightarrow> 'a list \<Rightarrow> 'a list list" where
  "scatter nodes [] data = nodes"
| "scatter nodes (v # vs) data =
     scatter (nodes[iov_node v := blit (nodes ! iov_node v) (iov_off v) (take (iov_len v) data)])
       vs (drop (iov_len v) data)"

lemma buffers_loop_correct:
  assumes "blocks b nodes" "c < length nodes" "npos < b" "0 < n"
    and "b * c + npos + n \<le> b * length nodes"
  shows "\<exists>vs. buffers_loop nodes (Some c) npos (b - npos) n acc = Inr (acc @ vs)
    \<and> iov_chain b (b * c + npos) vs n"
  using assms
proof (induction "length nodes - c" arbitrary: c npos n acc rule: less_induct)
  case less
  let ?v = "\<lambda>l. \<lparr>iov_node = c, iov_off = npos, iov_len = l\<rparr>"
  show ?case
  proof (cases "n \<le> b - npos")
    case True
    then show ?thesis
      using less.prems by (intro exI [of _ "[?v n]"]) (simp add: buffers_loop.simps)
  next
    case False
    have "b * c + b < b * length nodes" using False less.prems(3,5) by linarith
    then have nxt: "node_next nodes c = Some (Suc c)" and Suc: "Suc c < length nodes"
      by (auto simp: node_next_def block_end_less)
    have step: "buffers_loop nodes (Some c) npos (b - npos) n acc
        = buffers_loop nodes (Some (Suc c)) 0 (b - 0) (n - (b - npos)) (acc @ [?v (b - npos)])"
      using less.prems False nxt blocks_nth [OF less.prems(1) Suc]
      by (simp add: buffers_loop.simps [of nodes "Some c"])
    have "b * Suc c + 0 + (n - (b - npos)) \<le> b * length nodes"
      using False less.prems(3,5) by simp
    moreover have "length nodes - Suc c < length nodes - c" using less.prems(2) by simp
    moreover have "b < n + npos" using False by simp
    ultimately obtain vs where
      "buffers_loop nodes (Some (Suc c)) 0 (b - 0) (n - (b - npos)) (acc @ [?v (b - npos)])
         = Inr ((acc @ [?v (b - npos)]) @ vs)"
      "iov_chain b (b * Suc c + 0) vs (n - (b - npos))"
      using less.hyps [of "Suc c" 0 "n - (b - npos)" "acc @ [?v (b - npos)]"] less.prems(1,3) Suc False
      by auto
    then show ?thesis
      using step False less.prems(3)
      by (intro exI [of _ "?v (b - npos) # vs"]) (simp add: ac_simps)
  qed
qed

lemma iov_chain_step:
  assumes "iov_chain b pos (v # vs) n" "pos + n \<le> b * m" "0 < b"
  shows "iov_node v < m"
proof -
  have "b * iov_node v < b * m"
    using assms(1,2) unfolding iov_chain.simps by linarith
  then show ?thesis by simp
qed

lemma gather_chain:
  assumes "iov_chain b pos vs n" "blocks b nodes" "pos + n \<le> b * length nodes"
  shows "gather nodes vs = take n (drop pos (concat nodes))"
  using assms
proof (induction vs arbitrary: pos n)
  case Nil
  then show ?case by (simp add: gather_def)
next
  case (Cons v vs)
  let ?l = "iov_len v"
  have b: "0 < b" using Cons.prems(2) by (simp add: blocks_def)
  have c: "iov_node v < length nodes"
    using iov_chain_step [OF Cons.prems(1,3) b] .
  have pos: "pos = b * iov_node v + iov_off v" and le: "iov_off v + ?l \<le> b" "?l \<le> n"
    using Cons.prems(1) by auto
  have "take ?l (drop pos (concat nodes)) = take ?l (drop (iov_off v) (nodes ! iov_node v))"
    using blocks_drop_nth [OF Cons.prems(2) c, of "iov_off v"] le blocks_nth [OF Cons.prems(2) c]
    by (simp add: pos)
  moreover have "gather nodes vs = take (n - ?l) (drop (pos + ?l) (concat nodes))"
    using Cons by simp
  moreover have "take n xs = take ?l xs @ take (n - ?l) (drop ?l xs)" for xs :: "'a list"
    using le(2) take_add [of ?l "n - ?l" xs] by simp
  ultimately show ?case by (simp add: gather_def add.commute)
qed

lemma scatter_chain:
  assumes "iov_chain b pos vs (length data)" "blocks b nodes" "pos + length data \<le> b * length nodes"
  shows "blocks b (scatter nodes vs data) \<and> length (scatter nodes vs data) = length nodes
    \<and> concat (scatter nodes vs data) = blit (concat nodes) pos data"
  using assms
proof (induction vs arbitrary: pos data nodes)
  case Nil
  then show ?case by simp
next
  case (Cons v vs)
  let ?l = "iov_len v" and ?c = "iov_node v" and ?o = "iov_off v"
  let ?nodes = "nodes[?c := blit (nodes ! ?c) ?o (take ?l data)]"
  have b: "0 < b" using Cons.prems(2) by (simp add: blocks_def)
  have c: "?c < length nodes" using iov_chain_step [OF Cons.prems(1,3) b] .
  have pos: "pos = b * ?c + ?o" and le: "?o + ?l \<le> b" "?l \<le> length data"
    using Cons.prems(1) by auto
  have cat: "concat ?nodes = blit (concat nodes) pos (take ?l data)"
    unfolding pos by (rule blocks_blit_within [OF Cons.prems(2) c]) (use le in simp)
  have bl: "blocks b ?nodes"
    using Cons.prems(2) le blocks_nth [OF Cons.prems(2) c] by (intro blocks_update) auto
  have "pos \<le> length (concat nodes)"
    using Cons.prems(3) by (simp add: blocks_length_concat [OF Cons.prems(2)])
  then have "blit (concat ?nodes) (pos + ?l) (drop ?l data) = blit (concat nodes) pos data"
    using blit_blit [of pos "concat nodes" "take ?l data" "drop ?l data"] le(2)
    by (simp add: cat min_absorb2)
  then show ?case
    using Cons.IH [of "pos + ?l" "drop ?l data" ?nodes] Cons.prems(1,3) bl le(2) by simp
qed

subsection \<open>The operations on the flat array\<close>

lemma getReadBuffers_chain:
  assumes inv: "ba_inv ba"
  shows "\<exists>vs. getReadBuffers buffers len ba = Inr (min len (length (rest ba)), buffers @ vs)
    \<and> iov_chain (m_baseSize ba) (m_position ba) vs (min len (length (rest ba)))"
proof (cases "min len (length (rest ba)) = 0")
  case True
  then show ?thesis
    by (intro exI [of _ "[]"])
      (auto simp: getReadBuffers_def getReadSize_rest [OF inv] Let_def min_def split: if_splits)
next
  case False
  let ?b = "m_baseSize ba" and ?npos = "m_position ba mod m_baseSize ba"
  let ?n = "min len (length (rest ba))"
  have bl: "blocks ?b (m_nodes ba)" and cap: "m_capacity ba = ?b * length (m_nodes ba)"
    and pos: "m_position ba + ?n \<le> m_capacity ba"
    using inv length_rest [OF inv] by (auto simp: ba_inv_def)
  have "m_cur ba \<noteq> None"
    using inv False length_rest [OF inv] by (auto simp: ba_inv_def cur_at_def)
  then obtain c where c: "m_cur ba = Some c" by auto
  note split = inv_position_split [OF inv c]
  obtain vs where "buffers_loop (m_nodes ba) (Some c) ?npos (?b - ?npos) ?n buffers = Inr (buffers @ vs)"
    "iov_chain ?b (m_position ba) vs ?n"
    using buffers_loop_correct [OF bl split(1,3), of ?n buffers] False split(2) pos cap by auto
  then show ?thesis
    using False c split(1,3) ba_inv_base_pos [OF inv]
    by (auto simp: getReadBuffers_def getReadSize_rest [OF inv] blocks_nth [OF bl] Let_def min_def
        split: if_splits)
qed

lemma getWriteBuffers_chain:
  assumes inv: "ba_inv ba" and n: "0 < n"
  shows "\<exists>vs ba'. getWriteBuffers buffers n ba = Inr (n, buffers @ vs, ba')
    \<and> iov_chain (m_baseSize ba) (m_position ba) vs n
    \<and> ba_inv ba' \<and> m_position ba + n \<le> m_capacity ba' \<and> m_baseSize ba' = m_baseSize ba
    \<and> m_endian ba' = m_endian ba \<and> m_position ba' = m_position ba
    \<and> m_size ba' = m_size ba \<and> bytes ba' = bytes ba"
proof -
  obtain ba1 where add: "addCapacity n ba = Inr ba1" and inv1: "ba_inv ba1"
    and room: "m_position ba + n \<le> m_capacity ba1"
    and same: "m_baseSize ba1 = m_baseSize ba" "m_endian ba1 = m_endian ba"
      "m_position ba1 = m_position ba" "m_size ba1 = m_size ba" "bytes ba1 = bytes ba"
    and cur: "m_cur ba1 \<noteq> None"
    using addCapacity_correct [OF inv n] by blast
  obtain c where c: "m_cur ba1 = Some c" using cur by auto
  let ?b = "m_baseSize ba1" and ?npos = "m_position ba1 mod m_baseSize ba1"
  note split = inv_position_split [OF inv1 c]
  have bl: "blocks ?b (m_nodes ba1)" and cap: "m_capacity ba1 = ?b * length (m_nodes ba1)"
    using inv1 by (auto simp: ba_inv_def)
  obtain vs where "buffers_loop (m_nodes ba1) (Some c) ?npos (?b - ?npos) n buffers = Inr (buffers @ vs)"
    "iov_chain ?b (m_position ba1) vs n"
    using buffers_loop_correct [OF bl split(1,3) n, of buffers] split(2) room same(3) cap by auto
  then have "getWriteBuffers buffers n ba = Inr (n, buffers @ vs, ba1)"
    "iov_chain (m_baseSize ba) (m_position ba) vs n"
    using n add c split(1,3) ba_inv_base_pos [OF inv1] same
    by (auto simp: getWriteBuffers_def blocks_nth [OF bl])
  then show ?thesis using inv1 room same by blast
qed

text \<open>Filling the write buffers and moving the position behind them is one \<open>write\<close>.\<close>

lemma scatter_written:
  assumes "ba_inv ba" "ba_inv ba1" "m_position ba + length data \<le> m_capacity ba1"
    and "m_baseSize ba1 = m_baseSize ba" "m_endian ba1 = m_endian ba" "m_position ba1 = m_position ba"
    and "m_size ba1 = m_size ba" "bytes ba1 = bytes ba"
    and "iov_chain (m_baseSize ba) (m_position ba) vs (length data)"
  shows "\<exists>ba'. setPosition (m_position ba + length data)
             (ba1\<lparr>m_nodes := scatter (m_nodes ba1) vs data\<rparr>) = Inr ba' \<and> written ba data ba'"
proof -
  let ?b = "m_baseSize ba1" and ?pos = "m_position ba" and ?ba = "ba1\<lparr>m_nodes := scatter (m_nodes ba1) vs data\<rparr>"
  have bl: "blocks ?b (m_nodes ba1)" and cap: "m_capacity ba1 = ?b * length (m_nodes ba1)"
    and pos: "m_position ba1 \<le> m_size ba1" "m_size ba1 \<le> m_capacity ba1"
    using assms(2) by (auto simp: ba_inv_def)
  have sc: "blocks ?b (scatter (m_nodes ba1) vs data)"
    "length (scatter (m_nodes ba1) vs data) = length (m_nodes ba1)"
    "concat (scatter (m_nodes ba1) vs data) = blit (concat (m_nodes ba1)) ?pos data"
    using scatter_chain [OF _ bl, of ?pos vs data] assms(3,4,9) cap by auto
  have inv: "ba_inv ?ba"
    using assms(2) sc(1,2) by (auto simp: ba_inv_def cur_at_def)
  obtain ba' where set: "setPosition (?pos + length data) ?ba = Inr ba'" "ba_inv ba'"
    "m_position ba' = ?pos + length data" "m_nodes ba' = scatter (m_nodes ba1) vs data"
    "m_size ba' = max (m_size ba1) (?pos + length data)" "m_endian ba' = m_endian ba1"
    "m_baseSize ba' = m_baseSize ba1"
    using setPosition_correct [OF inv, of "?pos + length data"] assms(3) by auto
  have "bytes ba' = blit (bytes ba1) ?pos data"
    using take_blit_superset [of ?pos "m_size ba1" "concat (m_nodes ba1)" data]
      pos assms(6) cap blocks_length_concat [OF bl] set(4,5) sc(3)
    by (simp add: bytes_def)
  then show ?thesis using set assms(4,5,8) by (auto simp: written_def)
qed

lemma ba_toString_rest: "ba_inv ba \<Longrightarrow> ba_toString ba = Inr (rest ba)"
  using ba_read_at_position [of ba "length (rest ba)"]
  by (simp add: ba_toString_def getReadSize_rest)

lemma length_toHexString_loop:
  "length (toHexString_loop i bs)
     = 3 * length bs + length (filter (\<lambda>j. 0 < j \<and> j mod 32 = 0) [i..<i + length bs])"
proof (induction bs arbitrary: i)
  case (Cons b bs)
  have "[i..<i + length (b # bs)] = i # [Suc i..<Suc i + length bs]" by (simp add: upt_conv_Cons del: upt_Suc)
  then show ?case using Cons by (simp add: hex_byte_def)
qed simp

lemma writeToFile_loop_aligned:
  assumes "blocks b nodes" "c \<le> length nodes" "b * c + n \<le> b * length nodes"
  shows "writeToFile_loop b nodes (if c < length nodes then Some c else None) (int (b * c)) (int n) out
       = Inr (out @ take n (drop (b * c) (concat nodes)))"
  using assms
proof (induction "length nodes - c" arbitrary: c n out rule: less_induct)
  case less
  have b: "0 < b" using less.prems(1) by (simp add: blocks_def)
  show ?case
  proof (cases "n = 0")
    case True
    then show ?thesis by (simp add: writeToFile_loop.simps)
  next
    case False
    then have c: "c < length nodes" using less.prems(2,3) by (cases "c = length nodes") auto
    have lenc: "length (nodes ! c) = b" using blocks_nth [OF less.prems(1) c] .
    have nx: "concat (drop (Suc c) nodes) = drop (b * Suc c) (concat nodes)"
      using blocks_drop_nth [OF less.prems(1) c, of b] lenc by (simp add: add.commute)
    have slice: "drop (b * c) (concat nodes) = nodes ! c @ drop (b * Suc c) (concat nodes)"
      using blocks_drop_nth [OF less.prems(1) c, of 0] nx by simp
    have nn: "node_next nodes c = (if Suc c < length nodes then Some (Suc c) else None)"
      by (simp add: node_next_def)
    show ?thesis
    proof (cases "n \<le> b")
      case True
      then show ?thesis
        using False c lenc by (simp add: writeToFile_loop.simps [of b] slice Let_def)
    next
      case ge: False
      have "writeToFile_loop b nodes (Some c) (int (b * c)) (int n) out
          = writeToFile_loop b nodes (node_next nodes c) (int (b * Suc c)) (int (n - b)) (out @ nodes ! c)"
        using False c ge lenc
        by (simp add: writeToFile_loop.simps [of b nodes "Some c"] Let_def of_nat_diff algebra_simps)
      also have "\<dots> = Inr ((out @ nodes ! c) @ take (n - b) (drop (b * Suc c) (concat nodes)))"
        unfolding nn using less.prems(1,3) c ge
        by (intro less.hyps) (auto simp: algebra_simps)
      finally show ?thesis using c ge lenc by (simp add: slice)
    qed
  qed
qed

lemma writeToFile_loop_first:
  assumes "blocks b nodes" "q < length nodes" "r < b" "b \<le> n"
  shows "writeToFile_loop b nodes (Some q) (int (b * q + r)) (int n) out
    = writeToFile_loop b nodes (node_next nodes q) (int (b * Suc q)) (int (n - (b - r)))
        (out @ drop r (nodes ! q))"
proof -
  have len: "length (nodes ! q) = b" using blocks_nth [OF assms(1,2)] .
  have "(b * q + r) mod b = r" using assms(3) by simp
  then have e: "int (b * q + r) mod int b = int r" by (metis zmod_int)
  have w: "(if int n > int b then int b else int n) - int r = int (b - r)"
    using assms(3,4) by (auto simp: of_nat_diff)
  have p: "int (b * q + r) + int (b - r) = int (b * Suc q)" using assms(3) by simp
  have s: "int n - int (b - r) = int (n - (b - r))" using assms(3,4) by simp
  have g: "\<not> int n \<le> 0" "\<not> (int (b - r) < 0 \<or> int (length (nodes ! q)) < int r + int (b - r))"
    "\<not> length nodes \<le> q"
    using assms(2-4) len by auto
  have t: "take (nat (int (b - r))) (drop (nat (int r)) (nodes ! q)) = drop r (nodes ! q)"
    using len by simp
  show ?thesis
    by (subst writeToFile_loop.simps) (simp only: Let_def e w p s g t option.case if_False)
qed

lemma writeToFile_rest:
  assumes inv: "ba_inv ba"
    and pos: "m_position ba mod m_baseSize ba = 0 \<or> m_baseSize ba \<le> length (rest ba)"
  shows "writeToFile True ba = Inr (True, rest ba)"
proof -
  let ?b = "m_baseSize ba" and ?r = "m_position ba mod m_baseSize ba"
  let ?q = "m_position ba div m_baseSize ba" and ?n = "length (rest ba)"
  have bl: "blocks ?b (m_nodes ba)" and b: "0 < ?b"
    and le: "m_position ba + ?n \<le> ?b * length (m_nodes ba)"
    and cur: "m_cur ba = cur_at ?b (m_nodes ba) (m_position ba)"
    using inv length_rest [OF inv] by (auto simp: ba_inv_def blocks_def)
  have rest: "rest ba = take ?n (drop (m_position ba) (concat (m_nodes ba)))"
    using length_rest [OF inv] by (simp add: rest_def bytes_def drop_take)
  have split: "m_position ba = ?b * ?q + ?r" by simp
  have "writeToFile_loop ?b (m_nodes ba) (m_cur ba) (int (m_position ba)) (int ?n) [] = Inr (rest ba)"
  proof (cases "?r = 0")
    case True
    then have p: "m_position ba = ?b * ?q" using split by simp
    then have "?q \<le> length (m_nodes ba)" using le b by (metis add_leD1 mult_le_cancel1)
    moreover have "m_cur ba = (if ?q < length (m_nodes ba) then Some ?q else None)"
      using cur p b by (auto simp: cur_at_def) (metis mult_less_cancel1)+
    ultimately show ?thesis
      using writeToFile_loop_aligned [OF bl, of ?q ?n "[]"] le p rest by simp
  next
    case False
    then have n: "?b \<le> ?n" using pos by simp
    then have "m_position ba < ?b * length (m_nodes ba)" using le b by linarith
    then have c: "m_cur ba = Some ?q" and q: "?q < length (m_nodes ba)"
      using cur b by (auto simp: cur_at_def less_mult_imp_div_less mult.commute)
    have lenc: "length (m_nodes ba ! ?q) = ?b" using blocks_nth [OF bl q] .
    have r: "?r < ?b" using b by simp
    have "writeToFile_loop ?b (m_nodes ba) (Some ?q) (int (m_position ba)) (int ?n) []
        = writeToFile_loop ?b (m_nodes ba) (node_next (m_nodes ba) ?q) (int (?b * Suc ?q))
            (int (?n - (?b - ?r))) (drop ?r (m_nodes ba ! ?q))"
      using writeToFile_loop_first [OF bl q r n, of "[]"] split by simp
    also have "\<dots> = Inr (drop ?r (m_nodes ba ! ?q)
        @ take (?n - (?b - ?r)) (drop (?b * Suc ?q) (concat (m_nodes ba))))"
      unfolding node_next_def
    proof (rule writeToFile_loop_aligned [OF bl])
      show "?b * Suc ?q + (?n - (?b - ?r)) \<le> ?b * length (m_nodes ba)"
        using le split n r by (simp add: algebra_simps)
    qed (use q in simp)
    also have "\<dots> = Inr (rest ba)"
    proof -
      have "concat (drop (Suc ?q) (m_nodes ba)) = drop (?b * Suc ?q) (concat (m_nodes ba))"
        using blocks_drop_nth [OF bl q, of ?b] lenc by (simp add: add.commute)
      then have "drop (m_position ba) (concat (m_nodes ba))
          = drop ?r (m_nodes ba ! ?q) @ drop (?b * Suc ?q) (concat (m_nodes ba))"
        using blocks_drop_nth [OF bl q, of ?r] r split by simp
      then show ?thesis using rest n r lenc by simp
    qed
    finally show ?thesis using c by simp
  qed
  then show ?thesis
    using b by (simp add: writeToFile_def getReadSize_rest [OF inv])
qed

lemma readFromFile_loop_correct:
  assumes "ba_inv ba" "base = m_baseSize ba"
  shows "\<exists>ba'. readFromFile_loop base content ba = Inr ba' \<and> written ba content ba'"
  using assms
proof (induction base content ba rule: readFromFile_loop.induct)
  case (1 base content ba)
  have b: "base \<noteq> 0" using ba_inv_base_pos "1.prems" by auto
  obtain ba1 where w: "ba_write (take base content) ba = Inr ba1" "written ba (take base content) ba1"
    using ba_write_correct [OF "1.prems"(1)] by blast
  show ?case
  proof (cases "length content < base")
    case True
    then show ?thesis using w b by (simp add: readFromFile_loop.simps [of base])
  next
    case False
    then obtain ba2 where ba2: "readFromFile_loop base (drop base content) ba1 = Inr ba2"
      "written ba1 (drop base content) ba2"
      using "1.IH" [OF b w(1) False] w(2) "1.prems"(2) by (auto simp: written_def)
    then have "written ba content ba2"
      using written_trans [OF "1.prems"(1) w(2) ba2(2)] by simp
    then show ?thesis using w(1) b False ba2(1) by (simp add: readFromFile_loop.simps [of base])
  qed
qed

end
