(* ===== verification/ByteArray_Seq.thy ===== *)
theory ByteArray_Seq
  imports ByteArray_Buffers
begin

text \<open>
  Clients of \<open>ByteArray\<close>: sequences of typed writes and reads over all eighteen
  write/read pairs of the class, and the states a byte array can reach through its
  operations. The properties of the component stand at the end.
\<close>

subsection \<open>Typed values\<close>

text \<open>One constructor for each pair of a write and a read operation.\<close>

datatype ba_value =
    V_Fint8 u8
  | V_Fuint8 u8
  | V_Fint16 u16
  | V_Fuint16 u16
  | V_Fint32 u32
  | V_Fuint32 u32
  | V_Fint64 u64
  | V_Fuint64 u64
  | V_Int32 u32
  | V_Uint32 u32
  | V_Int64 u64
  | V_Uint64 u64
  | V_Float u32
  | V_Double u64
  | V_StringF16 "u8 list"
  | V_StringF32 "u8 list"
  | V_StringF64 "u8 list"
  | V_StringVint "u8 list"

datatype ba_kind =
    K_Fint8
  | K_Fuint8
  | K_Fint16
  | K_Fuint16
  | K_Fint32
  | K_Fuint32
  | K_Fint64
  | K_Fuint64
  | K_Int32
  | K_Uint32
  | K_Int64
  | K_Uint64
  | K_Float
  | K_Double
  | K_StringF16
  | K_StringF32
  | K_StringF64
  | K_StringVint

fun kind_of :: "ba_value \<Rightarrow> ba_kind" where
  "kind_of (V_Fint8 x) = K_Fint8"
| "kind_of (V_Fuint8 x) = K_Fuint8"
| "kind_of (V_Fint16 x) = K_Fint16"
| "kind_of (V_Fuint16 x) = K_Fuint16"
| "kind_of (V_Fint32 x) = K_Fint32"
| "kind_of (V_Fuint32 x) = K_Fuint32"
| "kind_of (V_Fint64 x) = K_Fint64"
| "kind_of (V_Fuint64 x) = K_Fuint64"
| "kind_of (V_Int32 x) = K_Int32"
| "kind_of (V_Uint32 x) = K_Uint32"
| "kind_of (V_Int64 x) = K_Int64"
| "kind_of (V_Uint64 x) = K_Uint64"
| "kind_of (V_Float x) = K_Float"
| "kind_of (V_Double x) = K_Double"
| "kind_of (V_StringF16 x) = K_StringF16"
| "kind_of (V_StringF32 x) = K_StringF32"
| "kind_of (V_StringF64 x) = K_StringF64"
| "kind_of (V_StringVint x) = K_StringVint"

fun write_value :: "ba_value \<Rightarrow> bytearray \<Rightarrow> bytearray res" where
  "write_value (V_Fint8 x) ba = writeFint8 x ba"
| "write_value (V_Fuint8 x) ba = writeFuint8 x ba"
| "write_value (V_Fint16 x) ba = writeFint16 x ba"
| "write_value (V_Fuint16 x) ba = writeFuint16 x ba"
| "write_value (V_Fint32 x) ba = writeFint32 x ba"
| "write_value (V_Fuint32 x) ba = writeFuint32 x ba"
| "write_value (V_Fint64 x) ba = writeFint64 x ba"
| "write_value (V_Fuint64 x) ba = writeFuint64 x ba"
| "write_value (V_Int32 x) ba = writeInt32 x ba"
| "write_value (V_Uint32 x) ba = writeUint32 x ba"
| "write_value (V_Int64 x) ba = writeInt64 x ba"
| "write_value (V_Uint64 x) ba = writeUint64 x ba"
| "write_value (V_Float x) ba = writeFloat x ba"
| "write_value (V_Double x) ba = writeDouble x ba"
| "write_value (V_StringF16 x) ba = writeStringF16 x ba"
| "write_value (V_StringF32 x) ba = writeStringF32 x ba"
| "write_value (V_StringF64 x) ba = writeStringF64 x ba"
| "write_value (V_StringVint x) ba = writeStringVint x ba"

definition as_value :: "('a \<Rightarrow> ba_value) \<Rightarrow> ('a \<times> bytearray) res \<Rightarrow> (ba_value \<times> bytearray) res" where
  "as_value con r = bindR r (\<lambda>(x, ba). Inr (con x, ba))"

fun read_value :: "ba_kind \<Rightarrow> bytearray \<Rightarrow> (ba_value \<times> bytearray) res" where
  "read_value K_Fint8 ba = as_value V_Fint8 (readFint8 ba)"
| "read_value K_Fuint8 ba = as_value V_Fuint8 (readFuint8 ba)"
| "read_value K_Fint16 ba = as_value V_Fint16 (readFint16 ba)"
| "read_value K_Fuint16 ba = as_value V_Fuint16 (readFuint16 ba)"
| "read_value K_Fint32 ba = as_value V_Fint32 (readFint32 ba)"
| "read_value K_Fuint32 ba = as_value V_Fuint32 (readFuint32 ba)"
| "read_value K_Fint64 ba = as_value V_Fint64 (readFint64 ba)"
| "read_value K_Fuint64 ba = as_value V_Fuint64 (readFuint64 ba)"
| "read_value K_Int32 ba = as_value V_Int32 (readInt32 ba)"
| "read_value K_Uint32 ba = as_value V_Uint32 (readUint32 ba)"
| "read_value K_Int64 ba = as_value V_Int64 (readInt64 ba)"
| "read_value K_Uint64 ba = as_value V_Uint64 (readUint64 ba)"
| "read_value K_Float ba = as_value V_Float (readFloat ba)"
| "read_value K_Double ba = as_value V_Double (readDouble ba)"
| "read_value K_StringF16 ba = as_value V_StringF16 (readStringF16 ba)"
| "read_value K_StringF32 ba = as_value V_StringF32 (readStringF32 ba)"
| "read_value K_StringF64 ba = as_value V_StringF64 (readStringF64 ba)"
| "read_value K_StringVint ba = as_value V_StringVint (readStringVint ba)"

text \<open>The bytes of a value, and the values a reader gets back.\<close>

fun enc_value :: "nat \<Rightarrow> ba_value \<Rightarrow> u8 list" where
  "enc_value e (V_Fint8 x) = [x]"
| "enc_value e (V_Fuint8 x) = [x]"
| "enc_value e (V_Fint16 x) = enc_fixed 2 e x"
| "enc_value e (V_Fuint16 x) = enc_fixed 2 e x"
| "enc_value e (V_Fint32 x) = enc_fixed 4 e x"
| "enc_value e (V_Fuint32 x) = enc_fixed 4 e x"
| "enc_value e (V_Fint64 x) = enc_fixed 8 e x"
| "enc_value e (V_Fuint64 x) = enc_fixed 8 e x"
| "enc_value e (V_Int32 x) = varint32_tmp (EncodeZigzag32 x)"
| "enc_value e (V_Uint32 x) = varint32_tmp x"
| "enc_value e (V_Int64 x) = varint64_tmp (EncodeZigzag64 x)"
| "enc_value e (V_Uint64 x) = varint64_tmp x"
| "enc_value e (V_Float x) = enc_fixed 4 e x"
| "enc_value e (V_Double x) = enc_fixed 8 e x"
| "enc_value e (V_StringF16 x) = enc_str16 e x"
| "enc_value e (V_StringF32 x) = enc_str32 e x"
| "enc_value e (V_StringF64 x) = enc_str64 e x"
| "enc_value e (V_StringVint x) = enc_strv x"

fun value_ok :: "ba_value \<Rightarrow> bool" where
  "value_ok (V_StringF16 x) \<longleftrightarrow> str_ok 16 x"
| "value_ok (V_StringF32 x) \<longleftrightarrow> str_ok 32 x"
| "value_ok (V_StringF64 x) \<longleftrightarrow> str_ok 64 x"
| "value_ok (V_StringVint x) \<longleftrightarrow> str_ok 64 x"
| "value_ok _ \<longleftrightarrow> True"

fun write_values :: "ba_value list \<Rightarrow> bytearray \<Rightarrow> bytearray res" where
  "write_values [] ba = Inr ba"
| "write_values (v # vs) ba = bindR (write_value v ba) (write_values vs)"

fun read_values :: "ba_kind list \<Rightarrow> bytearray \<Rightarrow> (ba_value list \<times> bytearray) res" where
  "read_values [] ba = Inr ([], ba)"
| "read_values (k # ks) ba = bindR (read_value k ba) (\<lambda>(v, ba).
     bindR (read_values ks ba) (\<lambda>(vs, ba). Inr (v # vs, ba)))"

lemmas wr_laws = c8s.wr_law c8.wr_law c16s.wr_law c16.wr_law c32s.wr_law c32.wr_law c64s.wr_law c64.wr_law z32.wr_law v32.wr_law z64.wr_law v64.wr_law cflt.wr_law cdbl.wr_law s16.wr_law s32.wr_law s64.wr_law sv.wr_law
lemmas rd_laws = c8s.rd_law c8.rd_law c16s.rd_law c16.rd_law c32s.rd_law c32.rd_law c64s.rd_law c64.rd_law z32.rd_law v32.rd_law z64.rd_law v64.rd_law cflt.rd_law cdbl.rd_law s16.rd_law s32.rd_law s64.rd_law sv.rd_law

lemma write_value_correct:
  "ba_inv ba \<Longrightarrow> \<exists>ba'. write_value v ba = Inr ba' \<and> written ba (enc_value (m_endian ba) v) ba'"
  by (cases v) (simp_all only: write_value.simps enc_value.simps wr_laws)

lemma read_value_correct:
  "ba_inv ba \<Longrightarrow> value_ok v \<Longrightarrow> rest ba = enc_value (m_endian ba) v @ ys \<Longrightarrow>
     read_value (kind_of v) ba = Inr (v, advanced ba (length (enc_value (m_endian ba) v)))"
  by (cases v) (simp_all add: as_value_def rd_laws del: One_nat_def)

lemma write_values_correct:
  "ba_inv ba \<Longrightarrow> \<exists>ba'. write_values vs ba = Inr ba'
     \<and> written ba (concat (map (enc_value (m_endian ba)) vs)) ba'"
proof (induction vs arbitrary: ba)
  case Nil
  then show ?case by (simp add: written_Nil)
next
  case (Cons v vs)
  obtain ba1 where w1: "write_value v ba = Inr ba1" "written ba (enc_value (m_endian ba) v) ba1"
    using write_value_correct [OF Cons.prems] by blast
  then obtain ba2 where w2: "write_values vs ba1 = Inr ba2"
    "written ba1 (concat (map (enc_value (m_endian ba)) vs)) ba2"
    using Cons.IH [of ba1] by (auto simp: written_def)
  then show ?case using w1 written_trans [OF Cons.prems w1(2) w2(2)] by simp
qed

lemma read_values_correct:
  assumes "ba_inv ba" "\<forall>v\<in>set vs. value_ok v"
    and "rest ba = concat (map (enc_value (m_endian ba)) vs) @ ys"
  shows "read_values (map kind_of vs) ba
     = Inr (vs, advanced ba (length (concat (map (enc_value (m_endian ba)) vs))))"
  using assms
proof (induction vs arbitrary: ba)
  case Nil
  then show ?case by (simp add: ba_inv_def advanced_def)
next
  case (Cons v vs)
  let ?e = "enc_value (m_endian ba)"
  have rd: "read_value (kind_of v) ba = Inr (v, advanced ba (length (?e v)))"
    using Cons.prems by (intro read_value_correct) auto
  have "ba_inv (advanced ba (length (?e v)))"
    using Cons.prems by (intro ba_inv_advanced) auto
  moreover have "rest (advanced ba (length (?e v))) = concat (map ?e vs) @ ys"
    using Cons.prems(3) by (simp add: rest_advanced)
  ultimately show ?case
    using Cons.IH [of "advanced ba (length (?e v))"] Cons.prems(2) rd by simp
qed

subsection \<open>Reads of arbitrary content\<close>

lemma ba_read_cases:
  assumes "ba_inv ba"
  shows "ba_read n ba =
    (if length (rest ba) < n then Inl OutOfRange
     else if n = 0 \<and> m_position ba = m_capacity ba then Inl NullDeref
     else Inr (take n (rest ba), advanced ba n))"
proof -
  have cur: "m_cur ba = None \<longleftrightarrow> m_position ba = m_capacity ba"
    using assms by (auto simp: ba_inv_def cur_at_def)
  consider "length (rest ba) < n" | "n \<le> length (rest ba)" "n = 0" "m_position ba = m_capacity ba"
    | "n \<le> length (rest ba)" "0 < n \<or> m_cur ba \<noteq> None"
    using cur by fastforce
  then show ?thesis
  proof cases
    case 1
    then show ?thesis by (simp add: ba_read_def getReadSize_rest [OF assms])
  next
    case 2
    then show ?thesis using cur ba_inv_base_pos [OF assms] by (simp add: ba_read_def)
  next
    case 3
    then show ?thesis using ba_read_correct [OF assms 3] cur by auto
  qed
qed

text \<open>A read that succeeds, of whatever type, only moves the position inside the content.\<close>

definition moved :: "bytearray \<Rightarrow> bytearray \<Rightarrow> bool" where
  "moved ba ba' \<longleftrightarrow> (\<exists>n \<le> length (rest ba). ba' = advanced ba n)"

lemma moved_inv: "ba_inv ba \<Longrightarrow> moved ba ba' \<Longrightarrow> ba_inv ba'"
  by (auto simp: moved_def ba_inv_advanced)

lemma moved_trans: "ba_inv ba \<Longrightarrow> moved ba ba1 \<Longrightarrow> moved ba1 ba2 \<Longrightarrow> moved ba ba2"
  unfolding moved_def by (auto simp: rest_advanced) (metis add.commute le_diff_conv2)

lemma moved_refl: "ba_inv ba \<Longrightarrow> moved ba ba"
  unfolding moved_def by (rule exI [of _ 0]) (simp add: advanced_def ba_inv_def)

lemma ba_read_moved: "ba_inv ba \<Longrightarrow> ba_read n ba = Inr (bs, ba') \<Longrightarrow> moved ba ba'"
  by (auto simp: ba_read_cases moved_def not_less split: if_splits)

lemma readFuint8_moved: "ba_inv ba \<Longrightarrow> readFuint8 ba = Inr (v, ba') \<Longrightarrow> moved ba ba'"
  by (auto simp: readFuint8_def res_simps dest: ba_read_moved)

lemma read_XX_moved: "ba_inv ba \<Longrightarrow> read_XX n ba = Inr (v, ba') \<Longrightarrow> moved ba ba'"
  by (auto simp: read_XX_def res_simps Let_def dest: ba_read_moved split: if_splits)

lemma readUint_loop_moved:
  "ba_inv ba \<Longrightarrow> readUint_loop i r ba = Inr (v, ba') \<Longrightarrow> moved ba ba'"
proof (induction i r ba rule: readUint_loop.induct)
  case (1 i r ba)
  show ?case
  proof (cases "i < LENGTH('a)")
    case False
    then show ?thesis using "1.prems" by (simp add: readUint_loop.simps [of i] moved_refl)
  next
    case True
    obtain b ba1 where rd: "readFuint8 ba = Inr (b, ba1)"
      using "1.prems"(2) True by (auto simp: readUint_loop.simps [of i] split: sum.splits)
    have m: "moved ba ba1" using readFuint8_moved [OF "1.prems"(1) rd] .
    then show ?thesis
      using "1.IH" [OF True rd] "1.prems" True rd moved_inv [OF "1.prems"(1) m]
        moved_trans [OF "1.prems"(1) m]
      by (auto simp: readUint_loop.simps [of i] split: if_splits)
  qed
qed

lemmas fixed_read_defs = readFint16_def readFuint16_def readFint32_def readFuint32_def
  readFint64_def readFuint64_def readFloat_def readDouble_def
lemmas vint_read_defs = readUint32_def readUint64_def readInt32_def readInt64_def
lemmas string_read_defs = readStringF16_def readStringF32_def readStringF64_def readStringVint_def

lemma read_value_moved:
  assumes "ba_inv ba" "read_value k ba = Inr (v, ba')"
  shows "moved ba ba'"
proof -
  have str: "moved ba ba'" if "moved ba ba1" "ba_read n ba1 = Inr (s, ba')" for ba1 n s
    using assms(1) that ba_read_moved moved_inv moved_trans by blast
  show ?thesis
    using assms
    by (cases k)
      (auto simp: as_value_def readFint8_def fixed_read_defs vint_read_defs string_read_defs res_simps
        dest: readFuint8_moved read_XX_moved readUint_loop_moved ba_read_moved
        intro: str [rotated])
qed

subsection \<open>Reachable states\<close>

text \<open>One call of a mutating operation that returns normally.\<close>

inductive ba_step :: "bytearray \<Rightarrow> bytearray \<Rightarrow> bool" where
  step_write: "ba_write buf ba = Inr ba' \<Longrightarrow> ba_step ba ba'"
| step_read: "ba_read n ba = Inr (bs, ba') \<Longrightarrow> ba_step ba ba'"
| step_write_value: "write_value v ba = Inr ba' \<Longrightarrow> ba_step ba ba'"
| step_read_value: "read_value k ba = Inr (v, ba') \<Longrightarrow> ba_step ba ba'"
| step_setPosition: "setPosition p ba = Inr ba' \<Longrightarrow> ba_step ba ba'"
| step_clear: "ba_step ba (clear ba)"
| step_endian: "ba_step ba (setIsLittleEndian b ba)"
| step_getWriteBuffers: "getWriteBuffers vs n ba = Inr (m, vs', ba') \<Longrightarrow> ba_step ba ba'"
| step_readFromFile: "readFromFile file ba = Inr (ok, ba') \<Longrightarrow> ba_step ba ba'"

inductive_cases ba_stepE: "ba_step ba ba'"

inductive ba_reach :: "nat \<Rightarrow> bytearray \<Rightarrow> bool" where
  reach_new: "ba_reach base (new_ByteArray base)"
| reach_step: "ba_reach base ba \<Longrightarrow> ba_step ba ba' \<Longrightarrow> ba_reach base ba'"

lemma ba_step_inv:
  assumes "ba_step ba ba'" "ba_inv ba"
  shows "ba_inv ba'"
  using assms(1)
proof cases
  case (step_write buf)
  then show ?thesis using ba_write_correct [OF assms(2), of buf] by (auto simp: written_def)
next
  case (step_read n bs)
  then show ?thesis using ba_read_moved moved_inv assms(2) by blast
next
  case (step_write_value v)
  then show ?thesis using write_value_correct [OF assms(2), of v] by (auto simp: written_def)
next
  case (step_read_value k v)
  then show ?thesis using read_value_moved moved_inv assms(2) by blast
next
  case (step_setPosition p)
  then have "p \<le> m_capacity ba" by (auto simp: setPosition_def split: if_splits)
  then show ?thesis using setPosition_correct [OF assms(2), of p] step_setPosition by auto
next
  case step_clear
  then show ?thesis using assms(2) by (simp add: ba_inv_clear)
next
  case (step_endian b)
  then show ?thesis using assms(2) by simp
next
  case (step_getWriteBuffers vs n m vs')
  then show ?thesis
    using getWriteBuffers_chain [OF assms(2), of n vs] assms(2)
    by (cases "n = 0") (auto simp: getWriteBuffers_def)
next
  case (step_readFromFile f ok)
  then show ?thesis
    using readFromFile_loop_correct [OF assms(2) refl, of "the f"] assms(2)
    by (cases f) (auto simp: readFromFile_def written_def res_simps)
qed

subsection \<open>Properties\<close>

text \<open>
  C3. \<open>ByteArray::write\<close> implements a write to one flat array: in every well-formed state it
  succeeds, for any buffer, grows the chain of blocks as needed, and afterwards the content
  is the old content with the buffer laid over it at the old position (extending it where
  the buffer reaches further), the position is behind the buffer, the byte order and block
  size are unchanged and the state is well-formed again.
\<close>

theorem write_refines_flat_array:
  assumes "ba_inv ba"
  shows "\<exists>ba'. ba_write buf ba = Inr ba' \<and> ba_inv ba'
    \<and> m_baseSize ba' = m_baseSize ba \<and> m_endian ba' = m_endian ba
    \<and> m_position ba' = m_position ba + length buf
    \<and> bytes ba' = take (m_position ba) (bytes ba) @ buf @ drop (m_position ba + length buf) (bytes ba)"
  using ba_write_correct [OF assms, of buf] by (simp add: written_def blit_def)

theorem write_refines_flat_array_witness:
  "\<exists>ba'. ba_write [1, 2, 3] (new_ByteArray 2) = Inr ba' \<and> ba_inv ba'
    \<and> m_position ba' = 3 \<and> bytes ba' = [1, 2, 3]"
  using write_refines_flat_array [of "new_ByteArray 2" "[1, 2, 3]"]
  by (auto simp: ba_inv_new) (auto simp: new_ByteArray_def bytes_def)

text \<open>
  C4. \<open>ByteArray::read\<close> in every well-formed state: more bytes than are left throw
  \<open>std::out_of_range\<close>; reading no bytes when the position is at the end of the last block
  dereferences the null block pointer; every other read returns exactly the next bytes of
  the content and only moves the position.
\<close>

theorem read_refines_flat_array:
  assumes "ba_inv ba"
  shows "ba_read n ba =
    (if length (rest ba) < n then Inl OutOfRange
     else if n = 0 \<and> m_position ba = m_capacity ba then Inl NullDeref
     else Inr (take n (rest ba), advanced ba n))
    \<and> (n \<le> length (rest ba) \<longrightarrow> ba_inv (advanced ba n))"
  using assms by (simp add: ba_read_cases ba_inv_advanced)

definition sample :: bytearray where
  "sample = \<lparr>m_baseSize = 2, m_position = 1, m_capacity = 4, m_size = 4, m_endian = SYLAR_BIG_ENDIAN,
     m_nodes = [[10, 11], [12, 13]], m_cur = Some 0\<rparr>"

lemma sample_inv: "ba_inv sample"
  by (simp add: sample_def ba_inv_def blocks_def cur_at_def)

theorem read_refines_flat_array_witness:
  "ba_inv sample \<and> ba_read 2 sample = Inr ([11, 12], advanced sample 2)
    \<and> ba_read 4 sample = Inl OutOfRange"
  using read_refines_flat_array [OF sample_inv, of 2] read_refines_flat_array [OF sample_inv, of 4]
    sample_inv
  by (simp add: rest_def bytes_def sample_def)



text \<open>
  C13. Invariant: in every state a byte array with a positive block size can reach through
  its operations, the chain consists of blocks of that size that add up to the capacity,
  position \<open>\<le>\<close> size \<open>\<le>\<close> capacity, and the block pointer is the block of the position (null
  exactly when the position is the capacity).
\<close>

theorem reachable_states_well_formed:
  assumes "ba_reach base ba" "0 < base"
  shows "ba_inv ba"
  using assms by (induction rule: ba_reach.induct) (auto simp: ba_inv_new ba_step_inv)

theorem reachable_states_well_formed_witness:
  "ba_inv (setIsLittleEndian True (clear (new_ByteArray 4)))"
  by (rule reachable_states_well_formed [OF reach_step [OF reach_step [OF reach_new step_clear]
        step_endian], of 4]) simp

text \<open>
  Scatter input: the buffers that \<open>getWriteBuffers\<close> hands out are consecutive, inside
  the blocks and exactly as long as requested, so that filling them (as \<open>readv\<close> does) and
  moving the position behind them has the effect of one \<open>write\<close> of the received bytes.
\<close>

lemma getWriteBuffers_scatter:
  assumes "ba_inv ba" "data \<noteq> []"
  shows "\<exists>vs ba1 ba'. getWriteBuffers buffers (length data) ba = Inr (length data, buffers @ vs, ba1)
    \<and> iov_chain (m_baseSize ba) (m_position ba) vs (length data)
    \<and> setPosition (m_position ba + length data) (ba1\<lparr>m_nodes := scatter (m_nodes ba1) vs data\<rparr>) = Inr ba'
    \<and> written ba data ba'"
proof -
  obtain vs ba1 where "getWriteBuffers buffers (length data) ba = Inr (length data, buffers @ vs, ba1)"
    "iov_chain (m_baseSize ba) (m_position ba) vs (length data)" "ba_inv ba1"
    "m_position ba + length data \<le> m_capacity ba1" "m_baseSize ba1 = m_baseSize ba"
    "m_endian ba1 = m_endian ba" "m_position ba1 = m_position ba" "m_size ba1 = m_size ba"
    "bytes ba1 = bytes ba"
    using getWriteBuffers_chain [OF assms(1), of "length data" buffers] assms(2) by auto
  then show ?thesis using scatter_written [OF assms(1)] by blast
qed

lemma getWriteBuffers_scatter_example:
  "\<exists>vs ba1 ba'. getWriteBuffers [] 5 sample = Inr (5, vs, ba1) \<and> iov_chain 2 1 vs 5
    \<and> setPosition 6 (ba1\<lparr>m_nodes := scatter (m_nodes ba1) vs [1, 2, 3, 4, 5]\<rparr>) = Inr ba'
    \<and> written sample [1, 2, 3, 4, 5] ba'"
  using getWriteBuffers_scatter [OF sample_inv, of "[1, 2, 3, 4, 5]" "[]"]
  by (simp add: sample_def eval_nat_numeral)

text \<open>
  Gather output: the buffers of \<open>getReadBuffers\<close> hold, in order, exactly the next
  unread bytes, as many as were asked for or as there are, and the array is not changed.
\<close>

lemma getReadBuffers_gather:
  assumes "ba_inv ba"
  shows "\<exists>vs. getReadBuffers buffers len ba = Inr (min len (length (rest ba)), buffers @ vs)
    \<and> iov_chain (m_baseSize ba) (m_position ba) vs (min len (length (rest ba)))
    \<and> gather (m_nodes ba) vs = take len (rest ba)"
proof -
  let ?n = "min len (length (rest ba))"
  obtain vs where vs: "getReadBuffers buffers len ba = Inr (?n, buffers @ vs)"
    "iov_chain (m_baseSize ba) (m_position ba) vs ?n"
    using getReadBuffers_chain [OF assms] by blast
  have bl: "blocks (m_baseSize ba) (m_nodes ba)" and le: "m_position ba + ?n \<le> m_size ba"
    "m_size ba \<le> m_baseSize ba * length (m_nodes ba)"
    using assms length_rest [OF assms] by (auto simp: ba_inv_def)
  have "gather (m_nodes ba) vs = take ?n (drop (m_position ba) (concat (m_nodes ba)))"
    using gather_chain [OF vs(2) bl] le by simp
  also have "\<dots> = take len (rest ba)"
    using le(1) by (simp add: rest_def bytes_def drop_take min_def)
  finally show ?thesis using vs by blast
qed

lemma getReadBuffers_gather_example:
  "\<exists>vs. getReadBuffers [] 2 sample = Inr (2, vs) \<and> gather (m_nodes sample) vs = [11, 12]"
  using getReadBuffers_gather [OF sample_inv, of "[]" 2]
  by (auto simp: rest_def bytes_def sample_def)

text \<open>
  File round trip: when the position is at a block boundary or at least one block is
  unread, \<open>writeToFile\<close> writes exactly the unread bytes, and \<open>readFromFile\<close> of that file into
  another array writes exactly these bytes there.
\<close>

lemma file_round_trip:
  assumes "ba_inv ba" "m_position ba mod m_baseSize ba = 0 \<or> m_baseSize ba \<le> length (rest ba)"
    and "ba_inv other"
  shows "\<exists>content other'. writeToFile True ba = Inr (True, content) \<and> content = rest ba
    \<and> readFromFile (Some content) other = Inr (True, other') \<and> written other (rest ba) other'"
proof -
  have "writeToFile True ba = Inr (True, rest ba)"
    using writeToFile_rest [OF assms(1,2)] .
  moreover obtain other' where "readFromFile_loop (m_baseSize other) (rest ba) other = Inr other'"
    "written other (rest ba) other'"
    using readFromFile_loop_correct [OF assms(3) refl] by blast
  ultimately show ?thesis by (simp add: readFromFile_def)
qed

lemma file_round_trip_example:
  "\<exists>content other'. writeToFile True sample = Inr (True, content) \<and> content = [11, 12, 13]
    \<and> readFromFile (Some content) (new_ByteArray 8) = Inr (True, other')
    \<and> written (new_ByteArray 8) [11, 12, 13] other'"
  using file_round_trip [OF sample_inv _ ba_inv_new, of 8]
  by (simp add: rest_def bytes_def sample_def)

text \<open>
  Every variable-length integer fits the local buffer it is assembled in (\<open>tmp[5]\<close> for
  32 bits, \<open>tmp[10]\<close> for 64 bits), and all its bytes but the last have the high bit set.
\<close>

lemma varint_fits_buffer:
  "length (varint32_tmp v) \<le> 5 \<and> length (varint64_tmp w) \<le> 10
    \<and> varint_shape (varint32_tmp v) \<and> varint_shape (varint64_tmp w)"
proof -
  have "unat v < 128 ^ 5" "unat w < 128 ^ 10"
    using unsigned_less [of v] unsigned_less [of w] by (auto elim: less_trans)
  then show ?thesis
    by (simp add: varint32_tmp_nat varint64_tmp_nat length_varint_nat varint_nat_shape)
qed

text \<open>
  The empty string is not read back in general: \<open>writeStringF16\<close> of an empty string that
  ends exactly at the end of the last block succeeds, but \<open>readStringF16\<close> then dereferences
  the null block pointer, because \<open>read\<close> looks at \<open>m_cur\<close> before it looks at the size.
\<close>

lemma empty_string_null_deref:
  "\<not> isl (bindR (writeStringF16 [] (new_ByteArray 2)) (setPosition 0))
    \<and> bindR (bindR (writeStringF16 [] (new_ByteArray 2)) (setPosition 0)) readStringF16 = Inl NullDeref"
  by code_simp

text \<open>
  \<open>writeToFile\<close> loses data when fewer bytes than a block are unread and the position is
  inside a block: with one unread byte at offset 1 it writes nothing and runs off the chain.
\<close>

lemma writeToFile_inside_block:
  "\<exists>ba. ba_inv ba \<and> rest ba = [7] \<and> writeToFile True ba = Inl NullDeref"
proof -
  let ?ba = "\<lparr>m_baseSize = 4, m_position = 1, m_capacity = 4, m_size = 2,
     m_endian = SYLAR_BIG_ENDIAN, m_nodes = [[6, 7, 0, 0]], m_cur = Some 0\<rparr> :: bytearray"
  have "ba_inv ?ba" "rest ?ba = [7]"
    by (simp_all add: ba_inv_def blocks_def cur_at_def rest_def bytes_def)
  moreover have "writeToFile True ?ba = Inl NullDeref" by code_simp
  ultimately show ?thesis by blast
qed

end
