(* ===== verification/Text.thy ===== *)
theory Text
  imports Prelude
begin

text \<open>
  What the code uses of the standard library on text: decimal output of integers,
  \<open>std::stoul\<close>, and reading from an \<open>std::istringstream\<close> with \<open>std::getline\<close> and \<open>>>\<close>. A stream is
  its unread text and whether it is still good; once it is not, extraction leaves the target
  unchanged.
\<close>

subsection \<open>Decimal numbers\<close>

definition isspace :: "char \<Rightarrow> bool" where
  "isspace c \<longleftrightarrow> c = CHR '' '' \<or> (9 \<le> (of_char c :: nat) \<and> (of_char c :: nat) \<le> 13)"

definition is_digit :: "char \<Rightarrow> bool" where
  "is_digit c \<longleftrightarrow> 48 \<le> (of_char c :: nat) \<and> (of_char c :: nat) \<le> 57"

definition digits_val :: "string \<Rightarrow> nat" where
  "digits_val ds = foldl (\<lambda>n c. n * 10 + (of_char c - 48)) 0 ds"

definition digit_char :: "nat \<Rightarrow> char" where
  "digit_char d = char_of (48 + d)"

fun dec :: "nat \<Rightarrow> string" where
  "dec n = (if n < 10 then [digit_char n] else dec (n div 10) @ [digit_char (n mod 10)])"

declare dec.simps [simp del]

definition dec_int :: "int \<Rightarrow> string" where
  "dec_int i = (if i < 0 then ''-'' @ dec (nat (- i)) else dec (nat i))"

text \<open>\<open>std::stoul(s)\<close> for a 64-bit \<open>unsigned long\<close>: trailing text is ignored, a minus sign negates
  modulo \<open>2 ^ 64\<close>.\<close>

definition stoul :: "string \<Rightarrow> nat res" where
  "stoul s =
     (let s1 = dropWhile isspace s;
          s2 = (if take 1 s1 = ''-'' \<or> take 1 s1 = ''+'' then drop 1 s1 else s1);
          ds = takeWhile is_digit s2
      in if ds = [] then Inl InvalidArgument
         else if 2 ^ 64 \<le> digits_val ds then Inl OutOfRange
         else Inr (if take 1 s1 = ''-'' then (2 ^ 64 - digits_val ds) mod 2 ^ 64 else digits_val ds))"

lemma is_digit_digit_char: "d < 10 \<Longrightarrow> is_digit (digit_char d)"
  by (simp add: is_digit_def digit_char_def)

lemma digit_char_val: "d < 10 \<Longrightarrow> of_char (digit_char d) - 48 = d"
  by (simp add: digit_char_def)

lemma dec_nonempty [simp]: "dec n \<noteq> []"
  by (simp add: dec.simps [of n])

lemma dec_digits: "list_all is_digit (dec n)"
proof (induction n rule: dec.induct)
  case (1 n)
  then show ?case by (simp add: dec.simps [of n] is_digit_digit_char)
qed

lemma digits_val_snoc: "digits_val (ds @ [c]) = digits_val ds * 10 + (of_char c - 48)"
  by (simp add: digits_val_def)

lemma digits_val_dec [simp]: "digits_val (dec n) = n"
proof (induction n rule: dec.induct)
  case (1 n)
  show ?case
  proof (cases "n < 10")
    case True
    then show ?thesis using digit_char_val [of n] by (simp add: dec.simps [of n] digits_val_def)
  next
    case False
    then show ?thesis
      using 1 digit_char_val [of "n mod 10"] by (simp add: dec.simps [of n] digits_val_snoc)
  qed
qed

lemma digit_not_special:
  "is_digit c \<Longrightarrow> \<not> isspace c \<and> c \<noteq> CHR ''-'' \<and> c \<noteq> CHR ''+'' \<and> c \<noteq> CHR ''/''"
  by (auto simp: is_digit_def isspace_def)

lemma takeWhile_digits:
  "list_all is_digit ds \<Longrightarrow> s = [] \<or> \<not> is_digit (hd s) \<Longrightarrow> takeWhile is_digit (ds @ s) = ds"
  by (induction ds) (cases s; auto)+

lemma stoul_dec:
  assumes "n < 2 ^ 64" "s = [] \<or> \<not> is_digit (hd s)"
  shows "stoul (dec n @ s) = Inr n"
proof -
  obtain c cs where d: "dec n = c # cs" "is_digit c"
    using dec_digits [of n] by (cases "dec n") auto
  have w: "takeWhile is_digit (c # cs @ s) = dec n"
    using takeWhile_digits [OF dec_digits assms(2), of n] d(1) by simp
  have "dropWhile isspace (dec n @ s) = c # cs @ s" "take 1 (c # cs @ s) \<noteq> ''-''" "take 1 (c # cs @ s) \<noteq> ''+''"
    using d digit_not_special by auto
  then show ?thesis
    using assms(1) unfolding stoul_def Let_def by (simp only: if_False w simp_thms) simp
qed

subsection \<open>String streams\<close>

record sstream =
  ss_rest :: string
  ss_good :: bool

definition istringstream :: "string \<Rightarrow> sstream" where
  "istringstream s = \<lparr>ss_rest = s, ss_good = True\<rparr>"

text \<open>\<open>std::getline(ss, tmp, d)\<close>; the last argument is the old value of \<open>tmp\<close>.\<close>

definition getline :: "char \<Rightarrow> sstream \<Rightarrow> string \<Rightarrow> string \<times> sstream" where
  "getline d ss old =
     (if \<not> ss_good ss then (old, ss)
      else case dropWhile (\<lambda>c. c \<noteq> d) (ss_rest ss) of
        [] \<Rightarrow> (ss_rest ss, \<lparr>ss_rest = [], ss_good = False\<rparr>)
      | _ # r \<Rightarrow> (takeWhile (\<lambda>c. c \<noteq> d) (ss_rest ss), \<lparr>ss_rest = r, ss_good = True\<rparr>))"

text \<open>\<open>ss >> word\<close>.\<close>

definition read_word :: "sstream \<Rightarrow> string \<Rightarrow> string \<times> sstream" where
  "read_word ss old =
     (if \<not> ss_good ss then (old, ss)
      else let r = dropWhile isspace (ss_rest ss) in
        if r = [] then (old, \<lparr>ss_rest = [], ss_good = False\<rparr>)
        else let w = takeWhile (\<lambda>c. \<not> isspace c) r; q = dropWhile (\<lambda>c. \<not> isspace c) r in
          (w, \<lparr>ss_rest = q, ss_good = (q \<noteq> [])\<rparr>))"

text \<open>\<open>s.find(p, 0) == 0\<close>.\<close>

definition has_prefix :: "string \<Rightarrow> string \<Rightarrow> bool" where
  "has_prefix p s \<longleftrightarrow> take (length p) s = p"

lemma has_prefix_simps [simp]:
  "has_prefix [] s" "has_prefix (a # p) (b # s) \<longleftrightarrow> a = b \<and> has_prefix p s" "\<not> has_prefix (a # p) []"
  by (auto simp: has_prefix_def)

lemma has_prefix_iff: "has_prefix p s \<longleftrightarrow> (\<exists>t. s = p @ t)"
  unfolding has_prefix_def by (metis append_eq_conv_conj append_take_drop_id)

lemma has_prefix_append [simp]: "has_prefix p (p @ s)"
  by (simp add: has_prefix_iff)

lemma getline_token:
  assumes "d \<notin> set w"
  shows "getline d \<lparr>ss_rest = w @ d # r, ss_good = True\<rparr> old = (w, \<lparr>ss_rest = r, ss_good = True\<rparr>)"
proof -
  have "\<forall>c\<in>set w. c \<noteq> d" using assms by auto
  then have "dropWhile (\<lambda>c. c \<noteq> d) (w @ d # r) = d # r" "takeWhile (\<lambda>c. c \<noteq> d) (w @ d # r) = w"
    by (auto simp: dropWhile_append takeWhile_append)
  then show ?thesis by (simp add: getline_def)
qed

lemma read_word_all:
  assumes "w \<noteq> []" "list_all (\<lambda>c. \<not> isspace c) w"
  shows "fst (read_word \<lparr>ss_rest = w, ss_good = True\<rparr> old) = w"
proof -
  have "dropWhile isspace w = w" using assms by (cases w) auto
  moreover have "takeWhile (\<lambda>c. \<not> isspace c) w = w" using assms(2) by (simp add: list_all_iff)
  ultimately show ?thesis using assms(1) by (simp add: read_word_def Let_def)
qed

end
