(* ===== verification/Address.thy ===== *)
theory Address
  imports ByteArray_Codec Text
begin

text \<open>
  \<open>sherry/address.h\<close>, \<open>sherry/address.cc\<close> (\<open>MqttAddress\<close> is in \<open>Mqtt\<close>): socket addresses. The structures
  of the system are records with the bytes they are made of; integers are stored as on a
  little-endian machine, so a field in network order holds the swapped number. Name resolution
  (\<open>getaddrinfo\<close>, \<open>inet_pton\<close>, \<open>getifaddrs\<close>) is the system's: its results are parameters.
\<close>

subsection \<open>Masks and bit counts\<close>

text \<open>
  \<open>CreateMask<T>(bits)\<close> computes \<open>(1 << (sizeof(T) * 8 - bits)) - 1\<close> in \<open>int\<close>. For 32 bits the
  shift is undefined at 0 and beyond 32, and at 1 the subtraction overflows.
\<close>

definition CreateMask32 :: "nat \<Rightarrow> u32 res" where
  "CreateMask32 bits =
     (if bits = 0 \<or> 32 < bits \<or> bits = 1 then Inl IntOverflow
      else Inr (push_bit (32 - bits) 1 - 1))"

definition CreateMask8 :: "nat \<Rightarrow> u8 res" where
  "CreateMask8 bits = (if 8 < bits then Inl IntOverflow else Inr (of_nat (2 ^ (8 - bits) - 1)))"

function CountBytes :: "'a::len word \<Rightarrow> nat" where
  "CountBytes value = (if value = 0 then 0 else Suc (CountBytes (value AND (value - 1))))"
  by pat_completeness auto
termination
proof (relation "measure unat")
  fix v :: "'a word" assume "v \<noteq> 0"
  then have "unat (v - 1) < unat v" by (simp add: unat_minus_one unat_gt_0)
  moreover have "unat (v AND (v - 1)) \<le> unat (v - 1)"
    using word_and_le1 [of v "v - 1"] by (simp add: word_le_nat_alt)
  ultimately show "(v AND (v - 1), v) \<in> measure unat" by simp
qed simp

declare CountBytes.simps [simp del]

subsection \<open>Addresses\<close>

definition AF_UNSPEC :: nat where "AF_UNSPEC = 0"
definition AF_UNIX :: nat where "AF_UNIX = 1"
definition AF_INET :: nat where "AF_INET = 2"
definition AF_INET6 :: nat where "AF_INET6 = 10"

record sockaddr_in =
  sin_family :: nat
  sin_port :: u16
  s_addr :: u32
  sin_zero :: "u8 list"

record sockaddr_in6 =
  sin6_family :: nat
  sin6_port :: u16
  sin6_flowinfo :: u32
  s6_addr :: "u8 list"
  sin6_scope_id :: u32

record sockaddr_un =
  sun_family :: nat
  sun_path :: "u8 list"

record sockaddr =
  sa_family :: nat
  sa_data :: "u8 list"

datatype address =
    IPv4Address sockaddr_in
  | IPv6Address sockaddr_in6
  | UnixAddress sockaddr_un nat
  | UnknownAddress sockaddr

text \<open>The structures a \<open>sockaddr *\<close> of the system points to, told apart by \<open>sa_family\<close>.\<close>

datatype raw_addr = RawIn sockaddr_in | RawIn6 sockaddr_in6 | RawOther sockaddr

definition raw_family :: "raw_addr \<Rightarrow> nat" where
  "raw_family a = (case a of RawIn _ \<Rightarrow> AF_INET | RawIn6 _ \<Rightarrow> AF_INET6 | RawOther s \<Rightarrow> sa_family s)"

definition Create :: "raw_addr option \<Rightarrow> address option" where
  "Create addr =
     (case addr of
        None \<Rightarrow> None
      | Some (RawIn a) \<Rightarrow> Some (IPv4Address a)
      | Some (RawIn6 a) \<Rightarrow> Some (IPv6Address a)
      | Some (RawOther a) \<Rightarrow> Some (UnknownAddress a))"

text \<open>\<open>getAddr()\<close> as the bytes of the structure, \<open>getAddrLen()\<close>, \<open>getFamily()\<close>.\<close>

definition getAddr :: "address \<Rightarrow> u8 list" where
  "getAddr a =
     (case a of
        IPv4Address s \<Rightarrow> word_bytes 2 (of_nat (sin_family s) :: u16) @ word_bytes 2 (sin_port s) @
          word_bytes 4 (s_addr s) @ sin_zero s
      | IPv6Address s \<Rightarrow> word_bytes 2 (of_nat (sin6_family s) :: u16) @ word_bytes 2 (sin6_port s) @
          word_bytes 4 (sin6_flowinfo s) @ s6_addr s @ word_bytes 4 (sin6_scope_id s)
      | UnixAddress s _ \<Rightarrow> word_bytes 2 (of_nat (sun_family s) :: u16) @ sun_path s
      | UnknownAddress s \<Rightarrow> word_bytes 2 (of_nat (sa_family s) :: u16) @ sa_data s)"

definition getAddrLen :: "address \<Rightarrow> nat" where
  "getAddrLen a = (case a of IPv4Address _ \<Rightarrow> 16 | IPv6Address _ \<Rightarrow> 28 | UnixAddress _ m_length \<Rightarrow> m_length
     | UnknownAddress _ \<Rightarrow> 16)"

definition getFamily :: "address \<Rightarrow> nat" where
  "getFamily a = (case a of IPv4Address s \<Rightarrow> sin_family s | IPv6Address s \<Rightarrow> sin6_family s
     | UnixAddress s _ \<Rightarrow> sun_family s | UnknownAddress s \<Rightarrow> sa_family s)"

text \<open>The arrays of the structures have the lengths the system declares.\<close>

definition addr_inv :: "address \<Rightarrow> bool" where
  "addr_inv a \<longleftrightarrow>
     (case a of
        IPv4Address s \<Rightarrow> length (sin_zero s) = 8 | IPv6Address s \<Rightarrow> length (s6_addr s) = 16
      | UnixAddress s l \<Rightarrow> length (sun_path s) = 108 \<and> l \<le> 110 | UnknownAddress s \<Rightarrow> length (sa_data s) = 14)"

subsection \<open>Comparison\<close>

text \<open>\<open>memcmp\<close> on the first \<open>n\<close> bytes: the sign of the result.\<close>

fun memcmp :: "nat \<Rightarrow> u8 list \<Rightarrow> u8 list \<Rightarrow> int res" where
  "memcmp 0 xs ys = Inr 0"
| "memcmp (Suc n) (x # xs) (y # ys) =
     (if x < y then Inr (-1) else if y < x then Inr 1 else memcmp n xs ys)"
| "memcmp (Suc n) _ _ = Inl OutOfBounds"

definition addr_less :: "address \<Rightarrow> address \<Rightarrow> bool res" where
  "addr_less a b =
     (let minlen = min (getAddrLen a) (getAddrLen b) in
      bindR (memcmp minlen (getAddr a) (getAddr b)) (\<lambda>result.
        if result < 0 then Inr True
        else if result > 0 then Inr False
        else if getAddrLen a < getAddrLen b then Inr True
        else Inr False))"

definition addr_eq :: "address \<Rightarrow> address \<Rightarrow> bool res" where
  "addr_eq a b =
     (if getAddrLen a \<noteq> getAddrLen b then Inr False
      else bindR (memcmp (getAddrLen a) (getAddr a) (getAddr b)) (\<lambda>r. Inr (r = 0)))"

definition addr_neq :: "address \<Rightarrow> address \<Rightarrow> bool res" where
  "addr_neq a b = bindR (addr_eq a b) (\<lambda>r. Inr (\<not> r))"

subsection \<open>IPv4\<close>

definition new_IPv4Address :: "u32 \<Rightarrow> u32 \<Rightarrow> sockaddr_in" where
  "new_IPv4Address addr port =
     \<lparr>sin_family = AF_INET, sin_port = ucast (byteswapOnLittleEndian port),
      s_addr = byteswapOnLittleEndian addr, sin_zero = replicate 8 0\<rparr>"

text \<open>\<open>IPv4Address::Create\<close>; \<open>pton\<close> is the address \<open>inet_pton\<close> stores, if it accepts the text.\<close>

definition IPv4_Create :: "u32 option \<Rightarrow> u32 \<Rightarrow> sockaddr_in option" where
  "IPv4_Create pton port =
     (let rt = (new_IPv4Address 0 0)\<lparr>sin_port := ucast (byteswapOnLittleEndian port)\<rparr> in
      case pton of None \<Rightarrow> None | Some a \<Rightarrow> Some (rt\<lparr>s_addr := a\<rparr>))"

definition IPv4_insert :: "sockaddr_in \<Rightarrow> string" where
  "IPv4_insert s =
     (let addr = byteswapOnLittleEndian (s_addr s) in
      dec (unat (drop_bit 24 addr AND 0xff)) @ ''.'' @ dec (unat (drop_bit 16 addr AND 0xff)) @ ''.'' @
      dec (unat (drop_bit 8 addr AND 0xff)) @ ''.'' @ dec (unat (addr AND 0xff)) @
      '':'' @ dec (unat (byteswapOnLittleEndian (sin_port s))))"

definition IPv4_broadcastAddress :: "nat \<Rightarrow> sockaddr_in \<Rightarrow> sockaddr_in option res" where
  "IPv4_broadcastAddress prefix_len s =
     (if prefix_len > 32 then Inr None
      else bindR (CreateMask32 prefix_len) (\<lambda>mask.
        Inr (Some (s\<lparr>s_addr := s_addr s OR byteswapOnLittleEndian mask\<rparr>))))"

definition IPv4_networkAddress :: "nat \<Rightarrow> sockaddr_in \<Rightarrow> sockaddr_in option res" where
  "IPv4_networkAddress prefix_len s =
     (if prefix_len > 32 then Inr None
      else bindR (CreateMask32 prefix_len) (\<lambda>mask.
        Inr (Some (s\<lparr>s_addr := s_addr s AND byteswapOnLittleEndian mask\<rparr>))))"

definition IPv4_subnetMask :: "nat \<Rightarrow> sockaddr_in res" where
  "IPv4_subnetMask prefix_len =
     bindR (CreateMask32 prefix_len) (\<lambda>mask.
       Inr \<lparr>sin_family = AF_INET, sin_port = 0, s_addr = NOT (byteswapOnLittleEndian mask),
            sin_zero = replicate 8 0\<rparr>)"

definition IPv4_getPort :: "sockaddr_in \<Rightarrow> u32" where
  "IPv4_getPort s = ucast (byteswapOnLittleEndian (sin_port s))"

definition IPv4_setPort :: "u16 \<Rightarrow> sockaddr_in \<Rightarrow> sockaddr_in" where
  "IPv4_setPort v s = s\<lparr>sin_port := byteswapOnLittleEndian v\<rparr>"

subsection \<open>IPv6\<close>

definition new_IPv6Address :: sockaddr_in6 where
  "new_IPv6Address = \<lparr>sin6_family = AF_INET6, sin6_port = 0, sin6_flowinfo = 0, s6_addr = replicate 16 0,
     sin6_scope_id = 0\<rparr>"

definition new_IPv6Address_bytes :: "u8 list \<Rightarrow> u32 \<Rightarrow> sockaddr_in6" where
  "new_IPv6Address_bytes addr port =
     new_IPv6Address\<lparr>sin6_port := ucast (byteswapOnLittleEndian port), s6_addr := take 16 addr\<rparr>"

definition IPv6_Create :: "u8 list option \<Rightarrow> u32 \<Rightarrow> sockaddr_in6 option" where
  "IPv6_Create pton port =
     (let rt = new_IPv6Address\<lparr>sin6_port := ucast (byteswapOnLittleEndian port)\<rparr> in
      case pton of None \<Rightarrow> None | Some a \<Rightarrow> Some (rt\<lparr>s6_addr := a\<rparr>))"

text \<open>An access \<open>s6_addr[i]\<close>.\<close>

definition upd_byte :: "nat \<Rightarrow> (u8 \<Rightarrow> u8) \<Rightarrow> u8 list \<Rightarrow> u8 list res" where
  "upd_byte i f bs = (if i < length bs then Inr (bs[i := f (bs ! i)]) else Inl OutOfBounds)"

definition IPv6_broadcastAddress :: "nat \<Rightarrow> sockaddr_in6 \<Rightarrow> sockaddr_in6 res" where
  "IPv6_broadcastAddress prefix_len s =
     bindR (CreateMask8 (prefix_len mod 8)) (\<lambda>mask.
     bindR (upd_byte (prefix_len div 8) (\<lambda>b. b OR mask) (s6_addr s)) (\<lambda>bs.
       Inr (s\<lparr>s6_addr := take (prefix_len div 8 + 1) bs @ replicate (15 - prefix_len div 8) 0xff\<rparr>)))"

definition IPv6_networkAddress :: "nat \<Rightarrow> sockaddr_in6 \<Rightarrow> sockaddr_in6 res" where
  "IPv6_networkAddress prefix_len s =
     bindR (CreateMask8 (prefix_len mod 8)) (\<lambda>mask.
     bindR (upd_byte (prefix_len div 8) (\<lambda>b. b AND mask) (s6_addr s)) (\<lambda>bs.
       Inr (s\<lparr>s6_addr := bs\<rparr>)))"

definition IPv6_subnetMask :: "nat \<Rightarrow> sockaddr_in6 res" where
  "IPv6_subnetMask prefix_len =
     bindR (CreateMask8 (prefix_len mod 8)) (\<lambda>mask.
     bindR (upd_byte (prefix_len div 8) (\<lambda>_. NOT mask) (replicate 16 0)) (\<lambda>bs.
       Inr (new_IPv6Address\<lparr>s6_addr := replicate (prefix_len div 8) 0xff @ drop (prefix_len div 8) bs\<rparr>)))"

definition IPv6_getPort :: "sockaddr_in6 \<Rightarrow> u32" where
  "IPv6_getPort s = ucast (byteswapOnLittleEndian (sin6_port s))"

definition IPv6_setPort :: "u16 \<Rightarrow> sockaddr_in6 \<Rightarrow> sockaddr_in6" where
  "IPv6_setPort v s = s\<lparr>sin6_port := byteswapOnLittleEndian v\<rparr>"

definition hex_digit :: "nat \<Rightarrow> char" where
  "hex_digit d = (if d < 10 then char_of (48 + d) else char_of (87 + d))"

fun hex :: "nat \<Rightarrow> string" where
  "hex n = (if n < 16 then [hex_digit n] else hex (n div 16) @ [hex_digit (n mod 16)])"

declare hex.simps [simp del]

text \<open>The eight 16-bit groups as stored, and the loop that prints them.\<close>

definition groups :: "u8 list \<Rightarrow> u16 list" where
  "groups bs = map (\<lambda>i. bytes_word [bs ! (2 * i), bs ! (2 * i + 1)]) [0..<8]"

fun insert_groups :: "u16 list \<Rightarrow> nat list \<Rightarrow> bool \<Rightarrow> string \<times> bool" where
  "insert_groups addr [] used_zeros = ('''', used_zeros)"
| "insert_groups addr (i # is) used_zeros =
     (if addr ! i = 0 \<and> \<not> used_zeros then insert_groups addr is used_zeros
      else
        let first = (i \<noteq> 0 \<and> addr ! (i - 1) = 0 \<and> \<not> used_zeros);
            out = (if first then '':'' else '''') @ (if i \<noteq> 0 then '':'' else '''') @
                  hex (unat (byteswapOnLittleEndian (addr ! i)))
        in case insert_groups addr is (used_zeros \<or> first) of (tail, u) \<Rightarrow> (out @ tail, u))"

definition IPv6_insert :: "sockaddr_in6 \<Rightarrow> string" where
  "IPv6_insert s =
     (let addr = groups (s6_addr s) in
      case insert_groups addr [0..<8] False of (body, used_zeros) \<Rightarrow>
        ''['' @ body @ (if \<not> used_zeros \<and> addr ! 7 = 0 then ''::'' else '''') @
        '']:'' @ dec (unat (byteswapOnLittleEndian (sin6_port s))))"

text \<open>\<open>IPAddress::Create\<close>; \<open>info\<close> is the first address \<open>getaddrinfo\<close> returns for the numeric text.\<close>

definition ip_setPort :: "u16 \<Rightarrow> address \<Rightarrow> address" where
  "ip_setPort v a = (case a of IPv4Address s \<Rightarrow> IPv4Address (IPv4_setPort v s)
     | IPv6Address s \<Rightarrow> IPv6Address (IPv6_setPort v s) | _ \<Rightarrow> a)"

definition is_ip :: "address \<Rightarrow> bool" where
  "is_ip a = (case a of IPv4Address _ \<Rightarrow> True | IPv6Address _ \<Rightarrow> True | _ \<Rightarrow> False)"

definition IPAddress_Create :: "raw_addr option \<Rightarrow> u32 \<Rightarrow> address option" where
  "IPAddress_Create info port =
     (case info of
        None \<Rightarrow> None
      | Some a \<Rightarrow>
          (case Create (Some a) of
             Some r \<Rightarrow> if is_ip r then Some (ip_setPort (ucast port) r) else None
           | None \<Rightarrow> None))"

subsection \<open>Unix and unknown addresses\<close>

definition sun_path_size :: nat where "sun_path_size = 108"
definition sun_path_offset :: nat where "sun_path_offset = 2"
definition MAX_PATH_LEN :: nat where "MAX_PATH_LEN = sun_path_size - 1"

definition new_UnixAddress :: address where
  "new_UnixAddress = UnixAddress \<lparr>sun_family = AF_UNIX, sun_path = replicate sun_path_size 0\<rparr>
     (sun_path_offset + MAX_PATH_LEN)"

definition setAddrLen :: "nat \<Rightarrow> address \<Rightarrow> address" where
  "setAddrLen v a = (case a of UnixAddress s _ \<Rightarrow> UnixAddress s v | _ \<Rightarrow> a)"

definition new_UnixAddress_path :: "u8 list \<Rightarrow> address res" where
  "new_UnixAddress_path path =
     (let m_length = length path + 1;
          m_length = (if path \<noteq> [] \<and> hd path = 0 then m_length - 1 else m_length)
      in if m_length > sun_path_size then Inl LogicError
         else Inr (UnixAddress
           \<lparr>sun_family = AF_UNIX, sun_path = blit (replicate sun_path_size 0) 0 (take m_length (path @ [0]))\<rparr>
           (m_length + sun_path_offset)))"

text \<open>Bytes as the characters a stream prints; a C string ends at the first zero.\<close>

definition chars :: "u8 list \<Rightarrow> string" where
  "chars bs = map (\<lambda>b. char_of (unat b)) bs"

definition Unix_insert :: "sockaddr_un \<Rightarrow> nat \<Rightarrow> string" where
  "Unix_insert s m_length =
     (if m_length > sun_path_offset \<and> sun_path s ! 0 = 0
      then [CHR 0x5C, CHR ''0''] @ chars (take (m_length - sun_path_offset - 1) (drop 1 (sun_path s)))
      else chars (takeWhile (\<lambda>b. b \<noteq> 0) (sun_path s)))"

definition new_UnknownAddress :: "nat \<Rightarrow> address" where
  "new_UnknownAddress family = UnknownAddress \<lparr>sa_family = family, sa_data = replicate 14 0\<rparr>"

definition Unknown_insert :: "sockaddr \<Rightarrow> string" where
  "Unknown_insert s = ''[UnknowAddress family='' @ dec (sa_family s) @ '']''"

definition toString :: "address \<Rightarrow> string" where
  "toString a = (case a of IPv4Address s \<Rightarrow> IPv4_insert s | IPv6Address s \<Rightarrow> IPv6_insert s
     | UnixAddress s l \<Rightarrow> Unix_insert s l | UnknownAddress s \<Rightarrow> Unknown_insert s)"

subsection \<open>Name resolution\<close>

text \<open>
  The node and the service \<open>Lookup\<close> asks for. A pointer into \<open>host\<close> is the text from there on;
  \<open>None\<close> is the null pointer.
\<close>

definition strchr :: "char \<Rightarrow> string \<Rightarrow> string option" where
  "strchr c s = (case dropWhile (\<lambda>x. x \<noteq> c) s of [] \<Rightarrow> None | r \<Rightarrow> Some r)"

definition lookup_target :: "string \<Rightarrow> string \<times> string option" where
  "lookup_target host =
     (let (node, service) =
        (if host \<noteq> [] \<and> hd host = CHR ''['' then
           case strchr (CHR '']'') (tl host) of
             None \<Rightarrow> ('''', None)
           | Some endipv6 \<Rightarrow>
               (takeWhile (\<lambda>x. x \<noteq> CHR '']'') (tl host),
                if take 1 (drop 1 endipv6) = '':'' then Some (drop 2 endipv6) else None)
         else ('''', None));
      (node, service) =
        (if node = '''' then
           case strchr (CHR '':'') host of
             None \<Rightarrow> (node, None)
           | Some s \<Rightarrow>
               if strchr (CHR '':'') (drop 1 s) = None
               then (takeWhile (\<lambda>x. x \<noteq> CHR '':'') host, Some (drop 1 s))
               else (node, Some s)
         else (node, service))
      in (if node = '''' then host else node, service))"

text \<open>
  \<open>Lookup\<close>: \<open>gai node service family type protocol\<close> is the list \<open>getaddrinfo\<close> returns, \<open>None\<close> an
  error. A result of \<open>Create\<close> is never null here, the entries have an address.
\<close>

definition Lookup ::
  "(string \<Rightarrow> string option \<Rightarrow> int \<Rightarrow> int \<Rightarrow> int \<Rightarrow> raw_addr list option) \<Rightarrow> string \<Rightarrow> int \<Rightarrow> int \<Rightarrow> int
     \<Rightarrow> address list option" where
  "Lookup gai host family type protocol =
     (case lookup_target host of (node, service) \<Rightarrow>
      case gai node service family type protocol of
        None \<Rightarrow> None
      | Some infos \<Rightarrow> Some (List.map_filter (\<lambda>a. Create (Some a)) infos))"

text \<open>\<open>result[0]\<close> of an empty vector is undefined.\<close>

definition LookupAny ::
  "(string \<Rightarrow> string option \<Rightarrow> int \<Rightarrow> int \<Rightarrow> int \<Rightarrow> raw_addr list option) \<Rightarrow> string \<Rightarrow> int \<Rightarrow> int \<Rightarrow> int
     \<Rightarrow> address option res" where
  "LookupAny gai host family type protocol =
     (case Lookup gai host family type protocol of
        None \<Rightarrow> Inr None
      | Some [] \<Rightarrow> Inl OutOfBounds
      | Some (a # _) \<Rightarrow> Inr (Some a))"

definition LookupAnyIPAddress ::
  "(string \<Rightarrow> string option \<Rightarrow> int \<Rightarrow> int \<Rightarrow> int \<Rightarrow> raw_addr list option) \<Rightarrow> string \<Rightarrow> int \<Rightarrow> int \<Rightarrow> int
     \<Rightarrow> address option" where
  "LookupAnyIPAddress gai host family type protocol =
     (case Lookup gai host family type protocol of None \<Rightarrow> None | Some as \<Rightarrow> find is_ip as)"

subsection \<open>Interfaces\<close>

text \<open>
  An entry of \<open>getifaddrs\<close>: its address with the netmask of the same family, each of which may
  be null.
\<close>

datatype ifa = IfIn sockaddr_in "u32 option" | IfIn6 sockaddr_in6 "u8 list option" | IfOther sockaddr

record ifaddr =
  ifa_name :: string
  ifa_addr :: "ifa option"

definition ifa_raw :: "ifa \<Rightarrow> raw_addr" where
  "ifa_raw a = (case a of IfIn s _ \<Rightarrow> RawIn s | IfIn6 s _ \<Rightarrow> RawIn6 s | IfOther s \<Rightarrow> RawOther s)"

text \<open>The switch on the family: the address and the prefix length, if any.\<close>

definition interface_addr :: "ifa \<Rightarrow> (address \<times> nat) option res" where
  "interface_addr a =
     (case a of
        IfIn s (Some netmask) \<Rightarrow> Inr (Some (IPv4Address s, CountBytes netmask))
      | IfIn6 s (Some netmask) \<Rightarrow>
          Inr (Some (IPv6Address s, sum_list (map (\<lambda>i. CountBytes (netmask ! i)) [0..<16])))
      | IfIn _ None \<Rightarrow> Inl NullDeref
      | IfIn6 _ None \<Rightarrow> Inl NullDeref
      | IfOther _ \<Rightarrow> Inr None)"

fun interface_loop :: "nat \<Rightarrow> ifaddr list \<Rightarrow> (string \<times> address \<times> nat) list res" where
  "interface_loop family [] = Inr []"
| "interface_loop family (i # is) =
     (case ifa_addr i of
        None \<Rightarrow> Inl NullDeref
      | Some a \<Rightarrow>
          if family \<noteq> AF_UNSPEC \<and> family \<noteq> raw_family (ifa_raw a) then interface_loop family is
          else
            bindR (interface_addr a) (\<lambda>r.
            bindR (interface_loop family is) (\<lambda>rs.
              Inr (case r of Some (addr, prefix_len) \<Rightarrow> (ifa_name i, addr, prefix_len) # rs | None \<Rightarrow> rs))))"

text \<open>
  The entries in the order they are inserted; elements of the multimap with one key keep it.
  \<open>None\<close> is the result \<open>false\<close>.
\<close>

definition GetInterfaceAddresses :: "ifaddr list option \<Rightarrow> nat \<Rightarrow> (string \<times> address \<times> nat) list option res" where
  "GetInterfaceAddresses ifs family =
     (case ifs of
        None \<Rightarrow> Inr None
      | Some l \<Rightarrow> bindR (interface_loop family l) (\<lambda>r. Inr (if r = [] then None else Some r)))"

definition GetInterfaceAddresses_of ::
  "ifaddr list option \<Rightarrow> string \<Rightarrow> nat \<Rightarrow> (address \<times> nat) list option res" where
  "GetInterfaceAddresses_of ifs iface family =
     (if iface = '''' \<or> iface = ''*'' then
        Inr (Some ((if family = AF_INET \<or> family = AF_UNSPEC then [(IPv4Address (new_IPv4Address 0 0), 0)] else []) @
                   (if family = AF_INET6 \<or> family = AF_UNSPEC then [(IPv6Address new_IPv6Address, 0)] else [])))
      else bindR (GetInterfaceAddresses ifs family) (\<lambda>r.
        case r of None \<Rightarrow> Inr None | Some l \<Rightarrow> Inr (Some (map snd (filter (\<lambda>(n, _). n = iface) l)))))"

subsection \<open>Counting bits\<close>

lemma lowest_bit_split: "(n :: nat) \<noteq> 0 \<Longrightarrow> \<exists>k m. n = 2 ^ k * (2 * m + 1)"
proof (induction n rule: less_induct)
  case (less n)
  show ?case
  proof (cases "even n")
    case True
    then obtain h where h: "n = 2 * h" by blast
    then have "h < n" "h \<noteq> 0" using less.prems by auto
    then obtain k m where "h = 2 ^ k * (2 * m + 1)" using less.IH by blast
    then show ?thesis using h by (intro exI [of _ "Suc k"] exI [of _ m]) simp
  next
    case False
    then obtain m where "n = 2 * m + 1" by (rule oddE)
    then show ?thesis by (intro exI [of _ 0] exI [of _ m]) simp
  qed
qed

lemma bit_odd: "bit (2 * m + 1 :: nat) j \<longleftrightarrow> j = 0 \<or> bit m (j - 1)"
  by (cases j) (simp_all add: bit_0 bit_Suc)

lemma bit_low_split:
  "bit (2 ^ k * (2 * m + 1) :: nat) i \<longleftrightarrow> i = k \<or> (k < i \<and> bit m (i - Suc k))"
proof -
  have "2 ^ k * (2 * m + 1) = push_bit k (2 * m + 1)" by (simp only: push_bit_eq_mult mult.commute)
  then have "bit (2 ^ k * (2 * m + 1)) i \<longleftrightarrow> k \<le> i \<and> bit (2 * m + 1) (i - k)"
    by (simp only: bit_push_bit_iff possible_bit_nat) simp
  then show ?thesis unfolding bit_odd by auto
qed

lemma bit_pred_split:
  "bit (2 ^ k * (2 * m + 1) - 1 :: nat) i \<longleftrightarrow> i < k \<or> (k < i \<and> bit m (i - Suc k))"
proof -
  have "2 ^ k * (2 * m + 1) - 1 = push_bit (Suc k) m + mask k"
    by (simp add: push_bit_eq_mult mask_eq_exp_minus_1 algebra_simps)
  also have "\<dots> = push_bit (Suc k) m OR mask k"
    by (rule disjunctive_add) (auto simp: bit_push_bit_iff bit_mask_iff simp del: push_bit_Suc)
  finally have "bit (2 ^ k * (2 * m + 1) - 1) i \<longleftrightarrow> bit (push_bit (Suc k) m OR mask k) i" by (rule arg_cong)
  also have "\<dots> \<longleftrightarrow> i < k \<or> (k < i \<and> bit m (i - Suc k))"
    unfolding bit_or_iff bit_push_bit_iff bit_mask_iff by auto
  finally show ?thesis .
qed

text \<open>\<open>value &= value - 1\<close> clears exactly the lowest set bit.\<close>

lemma clear_lowest:
  fixes v :: "'a::len word"
  assumes "v \<noteq> 0"
  shows "\<exists>k. bit v k \<and> (\<forall>i. bit (v AND (v - 1)) i \<longleftrightarrow> bit v i \<and> i \<noteq> k)"
proof -
  obtain k m where n: "unat v = 2 ^ k * (2 * m + 1)"
    using lowest_bit_split [of "unat v"] assms by (auto simp: unat_eq_0)
  have w: "bit w i \<longleftrightarrow> bit (unat w) i" for w :: "'a word" and i by (simp add: bit_unsigned_iff)
  have p: "bit (v - 1) i \<longleftrightarrow> bit (unat v - 1) i" for i
    using w [of "v - 1"] unat_minus_one [OF assms] by simp
  show ?thesis
    by (rule exI [of _ k]) (simp only: bit_and_iff w [of v] p n bit_low_split bit_pred_split, auto)
qed

lemma CountBytes_card: "CountBytes v = card {i. bit v i}"
proof (induction v rule: CountBytes.induct)
  case (1 v)
  show ?case
  proof (cases "v = 0")
    case True
    then show ?thesis by (simp add: CountBytes.simps [of "0 :: 'a word"])
  next
    case False
    then obtain k where k: "bit v k" "{i. bit (v AND (v - 1)) i} = {i. bit v i} - {k}"
      using clear_lowest [OF False] by auto
    have fin: "finite {i. bit v i}"
      by (rule finite_subset [of _ "{..<LENGTH('a)}"]) (auto dest: bit_imp_le_length)
    have "0 < card {i. bit v i}" using fin k(1) by (auto simp: card_gt_0_iff)
    then show ?thesis
      using 1 [OF False] False k by (simp add: CountBytes.simps [of v] card_Diff_singleton)
  qed
qed

subsection \<open>IPv4 masks\<close>

lemma bit_byteswap32:
  "bit (byteswap (w :: u32)) i \<longleftrightarrow> i < 32 \<and> bit w (8 * (3 - i div 8) + i mod 8)"
proof (cases "i < 32")
  case True
  then have d: "i div 8 < 4" by simp
  have m: "i mod 8 < 8" by simp
  have "rev (word_bytes 4 w) ! (i div 8) = ucast (drop_bit (8 * (3 - i div 8)) w)"
    using d nth_upt [of 0 "3 - i div 8" 4] by (simp add: rev_nth word_bytes_def del: upt_rec_numeral)
  then show ?thesis
    using True d m
    by (simp add: byteswap_def bit_bytes_word bit_ucast_iff bit_drop_bit_eq)
next
  case False
  then show ?thesis using bit_imp_le_length [of "byteswap w" i] by auto
qed

lemma byteswap32_twice [simp]: "byteswap (byteswap (w :: u32)) = w"
  by (rule byteswap_byteswap [of 4]) simp

lemma byteswap16_twice [simp]: "byteswap (byteswap (w :: u16)) = w"
  by (rule byteswap_byteswap [of 2]) simp

lemma swap_index: "i < 32 \<Longrightarrow> 8 * (3 - i div 8) + i mod 8 < (32 :: nat)"
  using mod_less_divisor [of 8 i] by (cases "i div 8") auto

lemma byteswap32_bitwise:
  "byteswap (a OR b :: u32) = byteswap a OR byteswap b"
  "byteswap (a AND b :: u32) = byteswap a AND byteswap b"
  "byteswap (NOT a :: u32) = NOT (byteswap a)"
  by (auto intro!: bit_eqI simp: bit_byteswap32 bit_or_iff bit_and_iff bit_not_iff possible_bit_word swap_index)

lemma CreateMask32_mask: "2 \<le> p \<Longrightarrow> p \<le> 32 \<Longrightarrow> CreateMask32 p = Inr (mask (32 - p))"
  by (simp add: CreateMask32_def mask_eq_exp_minus_1 push_bit_eq_mult)

text \<open>The address in host order.\<close>

definition host_addr :: "sockaddr_in \<Rightarrow> u32" where
  "host_addr s = byteswapOnLittleEndian (s_addr s)"

lemma ipv4_mask_ops:
  assumes "2 \<le> p" "p \<le> 32"
  shows "\<exists>b n m. IPv4_broadcastAddress p s = Inr (Some b) \<and> IPv4_networkAddress p s = Inr (Some n)
    \<and> IPv4_subnetMask p = Inr m \<and> host_addr b = host_addr s OR mask (32 - p)
    \<and> host_addr n = host_addr s AND mask (32 - p) \<and> host_addr m = NOT (mask (32 - p))
    \<and> sin_port b = sin_port s \<and> sin_port n = sin_port s"
  using CreateMask32_mask [OF assms] assms
  by (simp add: IPv4_broadcastAddress_def IPv4_networkAddress_def IPv4_subnetMask_def host_addr_def
      byteswapOnLittleEndian_def byteswap32_bitwise)

lemma CountBytes_swap: "CountBytes (byteswap (w :: u32)) = CountBytes w"
proof -
  let ?f = "\<lambda>i :: nat. 8 * (3 - i div 8) + i mod 8"
  have inv: "?f (?f i) = i" if "i < 32" for i
  proof -
    have "i mod 8 < 8" by simp
    then have "?f i div 8 = 3 - i div 8" "?f i mod 8 = i mod 8" by auto
    moreover have "i div 8 \<le> 3" using that by simp
    ultimately show ?thesis by simp
  qed
  have sub: "?f ` {i. bit w i} \<subseteq> {i. bit (byteswap w) i}"
  proof
    fix j assume "j \<in> ?f ` {i. bit w i}"
    then obtain i where i: "j = ?f i" "bit w i" by auto
    then have "i < 32" using bit_imp_le_length [of w i] by auto
    then have "bit (byteswap w) (?f i)" unfolding bit_byteswap32 inv [OF \<open>i < 32\<close>]
      using i(2) swap_index by blast
    then show "j \<in> {i. bit (byteswap w) i}" unfolding i(1) by blast
  qed
  have sub1: "?f ` {i. bit (byteswap w) i} \<subseteq> {i. bit w i}" by (auto simp: bit_byteswap32)
  have bij: "bij_betw ?f {i. bit (byteswap w) i} (?f ` {i. bit (byteswap w) i})"
    using inv by (auto intro!: inj_on_imp_bij_betw inj_on_inverseI [where g = ?f] simp: bit_byteswap32)
  have sub2: "{i. bit w i} \<subseteq> ?f ` {i. bit (byteswap w) i}"
  proof
    fix i assume i: "i \<in> {i. bit w i}"
    then have "i < 32" using bit_imp_le_length [of w i] by auto
    moreover have "?f i \<in> {i. bit (byteswap w) i}" using i sub by blast
    ultimately show "i \<in> ?f ` {i. bit (byteswap w) i}" 
      by (rule image_eqI [where f = ?f, OF inv [symmetric]])
  qed
  show ?thesis
    unfolding CountBytes_card using bij_betw_same_card [OF bij] subset_antisym [OF sub1 sub2] by argo
qed

lemma CountBytes_subnet: "p \<le> 32 \<Longrightarrow> CountBytes (NOT (mask (32 - p)) :: u32) = p"
proof -
  assume p: "p \<le> 32"
  have "{i. bit (NOT (mask (32 - p)) :: u32) i} = {32 - p..<32}"
    using p by (auto simp: bit_not_iff bit_mask_iff possible_bit_word)
  then show ?thesis using p by (simp add: CountBytes_card)
qed

subsection \<open>The order of addresses\<close>

lemma memcmp_lex:
  "n \<le> length xs \<Longrightarrow> n \<le> length ys \<Longrightarrow> memcmp n xs ys =
     Inr (if take n xs = take n ys then 0 else if ord_class.lexordp (take n xs) (take n ys) then -1 else 1)"
  by (induction n xs ys rule: memcmp.induct) auto

lemma lexordp_cut:
  fixes xs ys :: "u8 list"
  shows "ord_class.lexordp xs ys \<longleftrightarrow> (let n = min (length xs) (length ys) in
     if take n xs = take n ys then length xs < length ys else ord_class.lexordp (take n xs) (take n ys))"
proof (induction xs arbitrary: ys)
  case Nil
  show ?case by (cases ys) simp_all
next
  case (Cons x xs)
  show ?case
  proof (cases ys)
    case (Cons y ys')
    then show ?thesis using Cons.IH [of ys'] by (auto simp: Let_def)
  qed simp
qed

text \<open>The bytes that count.\<close>

definition addr_key :: "address \<Rightarrow> u8 list" where
  "addr_key a = take (getAddrLen a) (getAddr a)"

lemma addr_key_length: "addr_inv a \<Longrightarrow> length (addr_key a) = getAddrLen a"
  by (cases a) (auto simp: addr_key_def addr_inv_def getAddrLen_def getAddr_def)

lemma getAddr_long: "addr_inv a \<Longrightarrow> getAddrLen a \<le> length (getAddr a)"
  by (cases a) (auto simp: addr_inv_def getAddrLen_def getAddr_def)

lemma addr_less_key:
  assumes "addr_inv a" "addr_inv b"
  shows "addr_less a b = Inr (ord_class.lexordp (addr_key a) (addr_key b))"
proof -
  let ?n = "min (getAddrLen a) (getAddrLen b)"
  have "take ?n (addr_key a) = take ?n (getAddr a)" "take ?n (addr_key b) = take ?n (getAddr b)"
    by (simp_all add: addr_key_def min_def)
  moreover have "memcmp ?n (getAddr a) (getAddr b) =
      Inr (if take ?n (getAddr a) = take ?n (getAddr b) then 0
           else if ord_class.lexordp (take ?n (getAddr a)) (take ?n (getAddr b)) then -1 else 1)"
    using getAddr_long [OF assms(1)] getAddr_long [OF assms(2)] by (intro memcmp_lex) auto
  ultimately show ?thesis
    using lexordp_cut [of "addr_key a" "addr_key b"] addr_key_length [OF assms(1)] addr_key_length [OF assms(2)]
    by (simp add: addr_less_def Let_def)
qed

lemma addr_eq_key:
  assumes "addr_inv a" "addr_inv b"
  shows "addr_eq a b = Inr (addr_key a = addr_key b)"
proof (cases "getAddrLen a = getAddrLen b")
  case True
  then have "memcmp (getAddrLen a) (getAddr a) (getAddr b) =
      Inr (if addr_key a = addr_key b then 0 else if ord_class.lexordp (addr_key a) (addr_key b) then -1 else 1)"
    using getAddr_long [OF assms(1)] getAddr_long [OF assms(2)] memcmp_lex [of "getAddrLen a" "getAddr a" "getAddr b"]
    by (simp add: addr_key_def)
  then show ?thesis using True by (simp add: addr_eq_def)
next
  case False
  then show ?thesis
    using addr_key_length [OF assms(1)] addr_key_length [OF assms(2)] by (auto simp: addr_eq_def)
qed

subsection \<open>Unix paths\<close>

lemma unix_path_run:
  assumes "length path \<le> 107" "0 \<notin> set path" "path \<noteq> []"
  shows "\<exists>a. new_UnixAddress_path path = Inr a \<and> addr_inv a \<and> toString a = chars path
    \<and> getAddrLen a = length path + 3"
proof -
  have h: "\<not> (path \<noteq> [] \<and> hd path = 0)" using assms(2) by (cases path) auto
  let ?p = "blit (replicate 108 0) 0 (path @ [0])"
  have run: "new_UnixAddress_path path = Inr (UnixAddress \<lparr>sun_family = AF_UNIX, sun_path = ?p\<rparr> (length path + 1 + 2))"
    using assms(1) h by (simp add: new_UnixAddress_path_def sun_path_size_def sun_path_offset_def Let_def)
  have p: "?p = path @ replicate (108 - length path) 0"
    using assms(1) by (simp add: blit_def Suc_diff_Suc replicate_app_Cons_same flip: replicate_Suc)
  have tw: "takeWhile (\<lambda>b. b \<noteq> 0) ?p = path"
    using assms unfolding p by (subst takeWhile_append2) (auto simp: takeWhile_eq_Nil_iff)
  show ?thesis
  proof (cases path)
    case Nil
    then show ?thesis using assms(3) by simp
  next
    case (Cons c cs)
    then have "?p ! 0 \<noteq> 0" using assms(2) unfolding p by auto
    then show ?thesis using run tw assms
      by (auto simp: addr_inv_def toString_def Unix_insert_def getAddrLen_def p)
  qed
qed

lemma unix_path_long: "107 < length path \<Longrightarrow> 0 \<notin> set path \<Longrightarrow> new_UnixAddress_path path = Inl LogicError"
  by (cases path) (auto simp: new_UnixAddress_path_def sun_path_size_def Let_def)

subsection \<open>Host names\<close>

lemma strchr_append: "c \<notin> set s \<Longrightarrow> strchr c (s @ c # t) = Some (c # t)"
  by (induction s) (auto simp: strchr_def)

lemma strchr_None: "c \<notin> set s \<Longrightarrow> strchr c s = None"
  by (induction s) (auto simp: strchr_def)

lemma takeWhile_upto: "c \<notin> set s \<Longrightarrow> takeWhile (\<lambda>x. x \<noteq> c) (s @ c # t) = s"
  by (subst takeWhile_append2) auto

lemma target_host_port:
  assumes "CHR '':'' \<notin> set node" "CHR '':'' \<notin> set port" "node \<noteq> []" "hd node \<noteq> CHR ''[''"
  shows "lookup_target (node @ '':'' @ port) = (node, Some port)"
  using assms strchr_append [OF assms(1), of port] strchr_None [OF assms(2)] takeWhile_upto [OF assms(1), of port]
  by (simp add: lookup_target_def)

lemma target_ipv6:
  assumes "CHR '']'' \<notin> set node" "node \<noteq> []"
  shows "lookup_target (''['' @ node @ '']:'' @ port) = (node, Some port)"
    "lookup_target (''['' @ node @ '']'') = (node, None)"
  using assms strchr_append [OF assms(1), of "'':'' @ port"] takeWhile_upto [OF assms(1), of "'':'' @ port"]
    strchr_append [OF assms(1), of "[]"] takeWhile_upto [OF assms(1), of "[]"]
  by (simp_all add: lookup_target_def)

lemma target_host:
  assumes "CHR '':'' \<notin> set host" "host = [] \<or> hd host \<noteq> CHR ''[''"
  shows "lookup_target host = (host, None)"
  using assms(2) strchr_None [OF assms(1)] by (auto simp: lookup_target_def)

lemma target_bare_ipv6:
  assumes "CHR '':'' \<notin> set a" "a = [] \<or> hd a \<noteq> CHR ''[''"
  shows "lookup_target (a @ '':'' @ b @ '':'' @ c) = (a @ '':'' @ b @ '':'' @ c, Some ('':'' @ b @ '':'' @ c))"
proof -
  have "strchr (CHR '':'') (b @ CHR '':'' # c) \<noteq> None" by (auto simp: strchr_def split: list.splits)
  moreover have "hd (a @ CHR '':'' # b @ CHR '':'' # c) \<noteq> CHR ''[''" using assms(2) by (cases a) auto
  ultimately show ?thesis using strchr_append [OF assms(1), of "b @ '':'' @ c"] by (auto simp: lookup_target_def)
qed

subsection \<open>IPv6 masks\<close>

text \<open>The bits of an address in the order a prefix counts them.\<close>

definition v6_bit :: "sockaddr_in6 \<Rightarrow> nat \<Rightarrow> bool" where
  "v6_bit s i = bit (s6_addr s ! (i div 8)) (7 - i mod 8)"

lemma CreateMask8_bit:
  assumes "p < 8"
  shows "\<exists>m. CreateMask8 p = Inr m \<and> (\<forall>i<8. bit m (7 - i) \<longleftrightarrow> p \<le> i)"
proof -
  have "of_nat (2 ^ (8 - p) - 1) = (mask (8 - p) :: u8)"
    by (simp add: mask_eq_exp_minus_1 of_nat_diff)
  moreover have "bit (mask (8 - p) :: u8) (7 - i) \<longleftrightarrow> p \<le> i" if "i < 8" for i
    using that assms by (auto simp: bit_mask_iff)
  ultimately show ?thesis using assms by (simp add: CreateMask8_def)
qed

lemma ipv6_broadcast_run:
  assumes "length (s6_addr s) = 16" "p < 128"
  shows "\<exists>b. IPv6_broadcastAddress p s = Inr b \<and> length (s6_addr b) = 16
    \<and> (\<forall>i<128. v6_bit b i \<longleftrightarrow> v6_bit s i \<or> p \<le> i)"
proof -
  let ?d = "p div 8"
  have d: "?d < 16" using assms(2) by simp
  obtain m where m: "CreateMask8 (p mod 8) = Inr m" "\<forall>i<8. bit m (7 - i) \<longleftrightarrow> p mod 8 \<le> i"
    using CreateMask8_bit [of "p mod 8"] by auto
  let ?bs = "take (?d + 1) ((s6_addr s)[?d := s6_addr s ! ?d OR m]) @ replicate (15 - ?d) 0xff"
  have run: "IPv6_broadcastAddress p s = Inr (s\<lparr>s6_addr := ?bs\<rparr>)"
    using m(1) assms(1) d by (simp add: IPv6_broadcastAddress_def upd_byte_def)
  have len: "length ?bs = 16" using assms(1) d by simp
  have "bit (?bs ! (i div 8)) (7 - i mod 8) \<longleftrightarrow> v6_bit s i \<or> p \<le> i" if i: "i < 128" for i
  proof -
    consider "i div 8 < ?d" | "i div 8 = ?d" | "?d < i div 8" by linarith
    then show ?thesis
    proof cases
      case 1
      then have "\<not> p \<le> i" using div_le_mono [of p i 8] by auto
      moreover have "?bs ! (i div 8) = s6_addr s ! (i div 8)"
        using 1 assms(1) d by (simp add: nth_append)
      ultimately show ?thesis by (simp add: v6_bit_def)
    next
      case 2
      then have "p \<le> i \<longleftrightarrow> p mod 8 \<le> i mod 8"
        using div_mult_mod_eq [of p 8] div_mult_mod_eq [of i 8] by (metis add_le_cancel_left)
      moreover have "?bs ! (i div 8) = s6_addr s ! (i div 8) OR m"
        using 2 assms(1) d by (simp add: nth_append)
      moreover have "i mod 8 < 8" by simp
      ultimately show ?thesis using m(2) by (auto simp: v6_bit_def bit_or_iff)
    next
      case 3
      then have "p \<le> i" using div_le_mono [of i p 8] by linarith
      moreover have "?bs ! (i div 8) = 0xff"
        using 3 assms(1) d i by (simp add: nth_append)
      moreover have "bit (0xff :: u8) (7 - i mod 8)"
      proof -
        have "bit (0xff :: u8) k" if "k < 8" for k
          using that by (auto simp: less_Suc_eq numeral_eq_Suc bit_Suc bit_0)
        then show ?thesis by simp
      qed
      ultimately show ?thesis by simp
    qed
  qed
  then show ?thesis using run len by (intro exI [of _ "s\<lparr>s6_addr := ?bs\<rparr>"]) (simp add: v6_bit_def)
qed

lemma ipv6_prefix_bounds:
  assumes "length (s6_addr s) = 16" "128 \<le> p"
  shows "IPv6_broadcastAddress p s = Inl OutOfBounds" "IPv6_networkAddress p s = Inl OutOfBounds"
    "IPv6_subnetMask p = Inl OutOfBounds"
proof -
  obtain m where m: "CreateMask8 (p mod 8) = Inr m" using CreateMask8_bit [of "p mod 8"] by auto
  have "\<not> p div 8 < 16" using assms(2) by simp
  then show "IPv6_broadcastAddress p s = Inl OutOfBounds" "IPv6_networkAddress p s = Inl OutOfBounds"
    "IPv6_subnetMask p = Inl OutOfBounds"
    using m assms(1)
    by (simp_all add: IPv6_broadcastAddress_def IPv6_networkAddress_def IPv6_subnetMask_def upd_byte_def)
qed

subsection \<open>Properties\<close>

lemma lexordp_facts:
  fixes xs ys zs :: "u8 list"
  shows "\<not> ord_class.lexordp xs xs"
    "ord_class.lexordp xs ys \<Longrightarrow> ord_class.lexordp ys zs \<Longrightarrow> ord_class.lexordp xs zs"
    "\<not> ord_class.lexordp xs ys \<Longrightarrow> \<not> ord_class.lexordp ys xs \<Longrightarrow> xs = ys"
  using lexordp_irreflexive' lexordp_trans lexordp_linear by (blast, blast, blast)

text \<open>
  C31. Addresses are strictly and totally ordered, whatever their families are: on well-formed
  addresses \<open>operator<\<close> reads no byte outside a structure, is irreflexive and transitive, and two
  addresses neither of which is below the other are exactly those that \<open>operator==\<close> accepts, so
  that addresses can be the keys of an ordered map.
\<close>

theorem address_order:
  assumes "addr_inv a" "addr_inv b" "addr_inv c"
  shows "addr_less a a = Inr False
    \<and> (addr_less a b = Inr True \<longrightarrow> addr_less b c = Inr True \<longrightarrow> addr_less a c = Inr True)
    \<and> (addr_eq a b = Inr True \<longleftrightarrow> addr_less a b = Inr False \<and> addr_less b a = Inr False)
    \<and> (addr_neq a b = Inr True \<longleftrightarrow> addr_less a b = Inr True \<or> addr_less b a = Inr True)"
  using lexordp_facts(2) [of "addr_key a" "addr_key b" "addr_key c"] lexordp_facts(3) [of "addr_key a" "addr_key b"]
    lexordp_facts(1)
  by (auto simp: addr_less_key addr_eq_key addr_neq_def assms)

theorem address_order_witness:
  "addr_less (IPv4Address (new_IPv4Address 1 0)) (IPv4Address (new_IPv4Address 1 0)) = Inr False
    \<and> addr_eq (IPv4Address (new_IPv4Address 1 0)) (IPv6Address new_IPv6Address) = Inr False
    \<and> addr_less (IPv4Address (new_IPv4Address 1 0)) (IPv6Address new_IPv6Address) = Inr True"
proof -
  have inv: "addr_inv (IPv4Address (new_IPv4Address 1 0))" "addr_inv (IPv6Address new_IPv6Address)"
    by (simp_all add: addr_inv_def new_IPv4Address_def new_IPv6Address_def)
  show ?thesis using address_order [OF inv(1) inv(2) inv(1)] by code_simp
qed

text \<open>
  IPv4 prefixes: for every prefix length from 2 to 32 the broadcast address has the bits of
  the network and ones behind them, the subnet mask has exactly the leading ones, and counting
  the bits of that mask, as \<open>GetInterfaceAddresses\<close> does, gives the prefix length back.
\<close>

lemma ipv4_prefixes:
  assumes "2 \<le> p" "p \<le> 32"
  shows "\<exists>b m. IPv4_broadcastAddress p s = Inr (Some b) \<and> IPv4_subnetMask p = Inr m
    \<and> (\<forall>i<32. bit (host_addr b) i \<longleftrightarrow> bit (host_addr s) i \<or> i < 32 - p)
    \<and> (\<forall>i<32. bit (host_addr m) i \<longleftrightarrow> 32 - p \<le> i)
    \<and> interface_addr (IfIn s (Some (s_addr m))) = Inr (Some (IPv4Address s, p))"
proof -
  obtain b m where *: "IPv4_broadcastAddress p s = Inr (Some b)" "IPv4_subnetMask p = Inr m"
    "host_addr b = host_addr s OR mask (32 - p)" "host_addr m = NOT (mask (32 - p))"
    using ipv4_mask_ops [OF assms] by blast
  have "s_addr m = byteswap (NOT (mask (32 - p)))"
    using *(4) by (simp add: host_addr_def byteswapOnLittleEndian_def) (metis byteswap32_twice)
  then have "CountBytes (s_addr m) = p" using CountBytes_swap CountBytes_subnet [OF assms(2)] by simp
  then show ?thesis
    using * by (auto simp: bit_or_iff bit_mask_iff bit_not_iff possible_bit_word interface_addr_def)
qed

lemma ipv4_prefixes_example:
  "\<exists>b m. IPv4_broadcastAddress 24 (new_IPv4Address 0xC0A80105 0) = Inr (Some b) \<and> IPv4_subnetMask 24 = Inr m
    \<and> bit (host_addr b) 0 \<and> \<not> bit (host_addr m) 7 \<and> bit (host_addr m) 8"
  using ipv4_prefixes [of 24 "new_IPv4Address 0xC0A80105 0"] by fastforce

text \<open>
  \<open>networkAddress\<close> keeps the wrong part: it masks with the host mask instead of its complement,
  so for every address and every prefix length from 2 to 32 all bits of the network are
  cleared and the host bits remain.
\<close>

lemma networkAddress_keeps_host:
  assumes "2 \<le> p" "p \<le> 32"
  shows "\<exists>n m. IPv4_networkAddress p s = Inr (Some n) \<and> IPv4_subnetMask p = Inr m
    \<and> host_addr n AND host_addr m = 0 \<and> (\<forall>i<32 - p. bit (host_addr n) i \<longleftrightarrow> bit (host_addr s) i)"
proof -
  obtain n m where *: "IPv4_networkAddress p s = Inr (Some n)" "IPv4_subnetMask p = Inr m"
    "host_addr n = host_addr s AND mask (32 - p)" "host_addr m = NOT (mask (32 - p))"
    using ipv4_mask_ops [OF assms] by blast
  have "host_addr n AND host_addr m = 0"
    unfolding *(3,4) by (rule bit_eqI) (auto simp: bit_and_iff bit_not_iff bit_mask_iff)
  then show ?thesis using * by (auto simp: bit_and_iff bit_mask_iff)
qed

lemma networkAddress_keeps_host_example:
  "\<exists>n. IPv4_networkAddress 24 (new_IPv4Address 0xC0A80105 0) = Inr (Some n) \<and> bit (host_addr n) 0"
  using networkAddress_keeps_host [of 24 "new_IPv4Address 0xC0A80105 0"]
  by (auto simp: host_addr_def new_IPv4Address_def byteswapOnLittleEndian_def)

text \<open>
  What \<open>Lookup\<close> asks the resolver for: \<open>node:port\<close> and \<open>[address]:port\<close> are split, a name without
  a colon has no service; but an address with two colons and no brackets, which is how IPv6
  addresses are written, is resolved with the text from its first colon on as the service.
\<close>

lemma host_targets:
  assumes "CHR '':'' \<notin> set node" "node \<noteq> []" "hd node \<noteq> CHR ''[''" "CHR '':'' \<notin> set port"
    and "CHR '']'' \<notin> set v6" "v6 \<noteq> []"
  shows "lookup_target node = (node, None) \<and> lookup_target (node @ '':'' @ port) = (node, Some port)
    \<and> lookup_target (''['' @ v6 @ '']:'' @ port) = (v6, Some port) \<and> lookup_target (''['' @ v6 @ '']'') = (v6, None)
    \<and> lookup_target (node @ '':'' @ b @ '':'' @ c) = (node @ '':'' @ b @ '':'' @ c, Some ('':'' @ b @ '':'' @ c))"
  using target_host_port [OF assms(1,4,2,3)] target_host [OF assms(1)] target_ipv6(1) [OF assms(5,6), of port] target_ipv6(2) [OF assms(5,6)]
    target_bare_ipv6 [OF assms(1)] assms(3) by blast

lemma host_targets_example:
  "lookup_target (''host'' @ '':'' @ ''80'') = (''host'', Some ''80'')
    \<and> lookup_target (''['' @ ''::1'' @ '']:'' @ ''80'') = (''::1'', Some ''80'')
    \<and> lookup_target (''host'' @ '':'' @ ''a'' @ '':'' @ ''1'') = (''host:a:1'', Some '':a:1'')"
  using host_targets [of "''host''" "''80''" "''::1''" "''a''" "''1''"] by simp

text \<open>
  The constructors and \<open>Create\<close> functions swap the port as a 32-bit number and keep its low half,
  so every port below 65536 becomes 0; \<open>setPort\<close> and \<open>getPort\<close> are inverse.
\<close>

lemma constructor_port: "IPv4_getPort (IPv4_setPort v s) = ucast v" "IPv6_getPort (IPv6_setPort v t) = ucast v"
  by (simp_all add: IPv4_getPort_def IPv4_setPort_def IPv6_getPort_def IPv6_setPort_def byteswapOnLittleEndian_def)

lemma constructor_loses_port:
  assumes "port < 0x10000"
  shows "IPv4_getPort (new_IPv4Address a port) = 0"
proof -
  have "unat port < 2 ^ 16" using assms by (simp add: word_less_nat_alt)
  then have "unat (take_bit 16 port) = unat port" by (simp add: unsigned_take_bit_eq take_bit_nat_eq_self)
  then have "take_bit 16 port = port" by (rule unsigned_word_eqI)
  then have high: "\<not> bit port j" if "16 \<le> j" for j
    using that bit_take_bit_iff [of 16 port j] by auto
  have "ucast (byteswap port) = (0 :: u16)"
  proof (rule bit_eqI)
    fix i assume "possible_bit TYPE(u16) i"
    then have "i div 8 \<le> 1" by (auto simp: possible_bit_word)
    then have "16 \<le> 8 * (3 - i div 8) + i mod 8" by auto
    then show "bit (ucast (byteswap port) :: u16) i = bit 0 i"
      using high by (simp add: bit_ucast_iff bit_byteswap32)
  qed
  moreover have "byteswap (0 :: u16) = 0" by (simp add: byteswap_def word_bytes_def upt_rec)
  ultimately show ?thesis by (simp add: IPv4_getPort_def new_IPv4Address_def byteswapOnLittleEndian_def)
qed

end
