(* ===== verification/Util.thy ===== *)
theory Util
  imports Prelude
begin

text \<open>
  \<open>sherry/util.cc\<close>, \<open>sherry/ota_message.cc\<close>: clocks, backtraces and the store of the last messages. What
  \<open>gettimeofday\<close>, \<open>backtrace\<close> and \<open>backtrace_symbols\<close> give are arguments. (\<open>FormatOtaPrex\<close> is in
  \<open>OtaManager.thy\<close>.)
\<close>

subsection \<open>Clocks\<close>

text \<open>
  A \<open>timeval\<close>: 64-bit seconds and microseconds. The first factor \<open>tv_sec * 1000\<close> of \<open>GetCurrentUS\<close> is
  signed and may overflow; all else is unsigned.
\<close>

type_synonym timeval = "int \<times> int"

definition GetCurrentMS :: "timeval \<Rightarrow> u64" where
  "GetCurrentMS tv = (case tv of (tv_sec, tv_usec) \<Rightarrow> word_of_int tv_sec * 1000 + word_of_int (sgn tv_usec * (\<bar>tv_usec\<bar> div 1000)))"

definition GetCurrentUS :: "timeval \<Rightarrow> u64 res" where
  "GetCurrentUS tv =
     (case tv of (tv_sec, tv_usec) \<Rightarrow>
        if tv_sec * 1000 < - (2 ^ 63) \<or> 2 ^ 63 \<le> tv_sec * 1000 then Inl IntOverflow
        else Inr (word_of_int (tv_sec * 1000) * 1000 + word_of_int tv_usec))"

text \<open>A time that the kernel gives after 1970: the microseconds are a fraction of a second.\<close>

definition timeval_ok :: "timeval \<Rightarrow> bool" where
  "timeval_ok tv \<longleftrightarrow> 0 \<le> fst tv \<and> 0 \<le> snd tv \<and> snd tv < 1000000"

definition us_of :: "timeval \<Rightarrow> int" where
  "us_of tv = fst tv * 1000000 + snd tv"

lemma GetCurrentUS_exact:
  assumes "timeval_ok tv" "us_of tv < 2 ^ 63"
  shows "\<exists>u. GetCurrentUS tv = Inr u \<and> uint u = us_of tv"
proof -
  obtain s u where tv: "tv = (s, u)" by (cases tv)
  have "s * 1000 < 2 ^ 63" "0 \<le> s * 1000" using assms by (auto simp: tv timeval_ok_def us_of_def)
  moreover have "word_of_int (s * 1000) * 1000 + word_of_int u = (word_of_int (us_of tv) :: u64)"
    by (simp add: tv us_of_def algebra_simps)
  moreover have "0 \<le> us_of tv" using assms by (simp add: timeval_ok_def us_of_def)
  then have "uint (word_of_int (us_of tv) :: u64) = us_of tv" using assms(2) by (simp add: uint_word_of_int)
  ultimately show ?thesis by (simp add: GetCurrentUS_def tv)
qed

lemma GetCurrentMS_exact:
  assumes "timeval_ok tv" "us_of tv < 2 ^ 63"
  shows "uint (GetCurrentMS tv) = us_of tv div 1000"
proof -
  obtain s u where tv: "tv = (s, u)" by (cases tv)
  have ms: "us_of tv div 1000 = s * 1000 + u div 1000" by (simp add: tv us_of_def)
  have "sgn u * (\<bar>u\<bar> div 1000) = u div 1000" using assms(1) by (cases "u = 0") (simp_all add: tv timeval_ok_def)
  then have "GetCurrentMS tv = word_of_int s * 1000 + word_of_int (u div 1000)" by (simp only: GetCurrentMS_def tv prod.case)
  then have "GetCurrentMS tv = word_of_int (us_of tv div 1000)" by (simp add: ms)
  moreover have "0 \<le> us_of tv div 1000" "us_of tv div 1000 < 2 ^ 64"
    using assms by (auto simp: tv timeval_ok_def us_of_def)
  ultimately show ?thesis by (simp add: uint_word_of_int)
qed

text \<open>
  The two clocks agree, and they run with the time of the kernel: within the range of a signed number
  of microseconds neither overflows, and the milliseconds are those of the microseconds.
\<close>

lemma clocks_agree:
  assumes "timeval_ok tv" "us_of tv < 2 ^ 63"
  shows "\<exists>u. GetCurrentUS tv = Inr u \<and> GetCurrentMS tv = u div 1000"
proof -
  obtain u where u: "GetCurrentUS tv = Inr u" "uint u = us_of tv" using GetCurrentUS_exact [OF assms] by blast
  have "uint (u div 1000) = uint (GetCurrentMS tv)" using u(2) GetCurrentMS_exact [OF assms] by (simp add: uint_div)
  then have "GetCurrentMS tv = u div 1000" by (metis word_uint_eq_iff)
  then show ?thesis using u(1) by blast
qed

lemma clock_monotone:
  assumes "timeval_ok tv" "us_of tv \<le> us_of tv'" "timeval_ok tv'" "us_of tv' < 2 ^ 63"
  shows "GetCurrentMS tv \<le> GetCurrentMS tv'"
  using assms GetCurrentMS_exact [of tv] GetCurrentMS_exact [of tv'] by (simp add: word_le_def zdiv_mono1)

subsection \<open>Backtraces\<close>

text \<open>
  \<open>frames\<close> is what \<open>backtrace\<close> found, at most \<open>n\<close> of them, and \<open>symbols\<close> what \<open>backtrace_symbols\<close> makes of
  each, or nothing when it fails. \<open>skip\<close> is an \<open>int\<close> and becomes an unsigned index.
\<close>

definition to_size :: "int \<Rightarrow> nat" where
  "to_size i = nat (i mod 2 ^ 64)"

definition Backtrace :: "(nat list \<Rightarrow> string list option) \<Rightarrow> nat list \<Rightarrow> int \<Rightarrow> int \<Rightarrow> string list \<Rightarrow> string list" where
  "Backtrace symbols frames n skip bt =
     (let found = take (nat n) frames in
      case symbols found of
        None \<Rightarrow> bt
      | Some strings \<Rightarrow> bt @ drop (to_size skip) (take (length found) strings))"

definition BacktraceToString :: "(nat list \<Rightarrow> string list option) \<Rightarrow> nat list \<Rightarrow> int \<Rightarrow> int \<Rightarrow> string \<Rightarrow> string" where
  "BacktraceToString symbols frames n skip pre =
     concat (map (\<lambda>s. pre @ s @ [CHR 0x0A]) (Backtrace symbols frames n skip []))"

text \<open>There is one line for each frame after the skipped ones; a negative \<open>skip\<close> skips all.\<close>

lemma backtrace_length:
  assumes "symbols (take (nat n) frames) = Some strings" "length strings = length (take (nat n) frames)" "0 \<le> skip" "skip < 2 ^ 31"
  shows "length (Backtrace symbols frames n skip []) = min (nat n) (length frames) - nat skip"
  using assms by (simp add: Backtrace_def to_size_def Let_def min.commute)

lemma backtrace_negative_skip:
  assumes "skip < 0" "- (2 ^ 31) \<le> skip" "length frames < 2 ^ 63"
  shows "Backtrace symbols frames n skip bt = bt"
proof -
  have "skip mod 2 ^ 64 = (skip + 2 ^ 64) mod 2 ^ 64" by simp
  also have "\<dots> = skip + 2 ^ 64" using assms(1,2) by (intro mod_pos_pos_trivial) simp_all
  finally have "skip mod 2 ^ 64 = skip + 2 ^ 64" .
  then have "2 ^ 63 \<le> to_size skip" using assms(2) by (simp add: to_size_def)
  then show ?thesis using assms(3) by (auto simp: Backtrace_def Let_def split: option.split)
qed

subsection \<open>The store of the last messages\<close>

text \<open>\<open>OTAMessage\<close>; each operation holds the lock, so that threads interleave whole operations.\<close>

record otamsg =
  m_query_msg :: string
  m_download_msg :: string

definition new_OTAMessage :: "string \<Rightarrow> string \<Rightarrow> otamsg" where
  "new_OTAMessage query_str download_str = \<lparr>m_query_msg = query_str, m_download_msg = download_str\<rparr>"

definition set_queryMsg :: "string \<Rightarrow> otamsg \<Rightarrow> otamsg" where
  "set_queryMsg query_str m = m\<lparr>m_query_msg := query_str\<rparr>"

definition set_downloadMsg :: "string \<Rightarrow> otamsg \<Rightarrow> otamsg" where
  "set_downloadMsg download_str m = m\<lparr>m_download_msg := download_str\<rparr>"

definition get_message :: "otamsg \<Rightarrow> string \<times> string" where
  "get_message m = (m_query_msg m, m_download_msg m)"

definition get_queryMsg :: "otamsg \<Rightarrow> string" where
  "get_queryMsg m = m_query_msg m"

definition get_downloadMsg :: "otamsg \<Rightarrow> string" where
  "get_downloadMsg m = m_download_msg m"

text \<open>The writes of any threads in the order in which they got the lock.\<close>

datatype msg_write = WriteQuery string | WriteDownload string

fun apply_write :: "msg_write \<Rightarrow> otamsg \<Rightarrow> otamsg" where
  "apply_write (WriteQuery s) = set_queryMsg s"
| "apply_write (WriteDownload s) = set_downloadMsg s"

definition queries :: "msg_write list \<Rightarrow> string list" where
  "queries ws = concat (map (\<lambda>w. case w of WriteQuery s \<Rightarrow> [s] | WriteDownload _ \<Rightarrow> []) ws)"

definition downloads :: "msg_write list \<Rightarrow> string list" where
  "downloads ws = concat (map (\<lambda>w. case w of WriteQuery _ \<Rightarrow> [] | WriteDownload s \<Rightarrow> [s]) ws)"

text \<open>\<open>get_message\<close> gives the last write of each kind before it, both at the same moment.\<close>

lemma get_message_snapshot:
  "get_message (fold apply_write ws (new_OTAMessage q d)) = (last (q # queries ws), last (d # downloads ws))"
proof (induction ws rule: rev_induct)
  case (snoc w ws)
  then show ?case
    by (cases w) (auto simp: get_message_def set_queryMsg_def set_downloadMsg_def queries_def downloads_def)
qed (simp add: get_message_def new_OTAMessage_def queries_def downloads_def)

end
