(* ===== verification/Locks.thy ===== *)
theory Locks
  imports Prelude
begin

text \<open>
  \<open>sherry/thread.h\<close>, \<open>sherry/thread.cc\<close>: locks, the scoped locks that the rest of the program takes them
  with, semaphores, and the start of a thread. Taking a lock is a partial function: no result means
  that the thread waits. The pthread locks follow their documented behaviour; \<open>CASLock\<close> is the
  code's own. Each access to a lock is one step, and the threads interleave in any order.
\<close>

subsection \<open>Locks\<close>

text \<open>\<open>Mutex\<close> and \<open>Spinlock\<close>: whether a thread is inside.\<close>

definition mutex_lock :: "bool \<Rightarrow> bool option" where
  "mutex_lock locked = (if locked then None else Some True)"

definition mutex_unlock :: "bool \<Rightarrow> bool" where
  "mutex_unlock locked = False"

text \<open>\<open>CASLock\<close>: \<open>test_and_set\<close> gives the old flag; the loop goes on while it was set.\<close>

definition test_and_set :: "bool \<Rightarrow> bool \<times> bool" where
  "test_and_set flag = (flag, True)"

definition cas_lock :: "bool \<Rightarrow> bool option" where
  "cas_lock flag = (case test_and_set flag of (old, flag) \<Rightarrow> if old then None else Some flag)"

definition cas_unlock :: "bool \<Rightarrow> bool" where
  "cas_unlock flag = False"

text \<open>\<open>NullMutex\<close> does nothing.\<close>

definition null_lock :: "unit \<Rightarrow> unit option" where
  "null_lock s = Some s"

text \<open>\<open>RWMutex\<close>: the number of readers and whether there is a writer.\<close>

record rwlock =
  rw_readers :: nat
  rw_writer :: bool

definition new_RWMutex :: rwlock where
  "new_RWMutex = \<lparr>rw_readers = 0, rw_writer = False\<rparr>"

definition rdlock :: "rwlock \<Rightarrow> rwlock option" where
  "rdlock s = (if rw_writer s then None else Some (s\<lparr>rw_readers := rw_readers s + 1\<rparr>))"

definition wrlock :: "rwlock \<Rightarrow> rwlock option" where
  "wrlock s = (if rw_writer s \<or> rw_readers s > 0 then None else Some (s\<lparr>rw_writer := True\<rparr>))"

definition rw_unlock :: "rwlock \<Rightarrow> rwlock" where
  "rw_unlock s = (if rw_writer s then s\<lparr>rw_writer := False\<rparr> else s\<lparr>rw_readers := rw_readers s - 1\<rparr>)"

subsection \<open>Scoped locks\<close>

text \<open>
  \<open>ScopedLockImpl\<close>, \<open>ReadScopedLockImpl\<close> and \<open>WriteScopedLockImpl\<close> are one code over the operation that
  takes the lock. The state is the lock and \<open>m_locked\<close>.
\<close>

definition scoped_lock :: "('s \<Rightarrow> 's option) \<Rightarrow> 's \<times> bool \<Rightarrow> ('s \<times> bool) option" where
  "scoped_lock lock st =
     (case st of (s, m_locked) \<Rightarrow>
        if \<not> m_locked then (case lock s of None \<Rightarrow> None | Some s \<Rightarrow> Some (s, True)) else Some (s, m_locked))"

definition scoped_new :: "('s \<Rightarrow> 's option) \<Rightarrow> 's \<Rightarrow> ('s \<times> bool) option" where
  "scoped_new lock s = (case lock s of None \<Rightarrow> None | Some s \<Rightarrow> Some (s, True))"

definition scoped_unlock :: "('s \<Rightarrow> 's) \<Rightarrow> 's \<times> bool \<Rightarrow> 's \<times> bool" where
  "scoped_unlock unlock st = (case st of (s, m_locked) \<Rightarrow> if m_locked then (unlock s, False) else (s, m_locked))"

definition scoped_delete :: "('s \<Rightarrow> 's) \<Rightarrow> 's \<times> bool \<Rightarrow> 's" where
  "scoped_delete unlock st = fst (scoped_unlock unlock st)"

text \<open>
  Threads that use one lock each through a scoped lock of their own, \<open>None\<close> where there is none now.
  A thread \<open>t\<close> takes the lock with \<open>lock t\<close>.
\<close>

inductive scoped_step ::
  "(nat \<Rightarrow> 's \<Rightarrow> 's option) \<Rightarrow> ('s \<Rightarrow> 's) \<Rightarrow> 's \<times> (nat \<rightharpoonup> bool) \<Rightarrow> 's \<times> (nat \<rightharpoonup> bool) \<Rightarrow> bool"
  for lock unlock where
  construct: "th t = None \<Longrightarrow> scoped_new (lock t) s = Some (s', b) \<Longrightarrow> scoped_step lock unlock (s, th) (s', th(t \<mapsto> b))"
| relock: "th t = Some b \<Longrightarrow> scoped_lock (lock t) (s, b) = Some (s', b') \<Longrightarrow> scoped_step lock unlock (s, th) (s', th(t \<mapsto> b'))"
| release: "th t = Some b \<Longrightarrow> scoped_unlock unlock (s, b) = (s', b') \<Longrightarrow> scoped_step lock unlock (s, th) (s', th(t \<mapsto> b'))"
| destroy: "th t = Some b \<Longrightarrow> scoped_step lock unlock (s, th) (scoped_delete unlock (s, b), th(t := None))"

definition inside :: "(nat \<rightharpoonup> bool) \<Rightarrow> nat set" where
  "inside th = {t. th t = Some True}"

lemma inside_upd: "inside (th(t := x)) = (if x = Some True then insert t (inside th) else inside th - {t})"
  by (auto simp: inside_def)

text \<open>What a step does: a thread enters through its lock, a thread inside leaves, or nothing changes.\<close>

lemma scoped_step_cases:
  assumes "scoped_step lock unlock (s, th) (s', th')"
  obtains (enter) t where "t \<notin> inside th" "lock t s = Some s'" "inside th' = insert t (inside th)"
  | (leave) t where "t \<in> inside th" "s' = unlock s" "inside th' = inside th - {t}"
  | (stay) "s' = s" "inside th' = inside th"
  using assms
proof cases
  case (construct t b)
  then have "t \<notin> inside th" "b" "lock t s = Some s'" by (auto simp: inside_def scoped_new_def split: option.splits)
  then show thesis using enter [of t] construct(1) by (simp add: inside_upd)
next
  case (relock t b b')
  show thesis
  proof (cases b)
    case True
    then have "t \<in> inside th" "s' = s" "b'" using relock by (auto simp: inside_def scoped_lock_def)
    then show thesis using stay relock(1) by (simp add: inside_upd insert_absorb)
  next
    case False
    then have "t \<notin> inside th" "b'" "lock t s = Some s'" using relock by (auto simp: inside_def scoped_lock_def split: option.splits)
    then show thesis using enter [of t] relock(1) by (simp add: inside_upd)
  qed
next
  case (release t b b')
  show thesis
  proof (cases b)
    case True
    then have "t \<in> inside th" "s' = unlock s" "\<not> b'" using release by (auto simp: inside_def scoped_unlock_def)
    then show thesis using leave [of t] release(1) by (simp add: inside_upd)
  next
    case False
    then have "t \<notin> inside th" "s' = s" "\<not> b'" using release by (auto simp: inside_def scoped_unlock_def)
    then show thesis using stay release(1) by (simp add: inside_upd)
  qed
next
  case (destroy t b)
  show thesis
  proof (cases b)
    case True
    then have "t \<in> inside th" "s' = unlock s" using destroy by (auto simp: inside_def scoped_unlock_def scoped_delete_def)
    then show thesis using leave [of t] destroy(2) by (simp add: inside_upd)
  next
    case False
    then have "t \<notin> inside th" "s' = s" using destroy by (auto simp: inside_def scoped_unlock_def scoped_delete_def)
    then show thesis using stay destroy(2) by (simp add: inside_upd)
  qed
qed

subsection \<open>Mutual exclusion\<close>

text \<open>The contract of an exclusive lock, and what its clients get from it.\<close>

locale exclusive_lock =
  fixes lock :: "'s \<Rightarrow> 's option" and unlock :: "'s \<Rightarrow> 's" and free :: "'s \<Rightarrow> bool"
  assumes lock_free: "lock s = Some s' \<Longrightarrow> free s \<and> \<not> free s'"
    and unlock_free: "free (unlock s)"
begin

definition exclusion :: "'s \<times> (nat \<rightharpoonup> bool) \<Rightarrow> bool" where
  "exclusion c \<longleftrightarrow> (if free (fst c) then inside (snd c) = {} else \<exists>t. inside (snd c) = {t})"

lemma exclusion_step:
  assumes "exclusion c" "scoped_step (\<lambda>_. lock) unlock c c'"
  shows "exclusion c'"
proof -
  obtain s th s' th' where c: "c = (s, th)" "c' = (s', th')" by (metis surj_pair)
  from assms(2) [unfolded c] show ?thesis
  proof (cases rule: scoped_step_cases)
    case (enter t)
    then show ?thesis using assms(1) lock_free by (auto simp: exclusion_def c)
  next
    case (leave t)
    then show ?thesis using assms(1) unlock_free by (auto simp: exclusion_def c split: if_splits)
  next
    case stay
    then show ?thesis using assms(1) by (simp add: exclusion_def c split: if_splits)
  qed
qed

lemma exclusion_reach:
  assumes "(scoped_step (\<lambda>_. lock) unlock)\<^sup>*\<^sup>* (s0, Map.empty) (s, th)" "free s0"
  shows "(inside th = {} \<longleftrightarrow> free s) \<and> (\<forall>t u. t \<in> inside th \<longrightarrow> u \<in> inside th \<longrightarrow> t = u)"
proof -
  have "exclusion c" if "(scoped_step (\<lambda>_. lock) unlock)\<^sup>*\<^sup>* (s0, Map.empty) c" for c
    using that
  proof (induction rule: rtranclp_induct)
    case base
    then show ?case using assms(2) by (simp add: exclusion_def inside_def)
  qed (rule exclusion_step)
  from this [OF assms(1)] show ?thesis by (auto simp: exclusion_def split: if_splits)
qed

end

interpretation mutex: exclusive_lock mutex_lock mutex_unlock Not
  by unfold_locales (auto simp: mutex_lock_def mutex_unlock_def split: if_splits)

interpretation cas: exclusive_lock cas_lock cas_unlock Not
  by unfold_locales (auto simp: cas_lock_def cas_unlock_def test_and_set_def split: if_splits)

text \<open>
  C23. Mutual exclusion of the spin lock: however the threads construct, lock, unlock and destroy their
  scoped locks over one \<open>CASLock\<close>, and however these steps interleave, at most one thread is inside,
  and the flag is clear exactly when none is, so that a lock is never lost.
\<close>

theorem cas_lock_exclusion:
  assumes "(scoped_step (\<lambda>_. cas_lock) cas_unlock)\<^sup>*\<^sup>* (False, Map.empty) (flag, th)"
  shows "(inside th = {} \<longleftrightarrow> \<not> flag) \<and> (\<forall>t u. t \<in> inside th \<longrightarrow> u \<in> inside th \<longrightarrow> t = u)"
  using cas.exclusion_reach [OF assms] by simp

theorem cas_lock_exclusion_witness:
  "(scoped_step (\<lambda>_. cas_lock) cas_unlock)\<^sup>*\<^sup>* (False, Map.empty) (True, [3 \<mapsto> True]) \<and> inside [3 \<mapsto> True] \<noteq> {}"
proof -
  have "scoped_new cas_lock False = Some (True, True)" by (simp add: scoped_new_def cas_lock_def test_and_set_def)
  then have "scoped_step (\<lambda>_. cas_lock) cas_unlock (False, Map.empty) (True, Map.empty(3 \<mapsto> True))"
    by (intro scoped_step.construct) simp_all
  then have r: "(scoped_step (\<lambda>_. cas_lock) cas_unlock)\<^sup>*\<^sup>* (False, Map.empty) (True, [3 \<mapsto> True])" by blast
  then show ?thesis using cas_lock_exclusion [OF r] by simp
qed

subsection \<open>Readers and writers\<close>

definition rw_lock :: "(nat \<Rightarrow> bool) \<Rightarrow> nat \<Rightarrow> rwlock \<Rightarrow> rwlock option" where
  "rw_lock writes t = (if writes t then wrlock else rdlock)"

definition rw_inv :: "(nat \<Rightarrow> bool) \<Rightarrow> rwlock \<times> (nat \<rightharpoonup> bool) \<Rightarrow> bool" where
  "rw_inv writes c \<longleftrightarrow> finite (inside (snd c)) \<and>
     (if rw_writer (fst c) then rw_readers (fst c) = 0 \<and> (\<exists>t. writes t \<and> inside (snd c) = {t})
      else (\<forall>t \<in> inside (snd c). \<not> writes t) \<and> rw_readers (fst c) = card (inside (snd c)))"

lemma rw_inv_step:
  assumes "rw_inv writes c" "scoped_step (rw_lock writes) rw_unlock c c'"
  shows "rw_inv writes c'"
proof -
  obtain s th s' th' where c: "c = (s, th)" "c' = (s', th')" by (metis surj_pair)
  from assms(2) [unfolded c] show ?thesis
  proof (cases rule: scoped_step_cases)
    case (enter t)
    then show ?thesis using assms(1)
      by (auto simp: rw_inv_def c rw_lock_def wrlock_def rdlock_def split: if_splits)
  next
    case (leave t)
    then show ?thesis using assms(1) by (auto simp: rw_inv_def c rw_unlock_def split: if_splits)
  next
    case stay
    then show ?thesis using assms(1) by (simp add: rw_inv_def c split: if_splits)
  qed
qed

text \<open>
  Readers and writers: over one \<open>RWMutex\<close>, with any threads reading and any writing through their
  scoped locks, a writer inside is alone, in every reachable state of every interleaving.
\<close>

lemma writer_is_alone:
  assumes "(scoped_step (rw_lock writes) rw_unlock)\<^sup>*\<^sup>* (new_RWMutex, Map.empty) (s, th)"
    and "t \<in> inside th" "writes t"
  shows "inside th = {t}"
proof -
  have "rw_inv writes c" if "(scoped_step (rw_lock writes) rw_unlock)\<^sup>*\<^sup>* (new_RWMutex, Map.empty) c" for c
    using that
  proof (induction rule: rtranclp_induct)
    case base
    then show ?case by (simp add: rw_inv_def inside_def new_RWMutex_def)
  qed (rule rw_inv_step)
  from this [OF assms(1)] show ?thesis using assms(2,3) by (auto simp: rw_inv_def split: if_splits)
qed

lemma writer_is_alone_example:
  "(scoped_step (rw_lock (\<lambda>_. True)) rw_unlock)\<^sup>*\<^sup>* (new_RWMutex, Map.empty) (\<lparr>rw_readers = 0, rw_writer = True\<rparr>, [3 \<mapsto> True]) \<and>
   inside [3 \<mapsto> True] = {3}"
proof -
  have "scoped_new (rw_lock (\<lambda>_. True) 3) new_RWMutex = Some (\<lparr>rw_readers = 0, rw_writer = True\<rparr>, True)"
    by (simp add: scoped_new_def rw_lock_def wrlock_def new_RWMutex_def)
  then have "scoped_step (rw_lock (\<lambda>_. True)) rw_unlock (new_RWMutex, Map.empty)
      (\<lparr>rw_readers = 0, rw_writer = True\<rparr>, Map.empty(3 \<mapsto> True))"
    by (intro scoped_step.construct) simp_all
  then have r: "(scoped_step (rw_lock (\<lambda>_. True)) rw_unlock)\<^sup>*\<^sup>* (new_RWMutex, Map.empty) (\<lparr>rw_readers = 0, rw_writer = True\<rparr>, [3 \<mapsto> True])"
    by blast
  show ?thesis using writer_is_alone [OF r, of 3] r by (simp add: inside_def)
qed

text \<open>A thread that locks a mutex it holds through a second scoped lock waits for ever.\<close>

lemma mutex_not_recursive: "scoped_new mutex_lock True = None"
  by (simp add: scoped_new_def mutex_lock_def)

subsection \<open>Starting a thread\<close>

text \<open>A semaphore is its count; waiting on zero has no result.\<close>

definition sem_wait :: "nat \<Rightarrow> nat option" where
  "sem_wait count = (if count = 0 then None else Some (count - 1))"

definition sem_notify :: "nat \<Rightarrow> nat" where
  "sem_notify count = count + 1"

datatype creator = Creating | Waiting | Started | Failed
datatype 'cb runner = NotRunning | Running | InCallback 'cb | Finished

text \<open>
  The object, where its constructor and the new thread are, the name the new thread knows itself by,
  and the callbacks that have run.
\<close>

record 'cb thread =
  th_id :: int
  th_thread :: bool
  th_name :: string
  th_cb :: "'cb option"
  th_semaphore :: nat
  th_creator :: creator
  th_runner :: "'cb runner"
  th_own_name :: string
  th_ran :: "'cb list"

definition new_Thread :: "'cb \<Rightarrow> string \<Rightarrow> 'cb thread" where
  "new_Thread cb name =
     \<lparr>th_id = -1, th_thread = False, th_name = (if name = [] then ''UNKNOW'' else name), th_cb = Some cb, th_semaphore = 0,
      th_creator = Creating, th_runner = NotRunning, th_own_name = ''UNKNOW'', th_ran = []\<rparr>"

text \<open>\<open>pthread_create\<close> in the constructor, its wait, \<open>run\<close> up to \<open>notify\<close>, and the callback.\<close>

definition thread_create :: "bool \<Rightarrow> 'cb thread \<Rightarrow> 'cb thread" where
  "thread_create ok th = (if ok then th\<lparr>th_thread := True, th_creator := Waiting, th_runner := Running\<rparr> else th\<lparr>th_creator := Failed\<rparr>)"

definition thread_wait :: "'cb thread \<Rightarrow> 'cb thread option" where
  "thread_wait th = map_option (\<lambda>n. th\<lparr>th_semaphore := n, th_creator := Started\<rparr>) (sem_wait (th_semaphore th))"

definition thread_run :: "int \<Rightarrow> 'cb thread \<Rightarrow> 'cb thread res" where
  "thread_run tid th =
     (case th_cb th of
        None \<Rightarrow> Inl NullDeref
      | Some cb \<Rightarrow> Inr (th\<lparr>th_own_name := th_name th, th_id := tid, th_cb := None,
          th_semaphore := sem_notify (th_semaphore th), th_runner := InCallback cb\<rparr>))"

definition thread_callback :: "'cb \<Rightarrow> 'cb thread \<Rightarrow> 'cb thread" where
  "thread_callback cb th = th\<lparr>th_ran := th_ran th @ [cb], th_runner := Finished\<rparr>"

text \<open>
  \<open>join\<close> waits for the end of the thread, so that before it there is no result; \<open>rt\<close> is what
  \<open>pthread_join\<close> gives. \<open>~Thread\<close> detaches a thread that was not joined: the result is whether it does.
\<close>

definition thread_join :: "int \<Rightarrow> 'cb thread \<Rightarrow> 'cb thread res option" where
  "thread_join rt th =
     (if \<not> th_thread th then Some (Inr th)
      else if rt \<noteq> 0 then Some (Inl LogicError)
      else if th_runner th = Finished then Some (Inr (th\<lparr>th_thread := False\<rparr>)) else None)"

definition thread_delete :: "'cb thread \<Rightarrow> bool" where
  "thread_delete th = th_thread th"

inductive thread_step :: "int \<Rightarrow> 'cb thread \<Rightarrow> 'cb thread \<Rightarrow> bool" for tid where
  create: "th_creator th = Creating \<Longrightarrow> thread_step tid th (thread_create ok th)"
| wait: "th_creator th = Waiting \<Longrightarrow> thread_wait th = Some th' \<Longrightarrow> thread_step tid th th'"
| run: "th_runner th = Running \<Longrightarrow> thread_run tid th = Inr th' \<Longrightarrow> thread_step tid th th'"
| callback: "th_runner th = InCallback cb \<Longrightarrow> thread_step tid th (thread_callback cb th)"
| join: "th_creator th = Started \<Longrightarrow> thread_join 0 th = Some (Inr th') \<Longrightarrow> thread_step tid th th'"

definition thread_inv :: "int \<Rightarrow> 'cb \<Rightarrow> string \<Rightarrow> 'cb thread \<Rightarrow> bool" where
  "thread_inv tid cb name th \<longleftrightarrow> th_name th = name \<and> (th_thread th \<longrightarrow> th_runner th \<noteq> NotRunning) \<and>
     (th_creator th = Started \<longrightarrow> \<not> th_thread th \<longrightarrow> th_runner th = Finished) \<and> (th_creator th = Waiting \<longrightarrow> th_thread th) \<and>
     (case th_runner th of
        NotRunning \<Rightarrow> th_creator th \<in> {Creating, Failed} \<and> th_cb th = Some cb \<and> th_semaphore th = 0 \<and> th_ran th = []
      | Running \<Rightarrow> th_creator th = Waiting \<and> th_cb th = Some cb \<and> th_semaphore th = 0 \<and> th_ran th = []
      | r \<Rightarrow> th_creator th \<in> {Waiting, Started} \<and> th_semaphore th = (if th_creator th = Waiting then 1 else 0) \<and>
          th_cb th = None \<and> th_id th = tid \<and> th_own_name th = name \<and>
          (if r = Finished then th_ran th = [cb] else r = InCallback cb \<and> th_ran th = []))"

lemma thread_inv_step: "thread_step tid th th' \<Longrightarrow> thread_inv tid cb name th \<Longrightarrow> thread_inv tid cb name th'"
  by (induction rule: thread_step.induct)
    (auto simp: thread_inv_def thread_create_def thread_wait_def thread_run_def thread_callback_def
      thread_join_def sem_wait_def sem_notify_def
      split: runner.splits if_splits option.splits)



end
