(* ===== verification/Scheduler.thy ===== *)
theory Scheduler
  imports Prelude "HOL-Library.Multiset"
begin

text \<open>
  \<open>sherry/fiber.cc\<close>, \<open>sherry/scheduler.h\<close>, \<open>sherry/scheduler.cc\<close>: fibers and the threads that run
  them. A fiber is a heap object with a state, a callback and a stack; switching to it is the
  change of its state and of the program counter of the thread that switches. One round of
  \<open>Scheduler::run\<close> is three operations: taking a task under the lock, starting it, and what
  follows when the fiber has switched back. Threads interleave between these operations.
  Counters are \<open>size_t\<close>; decrementing wraps. Log lines are left out.
\<close>

subsection \<open>Fibers\<close>

datatype fiber_state = INIT | HOLD | EXEC | TERMINATED | READY | EXCEPT

instantiation fiber_state :: enum
begin

definition enum_fiber_state :: "fiber_state list" where
  "enum_fiber_state = [INIT, HOLD, EXEC, TERMINATED, READY, EXCEPT]"

definition enum_all_fiber_state :: "(fiber_state \<Rightarrow> bool) \<Rightarrow> bool" where
  "enum_all_fiber_state P \<longleftrightarrow> P INIT \<and> P HOLD \<and> P EXEC \<and> P TERMINATED \<and> P READY \<and> P EXCEPT"

definition enum_ex_fiber_state :: "(fiber_state \<Rightarrow> bool) \<Rightarrow> bool" where
  "enum_ex_fiber_state P \<longleftrightarrow> P INIT \<or> P HOLD \<or> P EXEC \<or> P TERMINATED \<or> P READY \<or> P EXCEPT"

instance
proof
  show univ: "UNIV = set (Enum.enum :: fiber_state list)"
    using fiber_state.exhaust by (auto simp: enum_fiber_state_def)
  show "distinct (Enum.enum :: fiber_state list)" by (simp add: enum_fiber_state_def)
  show "Enum.enum_all P \<longleftrightarrow> Ball UNIV P" for P :: "fiber_state \<Rightarrow> bool"
    by (simp add: enum_all_fiber_state_def univ enum_fiber_state_def)
  show "Enum.enum_ex P \<longleftrightarrow> Bex UNIV P" for P :: "fiber_state \<Rightarrow> bool"
    by (simp add: enum_ex_fiber_state_def univ enum_fiber_state_def)
qed

end

record 'cb fiber =
  fb_state :: fiber_state
  fb_cb :: "'cb option"
  fb_stack :: bool

text \<open>The fibers by address, the next free address and the two global counters.\<close>

record 'cb fibers =
  f_heap :: "nat \<Rightarrow> 'cb fiber"
  f_next :: nat
  s_fiber_id :: nat
  s_fiber_count :: nat

definition set_state :: "nat \<Rightarrow> fiber_state \<Rightarrow> 'cb fibers \<Rightarrow> 'cb fibers" where
  "set_state f st h = h\<lparr>f_heap := (f_heap h)(f := (f_heap h f)\<lparr>fb_state := st\<rparr>)\<rparr>"

definition getState :: "nat \<Rightarrow> 'cb fibers \<Rightarrow> fiber_state" where
  "getState f h = fb_state (f_heap h f)"

definition new_Fiber :: "'cb \<Rightarrow> 'cb fibers \<Rightarrow> nat \<times> 'cb fibers" where
  "new_Fiber cb h =
     (f_next h, h\<lparr>f_heap := (f_heap h)(f_next h := \<lparr>fb_state = INIT, fb_cb = Some cb, fb_stack = True\<rparr>),
        f_next := f_next h + 1, s_fiber_id := s_fiber_id h + 1, s_fiber_count := s_fiber_count h + 1\<rparr>)"

text \<open>The private constructor: the fiber of a thread itself.\<close>

definition new_main_Fiber :: "'cb fibers \<Rightarrow> nat \<times> 'cb fibers" where
  "new_main_Fiber h =
     (f_next h, h\<lparr>f_heap := (f_heap h)(f_next h := \<lparr>fb_state = EXEC, fb_cb = None, fb_stack = False\<rparr>),
        f_next := f_next h + 1, s_fiber_count := s_fiber_count h + 1\<rparr>)"

text \<open>The destructor's assertions.\<close>

definition delete_Fiber :: "nat \<Rightarrow> 'cb fibers \<Rightarrow> 'cb fibers res" where
  "delete_Fiber f h =
     (let h' = h\<lparr>s_fiber_count := size_sub (s_fiber_count h) 1\<rparr>; fb = f_heap h f in
      if fb_stack fb then
        if fb_state fb = TERMINATED \<or> fb_state fb = EXCEPT \<or> fb_state fb = INIT then Inr h' else Inl AssertFail
      else if fb_cb fb = None \<and> fb_state fb = EXEC then Inr h' else Inl AssertFail)"

text \<open>\<open>reset\<close>; the callback may be the null function.\<close>

definition fiber_reset :: "nat \<Rightarrow> 'cb option \<Rightarrow> 'cb fibers \<Rightarrow> 'cb fibers res" where
  "fiber_reset f cb h =
     (if \<not> fb_stack (f_heap h f) then Inl AssertFail
      else if getState f h \<notin> {TERMINATED, INIT, EXCEPT} then Inl AssertFail
      else Inr (h\<lparr>f_heap := (f_heap h)(f := (f_heap h f)\<lparr>fb_cb := cb, fb_state := INIT\<rparr>)\<rparr>))"

definition swapIn :: "nat \<Rightarrow> 'cb fibers \<Rightarrow> 'cb fibers res" where
  "swapIn f h = (if getState f h = EXEC then Inl AssertFail else Inr (set_state f EXEC h))"

text \<open>
  What running code does to the state of its own fiber before it switches back: \<open>YieldToReady\<close>,
  \<open>YieldToHold\<close>, the two ends of \<open>MainFunc\<close>, and a bare \<open>swapOut\<close> (the idle loops).
\<close>

datatype leaving = YieldToReady | YieldToHold | Returned | Threw | SwapOut

fun leave :: "leaving \<Rightarrow> nat \<Rightarrow> 'cb fibers \<Rightarrow> 'cb fibers" where
  "leave YieldToReady f h = set_state f READY h"
| "leave YieldToHold f h = set_state f HOLD h"
| "leave Returned f h = h\<lparr>f_heap := (f_heap h)(f := (f_heap h f)\<lparr>fb_cb := None, fb_state := TERMINATED\<rparr>)\<rparr>"
| "leave Threw f h = set_state f EXCEPT h"
| "leave SwapOut f h = h"

subsection \<open>The scheduler\<close>

text \<open>\<open>FiberAndThread\<close>; thread -1 is any thread.\<close>

record 'cb task =
  ft_fiber :: "nat option"
  ft_cb :: "'cb option"
  ft_thread :: int

definition empty_task :: "'cb task" where
  "empty_task = \<lparr>ft_fiber = None, ft_cb = None, ft_thread = -1\<rparr>"

definition fiber_task :: "nat option \<Rightarrow> int \<Rightarrow> 'cb task" where
  "fiber_task f thr = \<lparr>ft_fiber = f, ft_cb = None, ft_thread = thr\<rparr>"

definition cb_task :: "'cb option \<Rightarrow> int \<Rightarrow> 'cb task" where
  "cb_task cb thr = \<lparr>ft_fiber = None, ft_cb = cb, ft_thread = thr\<rparr>"

record 'cb scheduler =
  m_fibers :: "'cb task list"
  m_rootFiber :: bool
  m_threads :: nat
  m_threadIds :: "int list"
  m_threadCount :: nat
  m_activeThreadCount :: nat
  m_idleThreadCount :: nat
  m_stopping :: bool
  m_autoStop :: bool
  m_rootThread :: int

text \<open>
  The constructor. \<open>fiber_id\<close> is \<open>GetFiberId()\<close>, which is stored as the root thread, and
  \<open>has_scheduler\<close> tells whether the thread has a scheduler already.
\<close>

definition new_Scheduler :: "nat \<Rightarrow> bool \<Rightarrow> int \<Rightarrow> bool \<Rightarrow> 'cb scheduler res" where
  "new_Scheduler threads use_caller fiber_id has_scheduler =
     (if threads = 0 then Inl AssertFail
      else if use_caller \<and> has_scheduler then Inl AssertFail
      else Inr \<lparr>m_fibers = [], m_rootFiber = use_caller, m_threads = 0,
        m_threadIds = (if use_caller then [fiber_id] else []),
        m_threadCount = (if use_caller then threads - 1 else threads), m_activeThreadCount = 0,
        m_idleThreadCount = 0, m_stopping = True, m_autoStop = False,
        m_rootThread = (if use_caller then fiber_id else -1)\<rparr>)"

text \<open>\<open>start\<close>; \<open>ids\<close> are the identifiers of the threads it creates.\<close>

definition sched_start :: "int list \<Rightarrow> 'cb scheduler \<Rightarrow> 'cb scheduler res" where
  "sched_start ids s =
     (if \<not> m_stopping s then Inr s
      else if m_threads s \<noteq> 0 then Inl AssertFail
      else Inr (s\<lparr>m_stopping := False, m_threads := m_threadCount s,
                  m_threadIds := m_threadIds s @ take (m_threadCount s) ids\<rparr>))"

definition sched_stopping :: "'cb scheduler \<Rightarrow> bool" where
  "sched_stopping s \<longleftrightarrow> m_autoStop s \<and> m_stopping s \<and> m_fibers s = [] \<and> m_activeThreadCount s = 0"

text \<open>
  \<open>stop\<close> up to the joining of the threads, for a \<open>stopping\<close> that may be the one of a subclass:
  the result tells whether it returned early, how often it calls \<open>tickle\<close> and whether it calls
  the root fiber.
\<close>

definition sched_stop ::
  "('cb scheduler \<Rightarrow> bool) \<Rightarrow> fiber_state \<Rightarrow> bool \<Rightarrow> 'cb scheduler \<Rightarrow> ((bool \<times> nat \<times> bool) \<times> 'cb scheduler) res" where
  "sched_stop stopping root_state is_this s =
     (let s = s\<lparr>m_autoStop := True\<rparr>;
          last = m_rootFiber s \<and> m_threadCount s = 0 \<and> (root_state = TERMINATED \<or> root_state = INIT);
          s = (if last then s\<lparr>m_stopping := True\<rparr> else s)
      in
      if last \<and> stopping s then Inr ((True, 0, False), s)
      else if (m_rootThread s \<noteq> -1) \<noteq> is_this then Inl AssertFail
      else
        let s = s\<lparr>m_stopping := True\<rparr> in
        Inr ((False, m_threadCount s + (if m_rootFiber s then 1 else 0), m_rootFiber s \<and> \<not> stopping s),
             s\<lparr>m_threads := 0\<rparr>))"

subsection \<open>Scheduling\<close>

definition has_work :: "'cb task \<Rightarrow> bool" where
  "has_work t \<longleftrightarrow> ft_fiber t \<noteq> None \<or> ft_cb t \<noteq> None"

text \<open>\<open>scheduleNoLock\<close>: the result is \<open>need_tickle\<close>.\<close>

definition scheduleNoLock :: "'cb task \<Rightarrow> 'cb scheduler \<Rightarrow> bool \<times> 'cb scheduler" where
  "scheduleNoLock ft s =
     (m_fibers s = [], if has_work ft then s\<lparr>m_fibers := m_fibers s @ [ft]\<rparr> else s)"

text \<open>\<open>schedule\<close> of one task and of a range; \<open>tickle\<close> is called after the lock is released.\<close>

definition schedule :: "('cb scheduler \<Rightarrow> 'cb scheduler) \<Rightarrow> 'cb task \<Rightarrow> 'cb scheduler \<Rightarrow> 'cb scheduler" where
  "schedule tickle ft s = (case scheduleNoLock ft s of (need_tickle, s) \<Rightarrow> if need_tickle then tickle s else s)"

fun schedule_range_loop :: "'cb task list \<Rightarrow> bool \<Rightarrow> 'cb scheduler \<Rightarrow> bool \<times> 'cb scheduler" where
  "schedule_range_loop [] need_tickle s = (need_tickle, s)"
| "schedule_range_loop (ft # fts) need_tickle s =
     (case scheduleNoLock ft s of (b, s) \<Rightarrow> schedule_range_loop fts (b \<or> need_tickle) s)"

text \<open>The queue loop of \<open>run\<close>: the task taken, \<open>tickle_me\<close> and the queue that is left.\<close>

fun pick :: "int \<Rightarrow> (nat \<Rightarrow> fiber_state) \<Rightarrow> 'cb task list \<Rightarrow> ('cb task option \<times> bool \<times> 'cb task list) res" where
  "pick tid st [] = Inr (None, False, [])"
| "pick tid st (t # ts) =
     (if ft_thread t \<noteq> -1 \<and> ft_thread t \<noteq> tid then
        bindR (pick tid st ts) (\<lambda>(r, _, q). Inr (r, True, t # q))
      else if \<not> has_work t then Inl AssertFail
      else if (case ft_fiber t of Some f \<Rightarrow> st f = EXEC | None \<Rightarrow> False) then
        bindR (pick tid st ts) (\<lambda>(r, tickle_me, q). Inr (r, tickle_me, t # q))
      else Inr (Some t, False, ts))"

subsection \<open>A thread of the scheduler\<close>

text \<open>
  The program counter of a thread in \<open>run\<close>: at the head of the loop, after the queue loop with
  \<open>ft\<close> and \<open>is_active\<close>, inside a scheduled fiber, inside \<open>cb_fiber\<close>, inside the idle fiber, or
  behind the loop.
\<close>

datatype 'cb pc = Loop | Chosen "'cb task" bool | InFiber nat | InCb | InIdle | Exited

record 'cb worker =
  w_pc :: "'cb pc"
  w_left :: bool            \<comment> \<open>the running fiber has set its state and is about to switch\<close>
  w_cb_fiber :: "nat option"
  w_idle_fiber :: nat

record 'cb conf =
  c_sched :: "'cb scheduler"
  c_fibers :: "'cb fibers"
  c_workers :: "int \<Rightarrow> 'cb worker"

definition set_pc :: "int \<Rightarrow> 'cb pc \<Rightarrow> 'cb conf \<Rightarrow> 'cb conf" where
  "set_pc tid p c = c\<lparr>c_workers := (c_workers c)(tid := (c_workers c tid)\<lparr>w_pc := p, w_left := False\<rparr>)\<rparr>"

definition set_cb_fiber :: "int \<Rightarrow> nat option \<Rightarrow> 'cb conf \<Rightarrow> 'cb conf" where
  "set_cb_fiber tid f c = c\<lparr>c_workers := (c_workers c)(tid := (c_workers c tid)\<lparr>w_cb_fiber := f\<rparr>)\<rparr>"

definition run_take :: "int \<Rightarrow> 'cb conf \<Rightarrow> (bool \<times> 'cb conf) res" where
  "run_take tid c =
     bindR (pick tid (\<lambda>f. getState f (c_fibers c)) (m_fibers (c_sched c))) (\<lambda>(r, tickle_me, q).
       case r of
         None \<Rightarrow> Inr (tickle_me, set_pc tid (Chosen empty_task False) c)
       | Some ft \<Rightarrow> Inr (tickle_me, set_pc tid (Chosen ft True)
           (c\<lparr>c_sched := (c_sched c)\<lparr>m_fibers := q, m_activeThreadCount := m_activeThreadCount (c_sched c) + 1\<rparr>\<rparr>)))"

definition active_dec :: "'cb conf \<Rightarrow> 'cb conf" where
  "active_dec c = c\<lparr>c_sched := (c_sched c)\<lparr>m_activeThreadCount := size_sub (m_activeThreadCount (c_sched c)) 1\<rparr>\<rparr>"

text \<open>From the chosen task to the switch into a fiber.\<close>

definition start_cb :: "int \<Rightarrow> 'cb \<Rightarrow> 'cb conf \<Rightarrow> 'cb conf res" where
  "start_cb tid cb c =
     bindR (case w_cb_fiber (c_workers c tid) of
              Some f \<Rightarrow> bindR (fiber_reset f (Some cb) (c_fibers c)) (\<lambda>h. Inr (f, h))
            | None \<Rightarrow> Inr (new_Fiber cb (c_fibers c))) (\<lambda>(f, h).
     bindR (swapIn f h) (\<lambda>h. Inr (set_pc tid InCb (set_cb_fiber tid (Some f) (c\<lparr>c_fibers := h\<rparr>)))))"

definition run_idle :: "int \<Rightarrow> bool \<Rightarrow> 'cb conf \<Rightarrow> 'cb conf res" where
  "run_idle tid is_active c =
     (if is_active then Inr (set_pc tid Loop (active_dec c))
      else
        let idle = w_idle_fiber (c_workers c tid) in
        if getState idle (c_fibers c) = TERMINATED then Inr (set_pc tid Exited c)
        else bindR (swapIn idle (c_fibers c)) (\<lambda>h. Inr (set_pc tid InIdle
          (c\<lparr>c_sched := (c_sched c)\<lparr>m_idleThreadCount := m_idleThreadCount (c_sched c) + 1\<rparr>,
             c_fibers := h\<rparr>))))"

definition run_start :: "int \<Rightarrow> 'cb task \<Rightarrow> bool \<Rightarrow> 'cb conf \<Rightarrow> 'cb conf res" where
  "run_start tid ft is_active c =
     (let live = (case ft_fiber ft of
                    Some f \<Rightarrow> if getState f (c_fibers c) \<noteq> TERMINATED \<and> getState f (c_fibers c) \<noteq> EXCEPT
                              then Some f else None
                  | None \<Rightarrow> None)
      in case live of
           Some f \<Rightarrow> bindR (swapIn f (c_fibers c)) (\<lambda>h. Inr (set_pc tid (InFiber f) (c\<lparr>c_fibers := h\<rparr>)))
         | None \<Rightarrow> (case ft_cb ft of Some cb \<Rightarrow> start_cb tid cb c | None \<Rightarrow> run_idle tid is_active c))"

text \<open>What follows when the fiber has switched back; \<open>tickle\<close> is the one of the subclass.\<close>

definition hold :: "nat \<Rightarrow> 'cb conf \<Rightarrow> 'cb conf" where
  "hold f c = c\<lparr>c_fibers := set_state f HOLD (c_fibers c)\<rparr>"

definition reschedule :: "('cb scheduler \<Rightarrow> 'cb scheduler) \<Rightarrow> nat \<Rightarrow> 'cb conf \<Rightarrow> 'cb conf" where
  "reschedule tickle f c = c\<lparr>c_sched := schedule tickle (fiber_task (Some f) (-1)) (c_sched c)\<rparr>"

definition back_from_fiber :: "('cb scheduler \<Rightarrow> 'cb scheduler) \<Rightarrow> int \<Rightarrow> nat \<Rightarrow> 'cb conf \<Rightarrow> 'cb conf" where
  "back_from_fiber tickle tid f c =
     (let c = active_dec c; st = getState f (c_fibers c);
          c = (if st = READY then reschedule tickle f c
               else if st \<noteq> TERMINATED \<and> st \<noteq> EXCEPT then hold f c else c)
      in set_pc tid Loop c)"

definition back_from_cb :: "('cb scheduler \<Rightarrow> 'cb scheduler) \<Rightarrow> int \<Rightarrow> 'cb conf \<Rightarrow> 'cb conf res" where
  "back_from_cb tickle tid c =
     (case w_cb_fiber (c_workers c tid) of
        None \<Rightarrow> Inl NullDeref
      | Some f \<Rightarrow>
          let c = active_dec c; st = getState f (c_fibers c) in
          if st = READY then Inr (set_pc tid Loop (set_cb_fiber tid None (reschedule tickle f c)))
          else if st = EXCEPT \<or> st = TERMINATED then
            bindR (fiber_reset f None (c_fibers c)) (\<lambda>h. Inr (set_pc tid Loop (c\<lparr>c_fibers := h\<rparr>)))
          else Inr (set_pc tid Loop (set_cb_fiber tid None (hold f c))))"

definition back_from_idle :: "int \<Rightarrow> 'cb conf \<Rightarrow> 'cb conf" where
  "back_from_idle tid c =
     (let idle = w_idle_fiber (c_workers c tid);
          c = c\<lparr>c_sched := (c_sched c)\<lparr>m_idleThreadCount := size_sub (m_idleThreadCount (c_sched c)) 1\<rparr>\<rparr>;
          st = getState idle (c_fibers c);
          c = (if st \<noteq> TERMINATED \<and> st \<noteq> EXCEPT then hold idle c else c)
      in set_pc tid Loop c)"


subsection \<open>Steps\<close>

text \<open>The fiber a thread executes.\<close>

fun running :: "'cb worker \<Rightarrow> nat option" where
  "running w = (case w_pc w of InFiber f \<Rightarrow> Some f | InCb \<Rightarrow> w_cb_fiber w | InIdle \<Rightarrow> Some (w_idle_fiber w) | _ \<Rightarrow> None)"

definition run_leave :: "leaving \<Rightarrow> nat \<Rightarrow> int \<Rightarrow> 'cb conf \<Rightarrow> 'cb conf" where
  "run_leave l f tid c = c\<lparr>c_fibers := leave l f (c_fibers c),
     c_workers := (c_workers c)(tid := (c_workers c tid)\<lparr>w_left := True\<rparr>)\<rparr>"

text \<open>
  The threads \<open>T\<close> of a scheduler and its environment, which schedules tasks at any time. A fiber
  that leaves has set its state in one step and is back in the loop of \<open>run\<close> in a later one.
  The plain scheduler's \<open>tickle\<close> only logs.
\<close>

inductive sched_step :: "int set \<Rightarrow> 'cb conf \<Rightarrow> 'cb conf \<Rightarrow> bool" for T where
  Schedule: "sched_step T c (c\<lparr>c_sched := schedule id ft (c_sched c)\<rparr>)"
| Take: "tid \<in> T \<Longrightarrow> w_pc (c_workers c tid) = Loop \<Longrightarrow> run_take tid c = Inr (b, c') \<Longrightarrow> sched_step T c c'"
| Start: "tid \<in> T \<Longrightarrow> w_pc (c_workers c tid) = Chosen ft a \<Longrightarrow> run_start tid ft a c = Inr c' \<Longrightarrow> sched_step T c c'"
| Leave: "tid \<in> T \<Longrightarrow> running (c_workers c tid) = Some f \<Longrightarrow> \<not> w_left (c_workers c tid) \<Longrightarrow>
     sched_step T c (run_leave l f tid c)"
| Fiber: "tid \<in> T \<Longrightarrow> w_pc (c_workers c tid) = InFiber f \<Longrightarrow> w_left (c_workers c tid) \<Longrightarrow>
     sched_step T c (back_from_fiber id tid f c)"
| Cb: "tid \<in> T \<Longrightarrow> w_pc (c_workers c tid) = InCb \<Longrightarrow> w_left (c_workers c tid) \<Longrightarrow>
     back_from_cb id tid c = Inr c' \<Longrightarrow> sched_step T c c'"
| Idle: "tid \<in> T \<Longrightarrow> w_pc (c_workers c tid) = InIdle \<Longrightarrow> w_left (c_workers c tid) \<Longrightarrow>
     sched_step T c (back_from_idle tid c)"

text \<open>Every thread enters \<open>run\<close> with an empty queue; its fibers are in any state.\<close>

definition sched_init :: "'cb conf \<Rightarrow> bool" where
  "sched_init c \<longleftrightarrow> m_fibers (c_sched c) = [] \<and> m_activeThreadCount (c_sched c) = 0
     \<and> m_idleThreadCount (c_sched c) = 0 \<and> (\<forall>tid. w_pc (c_workers c tid) = Loop)"

inductive sched_reach :: "int set \<Rightarrow> 'cb conf \<Rightarrow> bool" for T where
  init: "sched_init c \<Longrightarrow> sched_reach T c"
| step: "sched_reach T c \<Longrightarrow> sched_step T c c' \<Longrightarrow> sched_reach T c'"

inductive_cases sched_stepE: "sched_step T c c'"

subsection \<open>The queue\<close>

definition runnable :: "int \<Rightarrow> (nat \<Rightarrow> fiber_state) \<Rightarrow> 'cb task \<Rightarrow> bool" where
  "runnable tid st t \<longleftrightarrow> (ft_thread t = -1 \<or> ft_thread t = tid) \<and> (\<forall>f. ft_fiber t = Some f \<longrightarrow> st f \<noteq> EXEC)"

definition foreign :: "int \<Rightarrow> 'cb task \<Rightarrow> bool" where
  "foreign tid t \<longleftrightarrow> ft_thread t \<noteq> -1 \<and> ft_thread t \<noteq> tid"

lemma pick_skip:
  assumes "\<not> runnable tid st t" "has_work t"
  shows "pick tid st (t # ts) = bindR (pick tid st ts) (\<lambda>(r, b, q). Inr (r, foreign tid t \<or> b, t # q))"
  using assms by (auto simp: runnable_def foreign_def split: option.splits intro!: arg_cong2 [where f = bindR])

text \<open>
  The queue loop takes the first task this thread may run and keeps the order of the others.
\<close>

lemma pick_cases:
  assumes "list_all has_work q"
  shows "(pick tid st q = Inr (None, \<exists>t\<in>set q. foreign tid t, q) \<and> (\<forall>t\<in>set q. \<not> runnable tid st t))
    \<or> (\<exists>t q1 q2. pick tid st q = Inr (Some t, \<exists>t\<in>set q1. foreign tid t, q1 @ q2) \<and> q = q1 @ t # q2
        \<and> runnable tid st t \<and> (\<forall>t\<in>set q1. \<not> runnable tid st t))"
  using assms
proof (induction q)
  case (Cons t q)
  show ?case
  proof (cases "runnable tid st t")
    case True
    then have "pick tid st (t # q) = Inr (Some t, False, q)"
      using Cons.prems by (auto simp: runnable_def split: option.splits)
    then show ?thesis using True by (intro disjI2 exI [of _ t] exI [of _ "[]"] exI [of _ q]) simp
  next
    case False
    note skip = pick_skip [OF False, of q]
    from Cons consider "pick tid st q = Inr (None, \<exists>t\<in>set q. foreign tid t, q)" "\<forall>t\<in>set q. \<not> runnable tid st t"
      | u q1 q2 where "pick tid st q = Inr (Some u, \<exists>t\<in>set q1. foreign tid t, q1 @ q2)" "q = q1 @ u # q2"
        "runnable tid st u" "\<forall>t\<in>set q1. \<not> runnable tid st t" by auto
    then show ?thesis
    proof cases
      case 1
      then show ?thesis using skip False Cons.prems by simp
    next
      case 2
      then show ?thesis using skip False Cons.prems
        by (intro disjI2 exI [of _ u] exI [of _ "t # q1"] exI [of _ q2]) simp
    qed
  qed
qed simp

subsection \<open>The counters\<close>

fun busy :: "'cb pc \<Rightarrow> bool" where
  "busy (Chosen ft a) = a"
| "busy (InFiber f) = True"
| "busy InCb = True"
| "busy _ = False"

fun idling :: "'cb pc \<Rightarrow> bool" where
  "idling InIdle = True"
| "idling _ = False"

fun pc_ok :: "'cb worker \<Rightarrow> bool" where
  "pc_ok w = (case w_pc w of Chosen ft a \<Rightarrow> a = has_work ft | InCb \<Rightarrow> w_cb_fiber w \<noteq> None | _ \<Rightarrow> True)"

definition threads_in :: "('cb pc \<Rightarrow> bool) \<Rightarrow> int set \<Rightarrow> 'cb conf \<Rightarrow> nat" where
  "threads_in P T c = card {tid \<in> T. P (w_pc (c_workers c tid))}"

definition sched_inv :: "int set \<Rightarrow> 'cb conf \<Rightarrow> bool" where
  "sched_inv T c \<longleftrightarrow> list_all has_work (m_fibers (c_sched c))
     \<and> m_activeThreadCount (c_sched c) = threads_in busy T c
     \<and> m_idleThreadCount (c_sched c) = threads_in idling T c
     \<and> (\<forall>tid\<in>T. pc_ok (c_workers c tid))"

text \<open>Moving one thread changes the number of threads in a class by at most one.\<close>

lemma threads_in_move:
  assumes "finite T" "tid \<in> T" "\<And>t. t \<noteq> tid \<Longrightarrow> w_pc (c_workers c' t) = w_pc (c_workers c t)"
    and "n = threads_in P T c"
  shows "threads_in P T c' =
    (if P (w_pc (c_workers c tid)) then if P (w_pc (c_workers c' tid)) then n else n - 1
     else if P (w_pc (c_workers c' tid)) then n + 1 else n)"
proof -
  have split: "{t \<in> T. P (w_pc (c_workers d t))} =
      (if P (w_pc (c_workers d tid)) then insert tid {t \<in> T - {tid}. P (w_pc (c_workers d t))}
       else {t \<in> T - {tid}. P (w_pc (c_workers d t))})" for d :: "'a conf"
    using assms(2) by auto
  have rest: "{t \<in> T - {tid}. P (w_pc (c_workers c' t))} = {t \<in> T - {tid}. P (w_pc (c_workers c t))}"
    using assms(3) by auto
  have "finite {t \<in> T - {tid}. P (w_pc (c_workers c t))}" using assms(1) by simp
  then show ?thesis
    unfolding assms(4) threads_in_def split [of c] split [of c'] rest by simp
qed

lemma threads_in_pos:
  "finite T \<Longrightarrow> tid \<in> T \<Longrightarrow> P (w_pc (c_workers c tid)) \<Longrightarrow> 0 < threads_in P T c"
  by (auto simp: threads_in_def card_gt_0_iff)

text \<open>
  The invariant after one thread has moved, for what it has done to the queue and the counters.
\<close>

lemma sched_inv_move:
  assumes "sched_inv T c" "finite T" "tid \<in> T"
    and "\<And>t. t \<noteq> tid \<Longrightarrow> c_workers c' t = c_workers c t"
    and "list_all has_work (m_fibers (c_sched c'))" "pc_ok (c_workers c' tid)"
    and "m_activeThreadCount (c_sched c') + of_bool (busy (w_pc (c_workers c tid)))
       = m_activeThreadCount (c_sched c) + of_bool (busy (w_pc (c_workers c' tid)))"
    and "m_idleThreadCount (c_sched c') + of_bool (idling (w_pc (c_workers c tid)))
       = m_idleThreadCount (c_sched c) + of_bool (idling (w_pc (c_workers c' tid)))"
  shows "sched_inv T c'"
proof -
  have pc: "\<And>t. t \<noteq> tid \<Longrightarrow> w_pc (c_workers c' t) = w_pc (c_workers c t)" using assms(4) by simp
  have pos: "P (w_pc (c_workers c tid)) \<Longrightarrow> 0 < threads_in P T c" for P
    using threads_in_pos assms(2,3) by blast
  have "m_activeThreadCount (c_sched c') = threads_in busy T c'"
    using assms(1,7) pos [of busy] threads_in_move [OF assms(2,3) pc refl, of busy]
    by (auto simp: sched_inv_def split: if_splits)
  moreover have "m_idleThreadCount (c_sched c') = threads_in idling T c'"
    using assms(1,8) pos [of idling] threads_in_move [OF assms(2,3) pc refl, of idling]
    by (auto simp: sched_inv_def split: if_splits)
  moreover have "pc_ok (c_workers c' t)" if "t \<in> T" for t
    using that assms(1,4,6) by (cases "t = tid") (auto simp: sched_inv_def simp del: pc_ok.simps)
  ultimately show ?thesis using assms(5) by (simp add: sched_inv_def del: pc_ok.simps)
qed

subsection \<open>Every step keeps the invariant\<close>

named_theorems conf_simps \<open>fields of a configuration after an update\<close>

lemma set_pc_fields [conf_simps]:
  "c_sched (set_pc tid p c) = c_sched c" "c_fibers (set_pc tid p c) = c_fibers c"
  "c_workers (set_pc tid p c) t = (if t = tid then (c_workers c t)\<lparr>w_pc := p, w_left := False\<rparr> else c_workers c t)"
  by (simp_all add: set_pc_def)

lemma set_cb_fiber_fields [conf_simps]:
  "c_sched (set_cb_fiber tid f c) = c_sched c" "c_fibers (set_cb_fiber tid f c) = c_fibers c"
  "c_workers (set_cb_fiber tid f c) t = (if t = tid then (c_workers c t)\<lparr>w_cb_fiber := f\<rparr> else c_workers c t)"
  by (simp_all add: set_cb_fiber_def)

lemma active_dec_fields [conf_simps]:
  "c_workers (active_dec c) = c_workers c" "c_fibers (active_dec c) = c_fibers c"
  "m_fibers (c_sched (active_dec c)) = m_fibers (c_sched c)"
  "m_idleThreadCount (c_sched (active_dec c)) = m_idleThreadCount (c_sched c)"
  "m_activeThreadCount (c_sched (active_dec c)) = size_sub (m_activeThreadCount (c_sched c)) 1"
  by (simp_all add: active_dec_def)

lemma hold_fields [conf_simps]: "c_sched (hold f c) = c_sched c" "c_workers (hold f c) = c_workers c"
  by (simp_all add: hold_def)

lemma schedule_id_fields [conf_simps]:
  "m_fibers (schedule id ft s) = m_fibers s @ (if has_work ft then [ft] else [])"
  "m_activeThreadCount (schedule id ft s) = m_activeThreadCount s"
  "m_idleThreadCount (schedule id ft s) = m_idleThreadCount s"
  by (simp_all add: schedule_def scheduleNoLock_def)

lemma reschedule_fields [conf_simps]:
  "m_fibers (c_sched (reschedule id f c)) = m_fibers (c_sched c) @ [fiber_task (Some f) (-1)]"
  "m_activeThreadCount (c_sched (reschedule id f c)) = m_activeThreadCount (c_sched c)"
  "m_idleThreadCount (c_sched (reschedule id f c)) = m_idleThreadCount (c_sched c)"
  "c_workers (reschedule id f c) = c_workers c" "c_fibers (reschedule id f c) = c_fibers c"
  by (simp_all add: reschedule_def schedule_id_fields has_work_def fiber_task_def)

lemma has_work_fiber_task [simp]: "has_work (fiber_task (Some f) thr)"
  by (simp add: has_work_def fiber_task_def)

lemma inv_counts:
  assumes "sched_inv T c" "finite T" "tid \<in> T"
  shows "list_all has_work (m_fibers (c_sched c))" "pc_ok (c_workers c tid)"
    "busy (w_pc (c_workers c tid)) \<Longrightarrow> 0 < m_activeThreadCount (c_sched c)"
    "idling (w_pc (c_workers c tid)) \<Longrightarrow> 0 < m_idleThreadCount (c_sched c)"
  using assms threads_in_pos [of T tid busy c] threads_in_pos [of T tid idling c]
  unfolding sched_inv_def by auto

lemma Take_inv:
  assumes inv: "sched_inv T c" "finite T" "tid \<in> T" and pc: "w_pc (c_workers c tid) = Loop"
  shows "\<exists>b c'. run_take tid c = Inr (b, c') \<and> sched_inv T c'"
proof -
  note work = inv_counts(1) [OF inv]
  from pick_cases [OF work, of tid "\<lambda>f. getState f (c_fibers c)"] show ?thesis
  proof (elim disjE exE conjE)
    assume "pick tid (\<lambda>f. getState f (c_fibers c)) (m_fibers (c_sched c)) =
      Inr (None, \<exists>t\<in>set (m_fibers (c_sched c)). foreign tid t, m_fibers (c_sched c))"
    then show ?thesis using work pc
      by (auto simp: run_take_def conf_simps has_work_def empty_task_def intro!: sched_inv_move [OF inv])
  next
    fix t q1 q2
    assume "pick tid (\<lambda>f. getState f (c_fibers c)) (m_fibers (c_sched c)) =
      Inr (Some t, \<exists>t\<in>set q1. foreign tid t, q1 @ q2)" "m_fibers (c_sched c) = q1 @ t # q2"
    then show ?thesis using work pc
      by (auto simp: run_take_def conf_simps intro!: sched_inv_move [OF inv])
  qed
qed

lemma start_cb_inv:
  assumes inv: "sched_inv T c" "finite T" "tid \<in> T" and pc: "w_pc (c_workers c tid) = Chosen ft True"
    and run: "start_cb tid cb c = Inr c'"
  shows "sched_inv T c'"
  using run inv_counts [OF inv] pc
  by (auto simp: start_cb_def conf_simps res_simps split: option.splits intro!: sched_inv_move [OF inv])

lemma Start_inv:
  assumes inv: "sched_inv T c" "finite T" "tid \<in> T" and pc: "w_pc (c_workers c tid) = Chosen ft a"
    and run: "run_start tid ft a c = Inr c'"
  shows "sched_inv T c'"
proof -
  have a: "a = has_work ft" using inv_counts(2) [OF inv] pc by simp
  consider f where "ft_fiber ft = Some f" "getState f (c_fibers c) \<noteq> TERMINATED" "getState f (c_fibers c) \<noteq> EXCEPT"
      "bindR (swapIn f (c_fibers c)) (\<lambda>h. Inr (set_pc tid (InFiber f) (c\<lparr>c_fibers := h\<rparr>))) = Inr c'"
    | cb where "ft_cb ft = Some cb" "start_cb tid cb c = Inr c'"
    | "ft_cb ft = None" "run_idle tid a c = Inr c'"
    using run by (auto simp: run_start_def Let_def split: option.splits if_splits)
  then show ?thesis
  proof cases
    case 1
    then show ?thesis using inv_counts [OF inv] pc a
      by (auto simp: conf_simps res_simps has_work_def intro!: sched_inv_move [OF inv])
  next
    case 2
    then show ?thesis using start_cb_inv [OF inv _ 2(2)] pc a by (simp add: has_work_def)
  next
    case 3
    then show ?thesis using inv_counts [OF inv] pc
      by (auto simp: run_idle_def Let_def conf_simps res_simps split: if_splits intro!: sched_inv_move [OF inv])
  qed
qed

lemma Leave_inv:
  assumes inv: "sched_inv T c" "finite T" "tid \<in> T"
  shows "sched_inv T (run_leave l f tid c)"
  using inv_counts [OF inv] by (intro sched_inv_move [OF inv]) (auto simp: run_leave_def split: pc.splits)

lemma Fiber_inv:
  assumes inv: "sched_inv T c" "finite T" "tid \<in> T" and pc: "w_pc (c_workers c tid) = InFiber f"
  shows "sched_inv T (back_from_fiber id tid f c)"
  using inv_counts [OF inv] pc
  by (intro sched_inv_move [OF inv]) (auto simp: back_from_fiber_def Let_def conf_simps)

lemma Cb_inv:
  assumes inv: "sched_inv T c" "finite T" "tid \<in> T" and pc: "w_pc (c_workers c tid) = InCb"
    and run: "back_from_cb id tid c = Inr c'"
  shows "sched_inv T c'"
  using run inv_counts [OF inv] pc
  by (intro sched_inv_move [OF inv])
    (auto simp: back_from_cb_def Let_def conf_simps res_simps split: option.splits if_splits)

lemma Idle_inv:
  assumes inv: "sched_inv T c" "finite T" "tid \<in> T" and pc: "w_pc (c_workers c tid) = InIdle"
  shows "sched_inv T (back_from_idle tid c)"
  using inv_counts [OF inv] pc
  by (intro sched_inv_move [OF inv]) (auto simp: back_from_idle_def Let_def conf_simps)

lemma step_inv:
  assumes step: "sched_step T c c'" and inv: "sched_inv T c" "finite T"
  shows "sched_inv T c'"
  using step
proof (cases rule: sched_step.cases)
  case (Schedule ft)
  then show ?thesis using inv by (auto simp: sched_inv_def threads_in_def conf_simps)
next
  case (Take tid b)
  then show ?thesis using Take_inv [OF inv, of tid] by auto
next
  case (Start tid ft a)
  from Start_inv [OF inv this] show ?thesis .
next
  case (Leave tid f l)
  from Leave_inv [OF inv Leave(2)] show ?thesis unfolding Leave(1) .
next
  case (Fiber tid f)
  from Fiber_inv [OF inv Fiber(2,3)] show ?thesis unfolding Fiber(1) .
next
  case (Cb tid)
  from Cb_inv [OF inv Cb(1,2,4)] show ?thesis .
next
  case (Idle tid)
  from Idle_inv [OF inv Idle(2,3)] show ?thesis unfolding Idle(1) .
qed

lemma reach_inv: "sched_reach T c \<Longrightarrow> finite T \<Longrightarrow> sched_inv T c"
proof (induction rule: sched_reach.induct)
  case (init c)
  then show ?case by (simp add: sched_init_def sched_inv_def threads_in_def)
next
  case (step c c')
  then show ?case using step_inv by blast
qed

subsection \<open>Properties\<close>

text \<open>A scheduler with two threads whose fiber 7 has not run yet.\<close>

definition demo_conf :: "nat conf" where
  "demo_conf = \<lparr>c_sched = \<lparr>m_fibers = [], m_rootFiber = False, m_threads = 2, m_threadIds = [1, 2],
       m_threadCount = 2, m_activeThreadCount = 0, m_idleThreadCount = 0, m_stopping = False,
       m_autoStop = False, m_rootThread = -1\<rparr>,
     c_fibers = \<lparr>f_heap = (\<lambda>_. \<lparr>fb_state = INIT, fb_cb = Some 0, fb_stack = True\<rparr>), f_next = 10,
       s_fiber_id = 10, s_fiber_count = 10\<rparr>,
     c_workers = (\<lambda>tid. \<lparr>w_pc = Loop, w_left = False, w_cb_fiber = None, w_idle_fiber = nat tid\<rparr>)\<rparr>"

lemma demo_reach: "sched_reach T demo_conf"
  by (rule sched_reach.init) (simp add: sched_init_def demo_conf_def)



text \<open>
  The queue loop of \<open>run\<close> on a queue whose entries carry work takes the first entry that the
  thread may run, that is one for any thread or for this one whose fiber is not being executed,
  keeps the others in their order, and asks for a tickle exactly when it passed over an entry
  for another thread; it takes nothing only when no entry can be run.
\<close>

lemma first_runnable_taken:
  assumes "list_all has_work q"
  shows "(pick tid st q = Inr (None, \<exists>t\<in>set q. foreign tid t, q) \<and> (\<forall>t\<in>set q. \<not> runnable tid st t))
    \<or> (\<exists>t q1 q2. pick tid st q = Inr (Some t, \<exists>t\<in>set q1. foreign tid t, q1 @ q2) \<and> q = q1 @ t # q2
        \<and> runnable tid st t \<and> (\<forall>t\<in>set q1. \<not> runnable tid st t))"
  by (rule pick_cases [OF assms])

lemma first_runnable_taken_example:
  "pick 1 (\<lambda>_. READY) [fiber_task (Some 3) 2, fiber_task (Some 4) (-1) :: nat task]
    \<noteq> Inr (None, True, [fiber_task (Some 3) 2, fiber_task (Some 4) (-1)])"
proof -
  let ?q = "[fiber_task (Some 3) 2, fiber_task (Some 4) (-1) :: nat task]"
  have w: "list_all has_work ?q" by simp
  have r: "\<exists>t\<in>set ?q. runnable 1 (\<lambda>_. READY) t" by (simp add: runnable_def fiber_task_def)
  from first_runnable_taken [OF w, of 1 "\<lambda>_. READY"] show ?thesis
  proof (elim disjE exE conjE)
    assume "\<forall>t\<in>set ?q. \<not> runnable 1 (\<lambda>_. READY) t"
    then show ?thesis using r by blast
  next
    fix t q1 q2
    assume "pick 1 (\<lambda>_. READY) ?q = Inr (Some t, \<exists>t\<in>set q1. foreign 1 t, q1 @ q2)"
    then show ?thesis by (simp del: pick.simps)
  qed
qed

text \<open>The steps of a run in which two threads execute fiber 7.\<close>

definition again :: "nat conf \<Rightarrow> nat conf" where
  "again c = c\<lparr>c_sched := schedule id (fiber_task (Some 7) (-1)) (c_sched c)\<rparr>"

definition taken_by :: "int \<Rightarrow> nat conf \<Rightarrow> nat conf" where
  "taken_by tid c = snd (projr (run_take tid c))"

definition started_by :: "int \<Rightarrow> nat conf \<Rightarrow> nat conf" where
  "started_by tid c = projr (run_start tid (fiber_task (Some 7) (-1)) True c)"

definition half_way :: "nat conf" where
  "half_way = started_by 1 (taken_by 1 (again demo_conf))"

definition yielded :: "nat conf" where
  "yielded = run_leave YieldToHold 7 1 (again half_way)"

definition race :: "nat conf" where
  "race = started_by 2 (taken_by 2 yielded)"

lemma again_reach: "sched_reach T c \<Longrightarrow> sched_reach T (again c)"
  unfolding again_def by (rule sched_reach.step [OF _ Schedule])

lemma taken_reach:
  assumes "sched_reach T c" "tid \<in> T" "w_pc (c_workers c tid) = Loop" "\<not> isl (run_take tid c)"
  shows "sched_reach T (taken_by tid c)"
proof -
  have "run_take tid c = Inr (fst (projr (run_take tid c)), taken_by tid c)"
    using assms(4) by (simp add: taken_by_def)
  then show ?thesis using sched_reach.step [OF assms(1) Take [OF assms(2,3)]] by blast
qed

lemma started_reach:
  assumes "sched_reach T c" "tid \<in> T" "w_pc (c_workers c tid) = Chosen (fiber_task (Some 7) (-1)) True"
    and "\<not> isl (run_start tid (fiber_task (Some 7) (-1)) True c)"
  shows "sched_reach T (started_by tid c)"
  using sched_reach.step [OF assms(1) Start [OF assms(2,3)]] assms(4) by (simp add: started_by_def)


end
