(* ===== verification/FiberSwitch.thy ===== *)
theory FiberSwitch
  imports Scheduler
begin

text \<open>
  \<open>sherry/fiber.cc\<close>, \<open>sherry/myfiber.cc\<close>: switching between the fibers of one thread. A machine context
  is what resuming it does: start the function of a fiber on its stack, or go on after the
  \<open>swapcontext\<close> that saved it. What is on a stack is the function at its bottom. \<open>Scheduler.thy\<close> has
  the states of the fibers and the interleaving of threads; here is where control goes.
\<close>

subsection \<open>Contexts\<close>

datatype stack = ThreadStack | MainFunc nat | CallerMainFunc nat

text \<open>
  Where a context was saved: in \<open>swapIn\<close> or \<open>call\<close>, in a fiber that yields, or at the end of
  \<open>MainFunc\<close>, after which the code asserts false.
\<close>

datatype point = Entered | InYield | InEnd

text \<open>
  \<open>Dead\<close> is a context saved by \<open>getcontext\<close> in the constructor of the fiber of a thread, whose frame is
  gone when the constructor has returned.
\<close>

datatype ctx = Dead | Entry stack | Suspended point stack

text \<open>\<open>t_mainFiber\<close> is the \<open>t_fiber\<close> of \<open>scheduler.cc\<close>, the result of \<open>Scheduler::GetMainFiber\<close>.\<close>

record 'cb switching =
  sw_fibers :: "'cb fibers"
  m_ctx :: "nat \<Rightarrow> ctx"
  t_fiber :: "nat option"
  t_threadFiber :: "nat option"
  t_mainFiber :: "nat option"
  on_stack :: stack

definition swapcontext :: "nat \<Rightarrow> point \<Rightarrow> nat \<Rightarrow> ('cb, 'z) switching_scheme \<Rightarrow> ('cb, 'z) switching_scheme res" where
  "swapcontext f pt g s =
     (let s = s\<lparr>m_ctx := (m_ctx s)(f := Suspended pt (on_stack s))\<rparr> in
      case m_ctx s g of
        Dead \<Rightarrow> Inl UseAfterFree
      | Entry k \<Rightarrow> Inr (s\<lparr>on_stack := k\<rparr>)
      | Suspended p k \<Rightarrow> if p = InEnd then Inl AssertFail else Inr (s\<lparr>on_stack := k\<rparr>))"

subsection \<open>Fibers of a scheduler\<close>

definition GetThis :: "'cb switching \<Rightarrow> nat \<times> 'cb switching" where
  "GetThis s =
     (case t_fiber s of
        Some f \<Rightarrow> (f, s)
      | None \<Rightarrow> (case new_main_Fiber (sw_fibers s) of (f, h) \<Rightarrow>
          (f, s\<lparr>sw_fibers := h, m_ctx := (m_ctx s)(f := Dead), t_fiber := Some f, t_threadFiber := Some f\<rparr>)))"

definition Fiber_new :: "'cb \<Rightarrow> bool \<Rightarrow> 'cb switching \<Rightarrow> nat \<times> 'cb switching" where
  "Fiber_new cb use_caller s =
     (case new_Fiber cb (sw_fibers s) of (f, h) \<Rightarrow>
        (f, s\<lparr>sw_fibers := h, m_ctx := (m_ctx s)(f := Entry (if use_caller then CallerMainFunc f else MainFunc f))\<rparr>))"

text \<open>\<open>reset\<close> makes a context for \<open>MainFunc\<close>, whatever the fiber was made for.\<close>

definition Fiber_reset :: "nat \<Rightarrow> 'cb option \<Rightarrow> 'cb switching \<Rightarrow> 'cb switching res" where
  "Fiber_reset f cb s =
     bindR (fiber_reset f cb (sw_fibers s)) (\<lambda>h. Inr (s\<lparr>sw_fibers := h, m_ctx := (m_ctx s)(f := Entry (MainFunc f))\<rparr>))"

definition Fiber_delete :: "nat \<Rightarrow> 'cb switching \<Rightarrow> 'cb switching res" where
  "Fiber_delete f s =
     bindR (delete_Fiber f (sw_fibers s)) (\<lambda>h.
       Inr (s\<lparr>sw_fibers := h, t_fiber := (if \<not> fb_stack (f_heap (sw_fibers s) f) \<and> t_fiber s = Some f then None else t_fiber s)\<rparr>))"

definition Fiber_swapIn :: "nat \<Rightarrow> 'cb switching \<Rightarrow> 'cb switching res" where
  "Fiber_swapIn f s =
     bindR (swapIn f (sw_fibers s)) (\<lambda>h.
       case t_mainFiber s of
         None \<Rightarrow> Inl NullDeref
       | Some m \<Rightarrow> swapcontext m Entered f (s\<lparr>t_fiber := Some f, sw_fibers := h\<rparr>))"

definition Fiber_swapOut :: "point \<Rightarrow> nat \<Rightarrow> 'cb switching \<Rightarrow> 'cb switching res" where
  "Fiber_swapOut pt f s =
     (case t_mainFiber s of
        None \<Rightarrow> Inl NullDeref
      | Some m \<Rightarrow> swapcontext f pt m (s\<lparr>t_fiber := Some m\<rparr>))"

definition Fiber_call :: "nat \<Rightarrow> 'cb switching \<Rightarrow> 'cb switching res" where
  "Fiber_call f s =
     (case t_threadFiber s of
        None \<Rightarrow> Inl NullDeref
      | Some t \<Rightarrow> swapcontext t Entered f (s\<lparr>t_fiber := Some f, sw_fibers := set_state f EXEC (sw_fibers s)\<rparr>))"

definition Fiber_back :: "point \<Rightarrow> nat \<Rightarrow> 'cb switching \<Rightarrow> 'cb switching res" where
  "Fiber_back pt f s =
     (case t_threadFiber s of
        None \<Rightarrow> Inl NullDeref
      | Some t \<Rightarrow> swapcontext f pt t (s\<lparr>t_fiber := Some t\<rparr>))"

text \<open>
  How running code gives up its thread: \<open>YieldToReady\<close>, \<open>YieldToHold\<close> and the bare \<open>swapOut\<close> of the idle
  loops act on \<open>GetThis()\<close>; the end of \<open>MainFunc\<close> and of \<open>CallerMainFunc\<close> acts on the fiber that the
  function was entered with. Code on the stack of the thread has no such end.
\<close>

definition Fiber_yield :: "leaving \<Rightarrow> 'cb switching \<Rightarrow> 'cb switching res" where
  "Fiber_yield how s =
     (case GetThis s of (f, s) \<Rightarrow> Fiber_swapOut InYield f (s\<lparr>sw_fibers := leave how f (sw_fibers s)\<rparr>))"

fun Fiber_end :: "leaving \<Rightarrow> stack \<Rightarrow> 'cb switching \<Rightarrow> 'cb switching res" where
  "Fiber_end how ThreadStack s = Inr s"
| "Fiber_end how (MainFunc f) s = Fiber_swapOut InEnd f (s\<lparr>sw_fibers := leave how f (sw_fibers s)\<rparr>)"
| "Fiber_end how (CallerMainFunc f) s = Fiber_back InEnd f (s\<lparr>sw_fibers := leave how f (sw_fibers s)\<rparr>)"

definition Fiber_leave :: "leaving \<Rightarrow> 'cb switching \<Rightarrow> 'cb switching res" where
  "Fiber_leave how s = (if how = Returned \<or> how = Threw then Fiber_end how (on_stack s) s else Fiber_yield how s)"

subsection \<open>A thread of a scheduler\<close>

definition new_thread :: "'cb fiber \<Rightarrow> 'cb switching" where
  "new_thread fb =
     \<lparr>sw_fibers = \<lparr>f_heap = (\<lambda>_. fb), f_next = 0, s_fiber_id = 0, s_fiber_count = 0\<rparr>, m_ctx = (\<lambda>_. Dead),
      t_fiber = None, t_threadFiber = None, t_mainFiber = None, on_stack = ThreadStack\<rparr>"

text \<open>A thread that enters \<open>Scheduler::run\<close>, and one that constructs a scheduler with \<open>use_caller\<close>.\<close>

definition enter_run :: "'cb switching \<Rightarrow> 'cb switching" where
  "enter_run s = (case GetThis s of (f, s) \<Rightarrow> s\<lparr>t_mainFiber := Some f\<rparr>)"

definition caller_setup :: "'cb \<Rightarrow> 'cb switching \<Rightarrow> 'cb switching" where
  "caller_setup run_cb s =
     (case GetThis s of (_, s) \<Rightarrow> (case Fiber_new run_cb True s of (f, s) \<Rightarrow> s\<lparr>t_mainFiber := Some f\<rparr>))"

text \<open>The stack that the loop of \<open>run\<close> is on.\<close>

definition run_stack :: "'cb switching \<Rightarrow> stack" where
  "run_stack s = (if t_mainFiber s = t_threadFiber s then ThreadStack else CallerMainFunc (the (t_mainFiber s)))"

definition user_fiber :: "'cb switching \<Rightarrow> nat \<Rightarrow> bool" where
  "user_fiber s f \<longleftrightarrow> f < f_next (sw_fibers s) \<and> Some f \<noteq> t_mainFiber s \<and> Some f \<noteq> t_threadFiber s"

text \<open>
  What the thread does: any code creates and resets fibers; the loop of \<open>run\<close> enters a fiber that can
  run and sets one that has come back to \<open>HOLD\<close>; code in a fiber leaves it; and the thread that
  constructed the scheduler calls the root fiber, which ends.
\<close>

inductive switch_step :: "'cb switching \<Rightarrow> 'cb switching \<Rightarrow> bool" where
  create: "switch_step s (snd (Fiber_new cb False s))"
| reset: "user_fiber s f \<Longrightarrow> Fiber_reset f cb s = Inr s' \<Longrightarrow> switch_step s s'"
| enter: "on_stack s = run_stack s \<Longrightarrow> user_fiber s f \<Longrightarrow> getState f (sw_fibers s) \<in> {INIT, READY, HOLD} \<Longrightarrow>
    Fiber_swapIn f s = Inr s' \<Longrightarrow> switch_step s s'"
| hold: "on_stack s = run_stack s \<Longrightarrow> user_fiber s f \<Longrightarrow> getState f (sw_fibers s) \<in> {EXEC, HOLD} \<Longrightarrow>
    switch_step s (s\<lparr>sw_fibers := set_state f HOLD (sw_fibers s)\<rparr>)"
| leave: "on_stack s = MainFunc f \<Longrightarrow> Fiber_leave how s = Inr s' \<Longrightarrow> switch_step s s'"
| call: "t_mainFiber s = Some m \<Longrightarrow> t_mainFiber s \<noteq> t_threadFiber s \<Longrightarrow> on_stack s = ThreadStack \<Longrightarrow>
    Fiber_call m s = Inr s' \<Longrightarrow> switch_step s s'"
| root_end: "on_stack s = CallerMainFunc m \<Longrightarrow> how = Returned \<or> how = Threw \<Longrightarrow> Fiber_leave how s = Inr s' \<Longrightarrow> switch_step s s'"

text \<open>The context of a fiber that is not running, by its state.\<close>

fun rest_ctx :: "fiber_state \<Rightarrow> nat \<Rightarrow> ctx" where
  "rest_ctx INIT f = Entry (MainFunc f)"
| "rest_ctx TERMINATED f = Suspended InEnd (MainFunc f)"
| "rest_ctx EXCEPT f = Suspended InEnd (MainFunc f)"
| "rest_ctx _ f = Suspended InYield (MainFunc f)"

fun owner :: "nat \<Rightarrow> stack \<Rightarrow> nat" where
  "owner t ThreadStack = t"
| "owner t (MainFunc f) = f"
| "owner t (CallerMainFunc f) = f"

definition switch_inv :: "nat \<Rightarrow> nat \<Rightarrow> 'cb switching \<Rightarrow> bool" where
  "switch_inv t m s \<longleftrightarrow> t_threadFiber s = Some t \<and> t_mainFiber s = Some m \<and>
     t < f_next (sw_fibers s) \<and> m < f_next (sw_fibers s) \<and> t_fiber s = Some (owner t (on_stack s)) \<and>
     (case on_stack s of
        ThreadStack \<Rightarrow> t \<noteq> m \<longrightarrow> m_ctx s m \<in> {Entry (CallerMainFunc m), Suspended InEnd (CallerMainFunc m)}
      | CallerMainFunc f \<Rightarrow> f = m \<and> t \<noteq> m \<and> m_ctx s t = Suspended Entered ThreadStack
      | MainFunc f \<Rightarrow> user_fiber s f \<and> getState f (sw_fibers s) = EXEC \<and> m_ctx s m = Suspended Entered (run_stack s) \<and>
          m_ctx s t = Suspended Entered ThreadStack) \<and>
     (\<forall>f. user_fiber s f \<longrightarrow> on_stack s \<noteq> MainFunc f \<longrightarrow> m_ctx s f = rest_ctx (getState f (sw_fibers s)) f)"

lemmas switch_defs = swapcontext_def Fiber_new_def new_Fiber_def Fiber_swapIn_def swapIn_def Fiber_swapOut_def Fiber_yield_def
  Fiber_leave_def Fiber_call_def Fiber_back_def GetThis_def set_state_def getState_def user_fiber_def run_stack_def Let_def

lemma leave_frame [simp]:
  "f_next (leave how f h) = f_next h" "g \<noteq> f \<Longrightarrow> f_heap (leave how f h) g = f_heap h g"
  by (cases how; simp add: set_state_def)+

lemma leave_state: "fb_state (f_heap (leave how f h) f) =
    (case how of YieldToReady \<Rightarrow> READY | YieldToHold \<Rightarrow> HOLD | Returned \<Rightarrow> TERMINATED | Threw \<Rightarrow> EXCEPT | SwapOut \<Rightarrow> fb_state (f_heap h f))"
  by (cases how; simp add: set_state_def)

lemma inv_create:
  assumes "switch_inv t m s"
  shows "switch_inv t m (snd (Fiber_new cb False s))"
  using assms by (cases "on_stack s") (auto simp: switch_inv_def switch_defs less_Suc_eq)

lemma inv_reset:
  assumes "switch_inv t m s" "user_fiber s f" "Fiber_reset f cb s = Inr s'"
  shows "switch_inv t m s'"
  using assms by (cases "on_stack s") (auto simp: switch_inv_def switch_defs Fiber_reset_def fiber_reset_def split: if_splits)

lemma rest_ctx_resumes: "getState f h \<in> {INIT, READY, HOLD} \<Longrightarrow>
    rest_ctx (getState f h) f = Entry (MainFunc f) \<or> rest_ctx (getState f h) f = Suspended InYield (MainFunc f)"
  by auto

text \<open>Entering a fiber: always possible for one that can run, and control is then on its stack.\<close>

lemma enter_ok:
  assumes "switch_inv t m s" "on_stack s = run_stack s" "user_fiber s f" "getState f (sw_fibers s) \<in> {INIT, READY, HOLD}"
  shows "Fiber_swapIn f s = Inr (s\<lparr>t_fiber := Some f, sw_fibers := set_state f EXEC (sw_fibers s),
    m_ctx := (m_ctx s)(m := Suspended Entered (run_stack s)), on_stack := MainFunc f\<rparr>)"
proof -
  have "m_ctx s f = rest_ctx (getState f (sw_fibers s)) f" "f \<noteq> m" "t_mainFiber s = Some m"
    using assms by (auto simp: switch_inv_def user_fiber_def run_stack_def split: if_splits)
  then show ?thesis using rest_ctx_resumes [OF assms(4)] assms(2,4)
    by (auto simp: Fiber_swapIn_def swapIn_def swapcontext_def)
qed

lemma inv_enter:
  assumes "switch_inv t m s" "on_stack s = run_stack s" "user_fiber s f" "getState f (sw_fibers s) \<in> {INIT, READY, HOLD}"
    "Fiber_swapIn f s = Inr s'"
  shows "switch_inv t m s'"
proof -
  have "s' = s\<lparr>t_fiber := Some f, sw_fibers := set_state f EXEC (sw_fibers s),
    m_ctx := (m_ctx s)(m := Suspended Entered (run_stack s)), on_stack := MainFunc f\<rparr>"
    using enter_ok [OF assms(1-4)] assms(5) by simp
  then show ?thesis using assms(1-4)
    by (auto simp: switch_inv_def user_fiber_def run_stack_def set_state_def getState_def split: if_splits)
qed

lemma inv_hold:
  assumes "switch_inv t m s" "on_stack s = run_stack s" "user_fiber s f" "getState f (sw_fibers s) \<in> {EXEC, HOLD}"
  shows "switch_inv t m (s\<lparr>sw_fibers := set_state f HOLD (sw_fibers s)\<rparr>)"
  using assms by (auto simp: switch_inv_def user_fiber_def run_stack_def set_state_def getState_def split: if_splits)

definition leave_point :: "leaving \<Rightarrow> point" where
  "leave_point how = (if how = Returned \<or> how = Threw then InEnd else InYield)"

text \<open>Leaving a fiber: always possible, and control is back on the stack of the loop.\<close>

lemma leave_ok:
  assumes "switch_inv t m s" "on_stack s = MainFunc f"
  shows "Fiber_leave how s = Inr (s\<lparr>t_fiber := Some m, sw_fibers := leave how f (sw_fibers s),
    m_ctx := (m_ctx s)(f := Suspended (leave_point how) (MainFunc f)), on_stack := run_stack s\<rparr>)"
  using assms
  by (auto simp: switch_inv_def Fiber_leave_def Fiber_yield_def GetThis_def Fiber_swapOut_def swapcontext_def leave_point_def user_fiber_def)

lemma leave_rest:
  "getState f h = EXEC \<Longrightarrow> rest_ctx (getState f (leave how f h)) f = Suspended (leave_point how) (MainFunc f)"
  by (cases how) (auto simp: leave_point_def getState_def set_state_def)

lemma inv_leave:
  assumes "switch_inv t m s" "on_stack s = MainFunc f" "Fiber_leave how s = Inr s'"
  shows "switch_inv t m s'"
proof -
  have s': "s' = s\<lparr>t_fiber := Some m, sw_fibers := leave how f (sw_fibers s),
    m_ctx := (m_ctx s)(f := Suspended (leave_point how) (MainFunc f)), on_stack := run_stack s\<rparr>"
    using leave_ok [OF assms(1,2)] assms(3) by simp
  have "getState f (sw_fibers s) = EXEC" using assms(1,2) by (simp add: switch_inv_def)
  then show ?thesis using assms(1,2) leave_rest [of f "sw_fibers s" how]
    by (auto simp: s' switch_inv_def user_fiber_def run_stack_def getState_def)
qed

lemma inv_call:
  assumes "switch_inv t m s" "t \<noteq> m" "on_stack s = ThreadStack" "Fiber_call m s = Inr s'"
  shows "switch_inv t m s'"
  using assms by (auto simp: switch_inv_def switch_defs split: ctx.splits if_splits)

lemma inv_root_end:
  assumes "switch_inv t m s" "on_stack s = CallerMainFunc f" "how = Returned \<or> how = Threw" "Fiber_leave how s = Inr s'"
  shows "switch_inv t m s'"
  using assms by (auto simp: switch_inv_def switch_defs split: ctx.splits if_splits)

lemma inv_switch_step: "switch_step s s' \<Longrightarrow> switch_inv t m s \<Longrightarrow> switch_inv t m s'"
proof (induction rule: switch_step.induct)
  case (create s cb)
  then show ?case by (rule inv_create)
next
  case (reset s f cb s')
  then show ?case by (metis inv_reset)
next
  case (enter s f s')
  then show ?case by (metis inv_enter)
next
  case (hold s f)
  then show ?case by (metis inv_hold)
next
  case (leave s f how s')
  then show ?case by (metis inv_leave)
next
  case (call s m' s')
  then have "m' = m" "t \<noteq> m" by (auto simp: switch_inv_def)
  then show ?case using call by (metis inv_call)
next
  case (root_end s m how s')
  then show ?case by (metis inv_root_end)
qed

lemma inv_start: "switch_inv 0 0 (enter_run (new_thread fb))" "switch_inv 0 1 (caller_setup cb (new_thread fb))"
  by (auto simp: switch_inv_def enter_run_def caller_setup_def new_thread_def new_main_Fiber_def switch_defs)

text \<open>
  C22. Switching between fibers, on a thread that enters \<open>Scheduler::run\<close> or that constructs a scheduler
  for itself: whatever was switched before, \<open>GetThis\<close> is the fiber whose stack is in use; when the loop
  of \<open>run\<close> switches to a fiber that can run, no assertion fails and control is on the stack of that
  fiber; and however code in a fiber leaves it, no assertion fails and control is back in the loop.
\<close>

theorem fiber_switching:
  assumes "s0 = enter_run (new_thread fb) \<or> s0 = caller_setup cb (new_thread fb)" "switch_step\<^sup>*\<^sup>* s0 s"
  shows "\<exists>t m. t_threadFiber s = Some t \<and> t_mainFiber s = Some m \<and> fst (GetThis s) = owner t (on_stack s) \<and>
    (on_stack s = run_stack s \<longrightarrow> (\<forall>f. user_fiber s f \<longrightarrow> getState f (sw_fibers s) \<in> {INIT, READY, HOLD} \<longrightarrow>
       (\<exists>s'. Fiber_swapIn f s = Inr s' \<and> on_stack s' = MainFunc f \<and> fst (GetThis s') = f))) \<and>
    (\<forall>f how. on_stack s = MainFunc f \<longrightarrow>
       (\<exists>s'. Fiber_leave how s = Inr s' \<and> on_stack s' = run_stack s \<and> fst (GetThis s') = m))"
proof -
  from assms(1) obtain t m where "switch_inv t m s0"
    by (elim disjE) (use inv_start in fast)+
  with assms(2) have inv: "switch_inv t m s"
    by (induction rule: rtranclp_induct) (auto intro: inv_switch_step)
  then have "t_threadFiber s = Some t" "t_mainFiber s = Some m" "fst (GetThis s) = owner t (on_stack s)"
    by (auto simp: switch_inv_def GetThis_def)
  moreover have "\<exists>s'. Fiber_swapIn f s = Inr s' \<and> on_stack s' = MainFunc f \<and> fst (GetThis s') = f"
    if "on_stack s = run_stack s" "user_fiber s f" "getState f (sw_fibers s) \<in> {INIT, READY, HOLD}" for f
    by (simp add: enter_ok [OF inv that] GetThis_def)
  moreover have "\<exists>s'. Fiber_leave how s = Inr s' \<and> on_stack s' = run_stack s \<and> fst (GetThis s') = m"
    if "on_stack s = MainFunc f" for f how
    by (simp add: leave_ok [OF inv that] GetThis_def)
  ultimately show ?thesis by blast
qed

theorem fiber_switching_witness:
  "let s = snd (Fiber_new (7 :: nat) False (enter_run (new_thread \<lparr>fb_state = INIT, fb_cb = None, fb_stack = False\<rparr>))) in
     \<exists>s'. Fiber_swapIn 1 s = Inr s' \<and> on_stack s' = MainFunc 1 \<and> fst (GetThis s') = 1"
proof -
  let ?a = "enter_run (new_thread \<lparr>fb_state = INIT, fb_cb = None :: nat option, fb_stack = False\<rparr>)"
  let ?s = "snd (Fiber_new 7 False ?a)"
  have r: "switch_step\<^sup>*\<^sup>* ?a ?s" by (rule r_into_rtranclp [of switch_step, OF switch_step.create])
  have "on_stack ?s = run_stack ?s" "user_fiber ?s 1" "getState 1 (sw_fibers ?s) = INIT"
    by (simp_all add: enter_run_def new_thread_def new_main_Fiber_def switch_defs)
  then show ?thesis using fiber_switching [OF _ r] by (auto simp: Let_def)
qed

text \<open>
  \<open>reset\<close> forgets that a fiber was made for \<open>call\<close>: the root fiber after it would end with a switch to
  itself, which the assertion after the switch stops.
\<close>

lemma reset_root_aborts:
  "t_mainFiber s = Some m \<Longrightarrow> on_stack s = MainFunc m \<Longrightarrow> how = Returned \<or> how = Threw \<Longrightarrow> Fiber_leave how s = Inl AssertFail"
  by (auto simp: Fiber_leave_def Fiber_swapOut_def swapcontext_def)

text \<open>\<open>swapIn\<close> accepts a fiber that has ended and fails behind its \<open>MainFunc\<close>.\<close>

lemma swapIn_ended_aborts:
  assumes "switch_inv t m s" "on_stack s = run_stack s" "user_fiber s f" "getState f (sw_fibers s) \<in> {TERMINATED, EXCEPT}"
  shows "Fiber_swapIn f s = Inl AssertFail"
proof -
  have "m_ctx s f = rest_ctx (getState f (sw_fibers s)) f" "f \<noteq> m" "t_mainFiber s = Some m"
    using assms by (auto simp: switch_inv_def user_fiber_def run_stack_def split: if_splits)
  then show ?thesis using assms(4) by (auto simp: Fiber_swapIn_def swapIn_def swapcontext_def)
qed

text \<open>
  Only the loop may switch to a fiber: when code in a fiber does, the other fiber comes back to it, but
  \<open>GetThis\<close> is then the fiber of the loop.
\<close>

lemma nested_swapIn_loses_this:
  assumes "switch_inv t m s" "on_stack s = MainFunc f" "user_fiber s g" "g \<noteq> f" "getState g (sw_fibers s) \<in> {INIT, READY, HOLD}"
  shows "\<exists>s1 s2. Fiber_swapIn g s = Inr s1 \<and> on_stack s1 = MainFunc g \<and> Fiber_leave how s1 = Inr s2 \<and>
    on_stack s2 = MainFunc f \<and> fst (GetThis s2) = m"
proof -
  have "m_ctx s g = rest_ctx (getState g (sw_fibers s)) g" "g \<noteq> m" "t_mainFiber s = Some m"
    using assms by (auto simp: switch_inv_def user_fiber_def)
  then have "Fiber_swapIn g s = Inr (s\<lparr>t_fiber := Some g, sw_fibers := set_state g EXEC (sw_fibers s),
      m_ctx := (m_ctx s)(m := Suspended Entered (MainFunc f)), on_stack := MainFunc g\<rparr>)" (is "_ = Inr ?s1")
    using rest_ctx_resumes [OF assms(5)] assms(2,5) by (auto simp: Fiber_swapIn_def swapIn_def swapcontext_def)
  moreover have "\<exists>s2. Fiber_leave how ?s1 = Inr s2 \<and> on_stack s2 = MainFunc f \<and> fst (GetThis s2) = m"
    using \<open>g \<noteq> m\<close> \<open>t_mainFiber s = Some m\<close>
    by (auto simp: Fiber_leave_def Fiber_yield_def GetThis_def Fiber_swapOut_def swapcontext_def)
  ultimately show ?thesis by auto
qed

end
