(* ===== verification/MyFiber.thy ===== *)
theory MyFiber
  imports FiberSwitch
begin

text \<open>
  \<open>sherry/myfiber.h\<close>, \<open>sherry/myfiber.cc\<close>: the second fiber class, without a scheduler: fibers are
  entered from the fiber of the thread and leave to it. The state is that of the fibers of one
  thread, with the fibers that have been deleted and the identifiers, which the fiber of a thread does
  not have. The objects are as in \<open>Scheduler.thy\<close>; the states have the same names.
\<close>

subsection \<open>State and operations\<close>

record 'cb mythread = "'cb switching" +
  my_id :: "nat \<rightharpoonup> nat"
  my_freed :: "nat set"

definition allocateStack :: "nat \<Rightarrow> bool" where
  "allocateStack n = (n > 0)"

text \<open>The stack is allocated with the argument, and not with the size that 0 stands for.\<close>

definition MyFiber_new :: "'cb \<Rightarrow> nat \<Rightarrow> 'cb mythread \<Rightarrow> nat \<times> 'cb mythread" where
  "MyFiber_new cb stack_size s =
     (let h = sw_fibers s; f = f_next h in
      (f, s\<lparr>sw_fibers := h\<lparr>f_heap := (f_heap h)(f := \<lparr>fb_state = INIT, fb_cb = Some cb, fb_stack = allocateStack stack_size\<rparr>),
           f_next := f + 1, s_fiber_id := s_fiber_id h + 1, s_fiber_count := s_fiber_count h + 1\<rparr>,
         my_id := (my_id s)(f \<mapsto> s_fiber_id h + 1), m_ctx := (m_ctx s)(f := Entry (MainFunc f))\<rparr>))"

text \<open>\<open>GetThis\<close> uses the object \<open>t_fiber\<close> points to.\<close>

definition my_GetThis :: "'cb mythread \<Rightarrow> (nat \<times> 'cb mythread) res" where
  "my_GetThis s =
     (case t_fiber s of
        Some f \<Rightarrow> if f \<in> my_freed s then Inl UseAfterFree else Inr (f, s)
      | None \<Rightarrow> (case new_main_Fiber (sw_fibers s) of (f, h) \<Rightarrow>
          Inr (f, s\<lparr>sw_fibers := h, m_ctx := (m_ctx s)(f := Dead), t_fiber := Some f, t_threadFiber := Some f\<rparr>)))"

definition my_GetFiberId :: "'cb mythread \<Rightarrow> (nat option \<times> 'cb mythread) res" where
  "my_GetFiberId s = bindR (my_GetThis s) (\<lambda>(f, s). Inr (my_id s f, s))"

definition my_delete :: "nat \<Rightarrow> 'cb mythread \<Rightarrow> 'cb mythread res" where
  "my_delete f s =
     (let h = sw_fibers s; fb = f_heap h f in
      if fb_stack fb then
        if fb_state fb = TERMINATED \<or> fb_state fb = EXCEPT \<or> fb_state fb = INIT
        then Inr (s\<lparr>sw_fibers := h\<lparr>s_fiber_count := size_sub (s_fiber_count h) 1\<rparr>, my_freed := insert f (my_freed s)\<rparr>)
        else Inl AssertFail
      else if fb_cb fb = None \<and> fb_state fb = EXEC
      then Inr (s\<lparr>t_fiber := (if t_fiber s = Some f then None else t_fiber s), my_freed := insert f (my_freed s)\<rparr>)
      else Inl AssertFail)"

definition my_reset :: "nat \<Rightarrow> 'cb option \<Rightarrow> 'cb mythread \<Rightarrow> 'cb mythread res" where
  "my_reset f cb s =
     bindR (fiber_reset f cb (sw_fibers s)) (\<lambda>h. Inr (s\<lparr>sw_fibers := h, m_ctx := (m_ctx s)(f := Entry (MainFunc f))\<rparr>))"

text \<open>A context without a stack cannot be entered.\<close>

definition my_swapin :: "nat \<Rightarrow> 'cb mythread \<Rightarrow> 'cb mythread res" where
  "my_swapin f s =
     (if getState f (sw_fibers s) \<notin> {INIT, READY, HOLD} then Inl AssertFail
      else case t_threadFiber s of
        None \<Rightarrow> Inl AssertFail
      | Some t \<Rightarrow>
          if \<not> fb_stack (f_heap (sw_fibers s) f) then Inl NullDeref
          else swapcontext t Entered f (s\<lparr>t_fiber := Some f, sw_fibers := set_state f EXEC (sw_fibers s)\<rparr>))"

text \<open>\<open>swapout\<close> leaves the fiber that \<open>GetThis\<close> gives, and does not set \<open>t_fiber\<close>.\<close>

definition my_swapout :: "point \<Rightarrow> 'cb mythread \<Rightarrow> 'cb mythread res" where
  "my_swapout pt s =
     bindR (my_GetThis s) (\<lambda>(cur, s).
       case t_threadFiber s of
         None \<Rightarrow> Inl AssertFail
       | Some t \<Rightarrow> swapcontext cur pt t s)"

definition my_yield :: "fiber_state \<Rightarrow> 'cb mythread \<Rightarrow> 'cb mythread res" where
  "my_yield st s =
     bindR (my_GetThis s) (\<lambda>(cur, s).
       if getState cur (sw_fibers s) \<noteq> EXEC then Inl AssertFail
       else my_swapout InYield (s\<lparr>sw_fibers := set_state cur st (sw_fibers s)\<rparr>))"

definition my_YieldToReady :: "'cb mythread \<Rightarrow> 'cb mythread res" where
  "my_YieldToReady = my_yield READY"

definition my_YieldToHold :: "'cb mythread \<Rightarrow> 'cb mythread res" where
  "my_YieldToHold = my_yield HOLD"

text \<open>The end of \<open>MainFunc\<close> of fiber \<open>f\<close>, by a return or an exception.\<close>

definition my_MainFunc_end :: "leaving \<Rightarrow> nat \<Rightarrow> 'cb mythread \<Rightarrow> 'cb mythread res" where
  "my_MainFunc_end how f s = my_swapout InEnd (s\<lparr>sw_fibers := leave how f (sw_fibers s)\<rparr>)"

definition my_TotalFibers :: "'cb mythread \<Rightarrow> nat" where
  "my_TotalFibers s = s_fiber_count (sw_fibers s)"

subsection \<open>Behaviour\<close>

text \<open>A fiber that can be entered from the stack of the thread, where \<open>t\<close> is the fiber of the thread.\<close>

definition my_enterable :: "nat \<Rightarrow> nat \<Rightarrow> 'cb mythread \<Rightarrow> bool" where
  "my_enterable t f s \<longleftrightarrow> t_threadFiber s = Some t \<and> on_stack s = ThreadStack \<and> f \<noteq> t \<and> f \<notin> my_freed s \<and>
     fb_stack (f_heap (sw_fibers s) f) \<and> getState f (sw_fibers s) \<in> {INIT, READY, HOLD} \<and>
     m_ctx s f \<in> {Entry (MainFunc f), Suspended InYield (MainFunc f)}"

lemmas my_defs = my_enterable_def my_yield_def my_YieldToReady_def my_GetThis_def my_MainFunc_end_def my_delete_def
  my_swapin_def getState_def set_state_def

lemma my_swapin_ok:
  assumes "my_enterable t f s"
  shows "my_swapin f s = Inr (s\<lparr>t_fiber := Some f, sw_fibers := set_state f EXEC (sw_fibers s),
    m_ctx := (m_ctx s)(t := Suspended Entered ThreadStack), on_stack := MainFunc f\<rparr>)"
  using assms by (auto simp: my_enterable_def my_swapin_def swapcontext_def Let_def)

lemma my_swapout_ok:
  assumes "t_fiber s = Some f" "f \<notin> my_freed s" "t_threadFiber s = Some t" "f \<noteq> t" "m_ctx s t = Suspended Entered ThreadStack"
  shows "my_swapout pt s = Inr (s\<lparr>m_ctx := (m_ctx s)(f := Suspended pt (on_stack s)), on_stack := ThreadStack\<rparr>)"
  using assms by (simp add: my_swapout_def my_GetThis_def swapcontext_def)

text \<open>
  Entering a fiber and yielding comes back to the thread with the fiber ready to be entered again, but
  \<open>GetThis\<close> is then still the fiber that has left, so that yielding on the stack of the thread fails.
\<close>

lemma my_yield_returns:
  assumes "my_enterable t f s" "st = READY \<or> st = HOLD"
  shows "\<exists>s1 s2. my_swapin f s = Inr s1 \<and> on_stack s1 = MainFunc f \<and> my_yield st s1 = Inr s2 \<and> my_enterable t f s2 \<and>
    my_GetThis s2 = Inr (f, s2) \<and> my_YieldToReady s2 = Inl AssertFail"
  using assms unfolding my_swapin_ok [OF assms(1)]
  by (auto simp: my_swapout_ok my_defs)

text \<open>When a fiber has ended and is deleted, \<open>GetThis\<close> uses the deleted object.\<close>

lemma my_this_dangles:
  assumes "my_enterable t f s" "how = Returned \<or> how = Threw"
  shows "\<exists>s1 s2 s3. my_swapin f s = Inr s1 \<and> my_MainFunc_end how f s1 = Inr s2 \<and> on_stack s2 = ThreadStack \<and>
    my_delete f s2 = Inr s3 \<and> my_GetThis s3 = Inl UseAfterFree"
  using assms unfolding my_swapin_ok [OF assms(1)]
  by (auto simp: my_swapout_ok my_defs)

text \<open>
  A fiber that leaves with \<open>swapout\<close>, as in \<open>tests/test_myfiber.cc\<close>, is still in the state \<open>EXEC\<close>: it
  cannot be entered again and its destructor fails.
\<close>

lemma my_bare_swapout:
  assumes "my_enterable t f s"
  shows "\<exists>s1 s2. my_swapin f s = Inr s1 \<and> my_swapout InYield s1 = Inr s2 \<and> on_stack s2 = ThreadStack \<and>
    my_swapin f s2 = Inl AssertFail \<and> my_delete f s2 = Inl AssertFail"
  using assms unfolding my_swapin_ok [OF assms(1)]
  by (auto simp: my_swapout_ok my_defs)

text \<open>With a stack size of 0 there is no stack: the fiber can be neither entered nor deleted.\<close>

lemma my_zero_stack:
  assumes "MyFiber_new cb 0 s = (f, s')" "t_threadFiber s = Some t"
  shows "my_swapin f s' = Inl NullDeref" "my_delete f s' = Inl AssertFail"
  using assms by (auto simp: MyFiber_new_def my_swapin_def my_delete_def allocateStack_def getState_def Let_def)

text \<open>The fiber of a thread is counted when it is made and not when it is deleted.\<close>

lemma my_count_drifts:
  assumes "t_fiber s = None" "s_fiber_count (sw_fibers s) = n"
  shows "\<exists>f s1 s2. my_GetThis s = Inr (f, s1) \<and> my_delete f s1 = Inr s2 \<and> my_TotalFibers s2 = n + 1"
  using assms by (auto simp: my_GetThis_def new_main_Fiber_def my_delete_def my_TotalFibers_def Let_def)

end
