(* ===== verification/Json.thy ===== *)
theory Json
  imports Text Complex_Main
begin

text \<open>
  JSON values as the OTA code handles them through \<open>nlohmann::json\<close>: construction of objects,
  \<open>contains\<close>, element access and comparison. An object is the list of its members. Parsing
  and printing of JSON text are the library's: the definitions that use them take them as
  parameters.
\<close>

datatype json =
    JNull
  | JBool bool
  | JInt int
  | JFloat rat
  | JStr string
  | JArr "json list"
  | JObj "(string \<times> json) list"

definition j_contains :: "string \<Rightarrow> json \<Rightarrow> bool" where
  "j_contains k j = (case j of JObj ms \<Rightarrow> k \<in> fst ` set ms | _ \<Rightarrow> False)"

text \<open>\<open>j[k]\<close> for a key that is present; \<open>JNull\<close> stands for the value a missing key gets.\<close>

definition j_get :: "string \<Rightarrow> json \<Rightarrow> json" where
  "j_get k j = (case j of JObj ms \<Rightarrow> (case map_of ms k of Some v \<Rightarrow> v | None \<Rightarrow> JNull) | _ \<Rightarrow> JNull)"

text \<open>\<open>j[k] = v\<close>: null becomes an object, any other non-object throws \<open>type_error\<close>.\<close>

definition j_set :: "string \<Rightarrow> json \<Rightarrow> json \<Rightarrow> json res" where
  "j_set k v j =
     (case j of
        JNull \<Rightarrow> Inr (JObj [(k, v)])
      | JObj ms \<Rightarrow> Inr (JObj ((k, v) # filter (\<lambda>(k', _). k' \<noteq> k) ms))
      | _ \<Rightarrow> Inl TypeError)"

definition j_eq_str :: "json \<Rightarrow> string \<Rightarrow> bool" where
  "j_eq_str j s \<longleftrightarrow> j = JStr s"

text \<open>Numbers compare by value.\<close>

definition j_eq_int :: "json \<Rightarrow> int \<Rightarrow> bool" where
  "j_eq_int j i = (case j of JInt k \<Rightarrow> k = i | JFloat r \<Rightarrow> r = of_int i | _ \<Rightarrow> False)"

lemma j_get_set: "j_set k v j = Inr j' \<Longrightarrow> j_get k j' = v \<and> j_contains k j'"
  by (auto simp: j_set_def j_get_def j_contains_def split: json.splits)

lemma map_of_filter_neq: "k' \<noteq> k \<Longrightarrow> map_of (filter (\<lambda>(a, _). a \<noteq> k) ms) k' = map_of ms k'"
  by (induction ms) auto

lemma j_get_set_other: "j_set k v j = Inr j' \<Longrightarrow> k' \<noteq> k \<Longrightarrow> j_get k' j' = j_get k' j"
  by (auto simp: j_set_def j_get_def map_of_filter_neq split: json.splits)

end
