(* ===== verification/HttpBuffer.thy ===== *)
theory HttpBuffer
  imports Prelude
begin

text \<open>
  \<open>sherry/http/http_buffer.h\<close>, \<open>sherry/http/http_buffer.cc\<close>: the ring buffer of a session.
  A buffer of capacity \<open>c\<close> owns \<open>c + 1\<close> bytes and two indices. A \<open>shared_ptr<char[]>\<close> that
  an operation returns is the list of its bytes, \<open>None\<close> for the null pointer. Sizes and
  indices are below \<open>2 ^ 31\<close>. The file models every operation and shows the first-in
  first-out behaviour in the linear regime, where the data has not wrapped; the theorems at
  the end show where the ring leaves it.
\<close>

record httpbuffer =
  hb_capacity :: nat
  hb_size :: nat
  m_start_idx :: nat
  m_end_idx :: nat
  m_buffer :: string

text \<open>The bytes of \<open>new char[capacity + 1]\<close> are unspecified; the model has the character 0.\<close>

definition NUL :: char where "NUL = CHR 0x00"

definition new_HttpBuffer :: "nat \<Rightarrow> httpbuffer" where
  "new_HttpBuffer capacity =
     \<lparr>hb_capacity = capacity, hb_size = 0, m_start_idx = 0, m_end_idx = 0,
      m_buffer = replicate (capacity + 1) NUL\<rparr>"

definition hb_empty :: "httpbuffer \<Rightarrow> bool" where
  "hb_empty hb \<longleftrightarrow> m_start_idx hb = m_end_idx hb"

text \<open>\<open>write(buffer, len)\<close>; \<open>buffer\<close> is the whole block the caller's pointer leads to.\<close>

definition hb_write :: "string \<Rightarrow> nat \<Rightarrow> httpbuffer \<Rightarrow> (bool \<times> httpbuffer) res" where
  "hb_write buffer len hb =
     (if m_start_idx hb \<le> m_end_idx hb then
        let left_available_size = m_start_idx hb;
            right_available_size = size_sub (hb_capacity hb + 1) (m_end_idx hb)
        in
        if left_available_size + right_available_size < len then Inr (False, hb)
        else if len \<le> right_available_size then
          bindR (memcpy (m_buffer hb) (m_end_idx hb) buffer 0 len) (\<lambda>buf.
            Inr (True, hb\<lparr>m_buffer := buf, m_end_idx := m_end_idx hb + len,
                          hb_size := hb_size hb + len\<rparr>))
        else
          bindR (memcpy (m_buffer hb) (m_end_idx hb) buffer 0 right_available_size) (\<lambda>buf.
          bindR (memcpy buf 0 buffer right_available_size left_available_size) (\<lambda>buf.
            Inr (True, hb\<lparr>m_buffer := buf,
                          m_end_idx := (m_end_idx hb + len) mod (hb_capacity hb + 1),
                          hb_size := hb_size hb + len\<rparr>)))
      else
        let available_size = m_start_idx hb - m_end_idx hb in
        if available_size < len then Inr (False, hb)
        else
          bindR (memcpy (m_buffer hb) (m_end_idx hb) buffer 0 len) (\<lambda>buf.
            Inr (True, hb\<lparr>m_buffer := buf, m_end_idx := m_end_idx hb + len,
                          hb_size := hb_size hb + len\<rparr>)))"

text \<open>The statements \<open>m_start_idx += size; m_start_idx %= (m_capacity + 1); m_size -= size\<close>.\<close>

definition hb_consume :: "nat \<Rightarrow> httpbuffer \<Rightarrow> httpbuffer" where
  "hb_consume n hb = hb\<lparr>m_start_idx := (m_start_idx hb + n) mod (hb_capacity hb + 1),
                        hb_size := size_sub (hb_size hb) n\<rparr>"

definition read_by_size :: "nat \<Rightarrow> httpbuffer \<Rightarrow> (string option \<times> httpbuffer) res" where
  "read_by_size n hb =
     (let ret = replicate n NUL in
      if m_start_idx hb \<le> m_end_idx hb then
        if m_end_idx hb - m_start_idx hb < n then Inr (None, hb)
        else bindR (memcpy ret 0 (m_buffer hb) (m_start_idx hb) n) (\<lambda>ret.
               Inr (Some ret, hb_consume n hb))
      else
        let left_size = m_end_idx hb;
            right_size = size_sub (hb_capacity hb + 1) (m_start_idx hb)
        in
        if left_size + right_size < n then Inr (None, hb)
        else bindR (memcpy ret 0 (m_buffer hb) (m_start_idx hb) right_size) (\<lambda>ret.
             bindR (memcpy ret right_size (m_buffer hb) 0 left_size) (\<lambda>ret.
               Inr (Some ret, hb_consume n hb))))"

definition read_by_end :: "int \<Rightarrow> httpbuffer \<Rightarrow> (string option \<times> httpbuffer) res" where
  "read_by_end i hb =
     (let i = i - 1;
          idx = nat (if i < 0 then int (hb_capacity hb) else i)
      in
      if m_start_idx hb \<le> m_end_idx hb then
        if idx < m_start_idx hb \<or> m_end_idx hb \<le> idx then Inr (None, hb)
        else let n = idx - m_start_idx hb + 1 in
          bindR (memcpy (replicate n NUL) 0 (m_buffer hb) (m_start_idx hb) n) (\<lambda>ret.
            Inr (Some ret, hb_consume n hb))
      else
        if m_end_idx hb \<le> idx \<and> idx < m_start_idx hb then Inr (None, hb)
        else if m_start_idx hb \<le> idx then
          let n = idx - m_start_idx hb + 1 in
          bindR (memcpy (replicate n NUL) 0 (m_buffer hb) (m_start_idx hb) n) (\<lambda>ret.
            Inr (Some ret, hb_consume n hb))
        else
          let right_size = size_sub (hb_capacity hb + 1) (m_start_idx hb);
              left_size = idx + 1;
              n = right_size + left_size
          in
          bindR (memcpy (replicate n NUL) 0 (m_buffer hb) (m_start_idx hb) right_size) (\<lambda>ret.
          bindR (memcpy ret right_size (m_buffer hb) 0 left_size) (\<lambda>ret.
            Inr (Some ret, hb_consume n hb))))"

text \<open>
  The two loops of \<open>read_by_zero\<close>. The first counts the bytes up to a zero or the end index;
  its index runs over the ring, so a scan of \<open>m_capacity + 2\<close> rounds that finds neither
  never ends. The state of the loop is the index together with the count.
\<close>

definition zero_stop :: "httpbuffer \<Rightarrow> nat \<times> nat \<Rightarrow> (nat res) option" where
  "zero_stop hb = (\<lambda>(idx, n).
     if idx = m_end_idx hb then Some (Inr n)
     else if length (m_buffer hb) \<le> idx then Some (Inl OutOfBounds)
     else if m_buffer hb ! idx = NUL then Some (Inr n)
     else None)"

definition zero_count :: "httpbuffer \<Rightarrow> nat res" where
  "zero_count hb =
     (case scan (hb_capacity hb + 2) (zero_stop hb)
             (\<lambda>(idx, n). ((idx + 1) mod (hb_capacity hb + 1), n + 1)) (m_start_idx hb, 0) of
        None \<Rightarrow> Inl Diverges
      | Some r \<Rightarrow> r)"

fun zero_copy :: "httpbuffer \<Rightarrow> nat \<Rightarrow> nat \<Rightarrow> string res" where
  "zero_copy hb idx 0 = Inr []"
| "zero_copy hb idx (Suc n) =
     (if length (m_buffer hb) \<le> idx then Inl OutOfBounds
      else bindR (zero_copy hb ((idx + 1) mod (hb_capacity hb + 1)) n) (\<lambda>cs.
        Inr (m_buffer hb ! idx # cs)))"

definition read_by_zero :: "httpbuffer \<Rightarrow> (string \<times> httpbuffer) res" where
  "read_by_zero hb =
     bindR (zero_count hb) (\<lambda>n.
     bindR (zero_copy hb (m_start_idx hb) n) (\<lambda>ret.
       Inr (ret @ [NUL], hb\<lparr>m_start_idx := m_start_idx hb + (n + 1),
                            hb_size := size_sub (hb_size hb) n\<rparr>)))"

definition get_val :: "nat \<Rightarrow> httpbuffer \<Rightarrow> char res" where
  "get_val idx hb = (if idx < length (m_buffer hb) then Inr (m_buffer hb ! idx) else Inl OutOfBounds)"

definition set_val :: "char \<Rightarrow> nat \<Rightarrow> httpbuffer \<Rightarrow> httpbuffer res" where
  "set_val v idx hb =
     (if idx < length (m_buffer hb) then Inr (hb\<lparr>m_buffer := (m_buffer hb)[idx := v]\<rparr>)
      else Inl OutOfBounds)"

text \<open>\<open>next(val, idx)\<close>: the new value of \<open>val\<close> and \<open>idx\<close> when it returns true.\<close>

definition hb_next :: "nat \<Rightarrow> httpbuffer \<Rightarrow> ((char \<times> nat) option) res" where
  "hb_next idx hb =
     (if m_start_idx hb = m_end_idx hb then Inr None
      else if m_start_idx hb < m_end_idx hb then
        if idx < m_start_idx hb \<or> m_end_idx hb \<le> idx then Inr None
        else bindR (get_val (idx + 1) hb) (\<lambda>c. Inr (Some (c, idx + 1)))
      else
        if m_end_idx hb \<le> idx \<or> idx < m_start_idx hb then Inr None
        else let idx = (idx + 1) mod (hb_capacity hb + 1) in
          bindR (get_val idx hb) (\<lambda>c. Inr (Some (c, idx))))"

definition get_available_size :: "httpbuffer \<Rightarrow> nat" where
  "get_available_size hb =
     (if m_start_idx hb \<le> m_end_idx hb
      then size_sub (hb_capacity hb + 1) (m_start_idx hb) + m_end_idx hb
      else m_start_idx hb - m_end_idx hb)"

definition get_data_size :: "httpbuffer \<Rightarrow> nat" where
  "get_data_size hb = hb_size hb"

definition get_last_idx :: "httpbuffer \<Rightarrow> nat res" where
  "get_last_idx hb =
     bindR (assertR (m_end_idx hb \<noteq> m_start_idx hb)) (\<lambda>_.
       Inr (if m_end_idx hb = 0 then hb_capacity hb else m_end_idx hb - 1))"

definition next_idx :: "nat \<Rightarrow> httpbuffer \<Rightarrow> nat res" where
  "next_idx idx hb =
     (if hb_capacity hb = 0 then Inl DivZero else Inr ((idx + 1) mod hb_capacity hb))"

definition pre_idx :: "nat \<Rightarrow> httpbuffer \<Rightarrow> nat" where
  "pre_idx idx hb = (if idx = 0 then hb_capacity hb - 1 else idx - 1)"

subsection \<open>The linear regime\<close>

text \<open>
  The data lies in one piece and its end is below the last byte of the block. \<open>pending\<close> is
  the unread data.
\<close>

definition hb_lin :: "httpbuffer \<Rightarrow> bool" where
  "hb_lin hb \<longleftrightarrow>
     length (m_buffer hb) = hb_capacity hb + 1 \<and> m_start_idx hb \<le> m_end_idx hb \<and>
     m_end_idx hb < hb_capacity hb \<and> hb_size hb = m_end_idx hb - m_start_idx hb"

definition pending :: "httpbuffer \<Rightarrow> string" where
  "pending hb = take (m_end_idx hb - m_start_idx hb) (drop (m_start_idx hb) (m_buffer hb))"

lemma length_pending: "hb_lin hb \<Longrightarrow> length (pending hb) = m_end_idx hb - m_start_idx hb"
  by (auto simp: hb_lin_def pending_def)

lemma hb_lin_new: "0 < capacity \<Longrightarrow> hb_lin (new_HttpBuffer capacity)"
  by (simp add: hb_lin_def new_HttpBuffer_def)

lemma pending_new [simp]: "pending (new_HttpBuffer capacity) = []"
  by (simp add: pending_def new_HttpBuffer_def)

lemma hb_write_linear:
  assumes "hb_lin hb" "len \<le> length buffer" "m_end_idx hb + len < hb_capacity hb"
  shows "\<exists>hb'. hb_write buffer len hb = Inr (True, hb') \<and> hb_lin hb'
    \<and> pending hb' = pending hb @ take len buffer \<and> m_start_idx hb' = m_start_idx hb
    \<and> m_end_idx hb' = m_end_idx hb + len \<and> hb_capacity hb' = hb_capacity hb"
proof -
  let ?hb = "hb\<lparr>m_buffer := blit (m_buffer hb) (m_end_idx hb) (take len buffer),
      m_end_idx := m_end_idx hb + len, hb_size := hb_size hb + len\<rparr>"
  have w: "hb_write buffer len hb = Inr (True, ?hb)"
    using assms by (auto simp: hb_write_def hb_lin_def memcpy_def Let_def)
  have "hb_lin ?hb" using assms by (auto simp: hb_lin_def)
  moreover have "pending ?hb = pending hb @ take len buffer"
  proof -
    have "take (m_end_idx hb + len) (blit (m_buffer hb) (m_end_idx hb) (take len buffer))
        = take (m_end_idx hb) (m_buffer hb) @ take len buffer"
      using take_blit [of "m_end_idx hb" "m_buffer hb" "take len buffer"] assms
      by (simp add: hb_lin_def min_absorb2)
    then show ?thesis
      using assms by (simp add: pending_def hb_lin_def take_drop)
  qed
  ultimately show ?thesis using w by simp
qed

lemma read_by_size_linear:
  assumes "hb_lin hb"
  shows "read_by_size n hb =
    (if length (pending hb) < n then Inr (None, hb) else Inr (Some (take n (pending hb)), hb_consume n hb))"
proof (cases "length (pending hb) < n")
  case True
  then show ?thesis using assms by (simp add: read_by_size_def length_pending) (simp add: hb_lin_def)
next
  case False
  then have "m_start_idx hb + n \<le> length (m_buffer hb)"
    using assms by (auto simp: length_pending) (auto simp: hb_lin_def)
  moreover have "blit (replicate n NUL) 0 (take n (drop (m_start_idx hb) (m_buffer hb)))
      = take n (drop (m_start_idx hb) (m_buffer hb))"
    using calculation by (simp add: blit_def)
  ultimately show ?thesis
    using assms False
    by (simp add: read_by_size_def length_pending)
      (auto simp: hb_lin_def pending_def min_def memcpy_def)
qed

lemma hb_consume_linear:
  assumes "hb_lin hb" "n \<le> length (pending hb)"
  shows "hb_lin (hb_consume n hb)" "pending (hb_consume n hb) = drop n (pending hb)"
    "m_start_idx (hb_consume n hb) = m_start_idx hb + n"
    "m_end_idx (hb_consume n hb) = m_end_idx hb"
    "hb_capacity (hb_consume n hb) = hb_capacity hb"
    "m_buffer (hb_consume n hb) = m_buffer hb"
proof -
  have n: "n \<le> m_end_idx hb - m_start_idx hb" using assms by (simp add: length_pending)
  then have "(m_start_idx hb + n) mod (hb_capacity hb + 1) = m_start_idx hb + n"
    using assms(1) by (auto simp: hb_lin_def)
  then show "hb_lin (hb_consume n hb)" "pending (hb_consume n hb) = drop n (pending hb)"
    "m_start_idx (hb_consume n hb) = m_start_idx hb + n"
    using n assms(1) by (auto simp: hb_consume_def hb_lin_def pending_def drop_take ac_simps)
qed (simp_all add: hb_consume_def)

lemma read_by_end_linear:
  assumes "hb_lin hb" "0 < n" "n \<le> length (pending hb)"
  shows "read_by_end (int (m_start_idx hb + n)) hb = Inr (Some (take n (pending hb)), hb_consume n hb)"
proof -
  have le: "m_start_idx hb + n \<le> m_end_idx hb" "m_end_idx hb < length (m_buffer hb)"
    "m_start_idx hb \<le> m_end_idx hb"
    using assms by (auto simp: length_pending) (auto simp: hb_lin_def)
  have idx: "nat (int (m_start_idx hb + n) - 1) = m_start_idx hb + n - 1" by simp
  have n: "m_start_idx hb + n - 1 - m_start_idx hb + 1 = n" using assms(2) by simp
  have "blit (replicate n NUL) 0 (take n (drop (m_start_idx hb) (m_buffer hb)))
      = take n (drop (m_start_idx hb) (m_buffer hb))"
    using le by (simp add: blit_def)
  moreover have "take n (pending hb) = take n (drop (m_start_idx hb) (m_buffer hb))"
    using le by (simp add: pending_def min_def)
  moreover have "\<not> int (m_start_idx hb + n) - 1 < 0" using assms(2) by simp
  moreover have "\<not> (m_start_idx hb + n - 1 < m_start_idx hb \<or> m_end_idx hb \<le> m_start_idx hb + n - 1)"
    using le assms(2) by linarith
  ultimately show ?thesis
    using le n
    unfolding read_by_end_def Let_def
    by (simp add: memcpy_def idx del: of_nat_add)
qed

lemma zero_count_linear:
  assumes "hb_lin hb" "NUL \<notin> set (pending hb)"
  shows "zero_count hb = Inr (length (pending hb))"
proof -
  let ?n = "length (pending hb)" and ?s = "m_start_idx hb"
  have n: "?n = m_end_idx hb - ?s" using length_pending [OF assms(1)] .
  have nul: "m_buffer hb ! (?s + j) \<noteq> NUL" if "j < ?n" for j
  proof -
    have "pending hb ! j = m_buffer hb ! (?s + j)"
      using that assms(1) n by (auto simp: pending_def hb_lin_def)
    then show ?thesis using assms(2) that by (metis nth_mem)
  qed
  have "scan (hb_capacity hb + 2) (zero_stop hb)
      (\<lambda>(idx, n). ((idx + 1) mod (hb_capacity hb + 1), n + 1)) ((\<lambda>j. (?s + j, j)) 0) = Some (Inr ?n)"
  proof (rule scan_steps [of ?n])
    fix j assume "j < ?n"
    then show "zero_stop hb (?s + j, j) = None"
      using nul n assms(1) by (auto simp: zero_stop_def hb_lin_def)
  next
    fix j assume "j < ?n"
    then show "(case (?s + j, j) of (idx, n) \<Rightarrow> ((idx + 1) mod (hb_capacity hb + 1), n + 1))
        = (?s + Suc j, Suc j)"
      using n assms(1) by (auto simp: hb_lin_def)
  qed (use n assms(1) in \<open>auto simp: zero_stop_def hb_lin_def\<close>)
  then show ?thesis by (simp add: zero_count_def)
qed

lemma zero_copy_linear:
  "idx + n \<le> hb_capacity hb \<Longrightarrow> length (m_buffer hb) = hb_capacity hb + 1 \<Longrightarrow>
     zero_copy hb idx n = Inr (take n (drop idx (m_buffer hb)))"
proof (induction n arbitrary: idx)
  case (Suc n)
  then have "drop idx (m_buffer hb) = m_buffer hb ! idx # drop (Suc idx) (m_buffer hb)"
    by (simp add: Cons_nth_drop_Suc)
  then show ?case using Suc by simp
qed simp

lemma read_by_zero_linear:
  assumes "hb_lin hb" "NUL \<notin> set (pending hb)"
  shows "read_by_zero hb =
    Inr (pending hb @ [NUL], hb\<lparr>m_start_idx := m_end_idx hb + 1, hb_size := 0\<rparr>)"
proof -
  have "m_start_idx hb + length (pending hb) = m_end_idx hb" "hb_size hb = length (pending hb)"
    using assms(1) by (simp_all add: length_pending) (simp_all add: hb_lin_def)
  moreover from this have "zero_copy hb (m_start_idx hb) (length (pending hb)) = Inr (pending hb)"
    using assms(1) by (subst zero_copy_linear) (auto simp: hb_lin_def pending_def)
  ultimately show ?thesis
    by (simp add: read_by_zero_def zero_count_linear [OF assms])
qed

text \<open>The cut-off of the counting loop loses nothing: where it reports \<open>Diverges\<close>, no number
  of further rounds ends the loop.\<close>

lemma zero_count_diverges:
  assumes "zero_count hb = Inl Diverges" "m_start_idx hb \<le> hb_capacity hb"
  shows "scan f (zero_stop hb) (\<lambda>(idx, n). ((idx + 1) mod (hb_capacity hb + 1), n + 1))
    (m_start_idx hb, 0) = None"
proof -
  let ?nx = "\<lambda>i. (i + 1) mod (hb_capacity hb + 1)"
  let ?nxp = "\<lambda>(idx, n). ((idx + 1) mod (hb_capacity hb + 1), n + 1)"
  let ?stop = "\<lambda>i. zero_stop hb (i, 0)"
  have pw: "(?nxp ^^ j) (i, n) = ((?nx ^^ j) i, n + j)" for i n j
    by (induction j) auto
  have stop: "zero_stop hb (i, n) = None \<longleftrightarrow> ?stop i = None" for i n
    by (simp add: zero_stop_def)
  have eq: "scan k (zero_stop hb) ?nxp (m_start_idx hb, 0) = None \<longleftrightarrow> scan k ?stop ?nx (m_start_idx hb) = None"
    for k unfolding scan_None_iff pw using stop by blast
  have "scan (hb_capacity hb + 2) (zero_stop hb) ?nxp (m_start_idx hb, 0) = None"
    using assms(1) by (auto simp: zero_count_def zero_stop_def split: option.splits
        dest!: scan_Some_stop split: if_splits)
  then have "scan (hb_capacity hb + 1) ?stop ?nx (m_start_idx hb) = None"
    unfolding eq by (rule scan_None_mono) simp
  then show ?thesis
    using scan_decides [of "hb_capacity hb + 1" ?nx "m_start_idx hb" ?stop f] assms(2) eq
    by (simp del: scan.simps)
qed

subsection \<open>The queue contract\<close>

text \<open>
  What a session relies on: while there is room, what is put in comes out in the same order,
  in pieces of any size.
\<close>

locale fifo_buffer =
  fixes inv :: "'s \<Rightarrow> bool"
    and content :: "'s \<Rightarrow> 'a list"
    and room :: "'s \<Rightarrow> nat"
    and put :: "'a list \<Rightarrow> 's \<Rightarrow> (bool \<times> 's) res"
    and get :: "nat \<Rightarrow> 's \<Rightarrow> ('a list option \<times> 's) res"
  assumes put_law: "inv s \<Longrightarrow> length xs \<le> room s \<Longrightarrow>
      \<exists>s'. put xs s = Inr (True, s') \<and> inv s' \<and> content s' = content s @ xs
         \<and> room s' = room s - length xs"
    and get_law: "inv s \<Longrightarrow> n \<le> length (content s) \<Longrightarrow>
      \<exists>s'. get n s = Inr (Some (take n (content s)), s') \<and> inv s' \<and> content s' = drop n (content s)"
begin

fun put_all :: "'a list list \<Rightarrow> 's \<Rightarrow> 's res" where
  "put_all [] s = Inr s"
| "put_all (xs # xss) s = bindR (put xs s) (\<lambda>(ok, s). put_all xss s)"

fun get_all :: "nat list \<Rightarrow> 's \<Rightarrow> ('a list option list \<times> 's) res" where
  "get_all [] s = Inr ([], s)"
| "get_all (n # ns) s = bindR (get n s) (\<lambda>(r, s). bindR (get_all ns s) (\<lambda>(rs, s). Inr (r # rs, s)))"

lemma put_all_law:
  "inv s \<Longrightarrow> length (concat xss) \<le> room s \<Longrightarrow>
     \<exists>s'. put_all xss s = Inr s' \<and> inv s' \<and> content s' = content s @ concat xss"
proof (induction xss arbitrary: s)
  case (Cons xs xss)
  then obtain s1 where "put xs s = Inr (True, s1)" "inv s1" "content s1 = content s @ xs"
    "room s1 = room s - length xs"
    using put_law [OF Cons.prems(1), of xs] by auto
  moreover have "length (concat xss) \<le> room s - length xs" using Cons.prems(2) by simp
  moreover from calculation obtain s2 where "put_all xss s1 = Inr s2" "inv s2"
    "content s2 = content s1 @ concat xss"
    using Cons.IH [of s1] by auto
  ultimately show ?case by simp
qed simp

lemma get_all_law:
  "inv s \<Longrightarrow> content s = concat xss @ zs \<Longrightarrow>
     \<exists>s'. get_all (map length xss) s = Inr (map Some xss, s') \<and> inv s' \<and> content s' = zs"
proof (induction xss arbitrary: s)
  case (Cons xs xss)
  then obtain s1 where s1: "get (length xs) s = Inr (Some xs, s1)" "inv s1" "content s1 = concat xss @ zs"
    using get_law [OF Cons.prems(1), of "length xs"] by auto
  obtain s2 where "get_all (map length xss) s1 = Inr (map Some xss, s2)" "inv s2" "content s2 = zs"
    using Cons.IH [OF s1(2,3)] by blast
  then show ?case using s1 by simp
qed simp

lemma get_after_put:
  assumes "inv s" "content s = []" "length (concat xss) \<le> room s" "concat yss = concat xss"
  shows "\<exists>s1 s2. put_all xss s = Inr s1 \<and> get_all (map length yss) s1 = Inr (map Some yss, s2)
    \<and> content s2 = []"
proof -
  obtain s1 where s1: "put_all xss s = Inr s1" "inv s1" "content s1 = concat yss @ []"
    using put_all_law [OF assms(1,3)] assms(2,4) by auto
  then show ?thesis using get_all_law [OF s1(2,3)] by auto
qed

end

definition hb_put :: "string \<Rightarrow> httpbuffer \<Rightarrow> (bool \<times> httpbuffer) res" where
  "hb_put xs hb = hb_write xs (length xs) hb"

definition hb_room :: "httpbuffer \<Rightarrow> nat" where
  "hb_room hb = hb_capacity hb - 1 - m_end_idx hb"

interpretation hb: fifo_buffer hb_lin pending hb_room hb_put read_by_size
proof unfold_locales
  show "\<exists>hb'. hb_put xs hb = Inr (True, hb') \<and> hb_lin hb' \<and> pending hb' = pending hb @ xs
      \<and> hb_room hb' = hb_room hb - length xs"
    if "hb_lin hb" "length xs \<le> hb_room hb" for hb xs
  proof -
    have "m_end_idx hb + length xs < hb_capacity hb"
      using that by (auto simp: hb_room_def hb_lin_def)
    then show ?thesis
      using hb_write_linear [OF that(1), of "length xs" xs] by (auto simp: hb_put_def hb_room_def)
  qed
  show "\<exists>hb'. read_by_size n hb = Inr (Some (take n (pending hb)), hb') \<and> hb_lin hb'
      \<and> pending hb' = drop n (pending hb)"
    if "hb_lin hb" "n \<le> length (pending hb)" for hb n
    using read_by_size_linear [OF that(1), of n] hb_consume_linear [OF that] that(2) by auto
qed

subsection \<open>Properties\<close>

fun write_chunks :: "string list \<Rightarrow> httpbuffer \<Rightarrow> httpbuffer res" where
  "write_chunks [] hb = Inr hb"
| "write_chunks (xs # xss) hb = bindR (hb_write xs (length xs) hb) (\<lambda>(ok, hb). write_chunks xss hb)"

fun read_chunks :: "nat list \<Rightarrow> httpbuffer \<Rightarrow> (string option list \<times> httpbuffer) res" where
  "read_chunks [] hb = Inr ([], hb)"
| "read_chunks (n # ns) hb =
     bindR (read_by_size n hb) (\<lambda>(r, hb). bindR (read_chunks ns hb) (\<lambda>(rs, hb). Inr (r # rs, hb)))"

lemma write_chunks_put_all: "write_chunks xss hb = hb.put_all xss hb"
  by (induction xss arbitrary: hb) (simp_all add: hb_put_def case_prod_unfold)

lemma read_chunks_get_all: "read_chunks ns hb = hb.get_all ns hb"
  by (induction ns arbitrary: hb) (simp_all add: case_prod_unfold)

text \<open>
  C26. First in, first out: chunks written to a fresh buffer, as long as they stay below the
  capacity, come out of \<open>read_by_size\<close> in order and complete, whatever sizes they are read
  in, and leave the buffer empty.
\<close>

theorem buffer_fifo:
  assumes "length (concat xss) < capacity" "concat yss = concat xss"
  shows "\<exists>hb1 hb2. write_chunks xss (new_HttpBuffer capacity) = Inr hb1
    \<and> read_chunks (map length yss) hb1 = Inr (map Some yss, hb2) \<and> pending hb2 = []"
proof -
  have "length (concat xss) \<le> hb_room (new_HttpBuffer capacity)"
    using assms(1) by (simp add: hb_room_def new_HttpBuffer_def)
  then show ?thesis
    using hb.get_after_put [OF hb_lin_new _ _ assms(2), of capacity] assms(1)
    by (simp add: write_chunks_put_all read_chunks_get_all)
qed

theorem buffer_fifo_witness:
  "\<exists>hb1 hb2. write_chunks [''ab'', ''cde''] (new_HttpBuffer 8) = Inr hb1
    \<and> read_chunks [1, 4] hb1 = Inr ([Some ''a'', Some ''bcde''], hb2) \<and> pending hb2 = []"
  using buffer_fifo [of "[''ab'', ''cde'']" 8 "[''a'', ''bcde'']"] by (simp add: numeral_eq_Suc)

text \<open>
  A full ring looks empty: after four bytes have been written to a buffer of capacity
  four and two read, a further write of three bytes is accepted and makes both indices equal,
  so five stored bytes are reported by the size and none can be read.
\<close>

lemma full_ring_looks_empty:
  "bindR (hb_write ''abcd'' 4 (new_HttpBuffer 4)) (\<lambda>(_, hb).
   bindR (read_by_size 2 hb) (\<lambda>(_, hb).
   bindR (hb_write ''xyz'' 3 hb) (\<lambda>(ok, hb).
   bindR (read_by_size 1 hb) (\<lambda>(r, _). Inr (ok, get_data_size hb, hb_empty hb, r)))))
   = Inr (True, 5, True, None)"
  by code_simp

end
