(* ===== verification/HttpParser.thy ===== *)
theory HttpParser
  imports HttpBuffer Text
begin

text \<open>
  \<open>sherry/http/http_parser.h\<close>, \<open>sherry/http/http_parser.cc\<close>: the incremental parser of HTTP
  requests that works in place on the read buffer of a session. The C string functions the
  parser calls are functions on the characters before the terminating zero. A \<open>char*\<close> into
  an array is the rest of that array. Every loop that may run forever reports \<open>Diverges\<close>.
\<close>

subsection \<open>C strings\<close>

text \<open>The string a \<open>char*\<close> stands for; without a zero in the array the scan leaves it.\<close>

definition cstr :: "string \<Rightarrow> string res" where
  "cstr text = (if NUL \<in> set text then Inr (takeWhile (\<lambda>c. c \<noteq> NUL) text) else Inl OutOfBounds)"

definition is_ws :: "char \<Rightarrow> bool" where
  "is_ws c \<longleftrightarrow> c = CHR '' '' \<or> c = CHR 0x09"

text \<open>\<open>strpbrk(s, " \t")\<close> and \<open>s + strspn(s, " \t")\<close>.\<close>

definition strpbrk_ws :: "string \<Rightarrow> string option" where
  "strpbrk_ws s = (case dropWhile (\<lambda>c. \<not> is_ws c) s of [] \<Rightarrow> None | r \<Rightarrow> Some r)"

definition skip_ws :: "string \<Rightarrow> string" where
  "skip_ws s = dropWhile is_ws s"

text \<open>\<open>!strncmp(s, lit, strlen(lit))\<close>.\<close>

definition starts :: "string \<Rightarrow> string \<Rightarrow> bool" where
  "starts lit s \<longleftrightarrow> take (length lit) s = lit"

text \<open>\<open>strtol(s, &end, 10)\<close> for a 64-bit \<open>long\<close>: the value and the string at \<open>end\<close>.\<close>

definition strtol :: "string \<Rightarrow> int \<times> string" where
  "strtol s =
     (let s1 = dropWhile isspace s;
          neg = (take 1 s1 = ''-'');
          s2 = (if take 1 s1 = ''-'' \<or> take 1 s1 = ''+'' then drop 1 s1 else s1);
          ds = takeWhile is_digit s2
      in if ds = [] then (0, s)
         else let v = int (digits_val ds) in
           ((if neg then max (- v) (- (2 ^ 63)) else min v (2 ^ 63 - 1)), dropWhile is_digit s2))"

subsection \<open>The parser\<close>

datatype check_state = CHECK_STATE_REQUESTLINE | CHECK_STATE_HEADER | CHECK_STATE_CONTENT
datatype line_status = LINE_OK | LINE_OPEN | LINE_BAD
datatype http_code = INTERNAL_ERROR | BAD_REQUEST | NO_REQUEST | GET_REQUEST
datatype http_method = POST | GET | OPTIONS | NONE

record httpparser =
  m_read_idx :: int
  m_checked_idx :: nat
  m_start_line :: nat
  m_buffer_size :: nat
  m_request_body :: string
  m_check_state :: check_state
  m_method :: http_method
  m_uri :: string
  m_content_length :: int
  m_keep_alive :: bool
  m_host :: string

definition new_HttpParser :: "nat \<Rightarrow> httpparser" where
  "new_HttpParser buffer_size =
     \<lparr>m_read_idx = 0, m_checked_idx = 0, m_start_line = 0, m_buffer_size = buffer_size,
      m_request_body = '''', m_check_state = CHECK_STATE_REQUESTLINE, m_method = NONE,
      m_uri = '''', m_content_length = 0, m_keep_alive = False, m_host = ''''\<rparr>"

definition hp_update_buffer_size :: "nat \<Rightarrow> httpparser \<Rightarrow> httpparser" where
  "hp_update_buffer_size len p = p\<lparr>m_read_idx := to_int32 (m_read_idx p + int len)\<rparr>"

definition parse_request_line :: "string \<Rightarrow> httpparser \<Rightarrow> http_code \<times> httpparser" where
  "parse_request_line cur p =
     (case strpbrk_ws cur of
        None \<Rightarrow> (BAD_REQUEST, p)
      | Some uri0 \<Rightarrow>
          let uri = skip_ws uri0;
              meth = (if starts ''POST'' cur then Some POST
                      else if starts ''GET'' cur then Some GET
                      else if starts ''OPTIONS'' cur then Some OPTIONS
                      else None)
          in case meth of
               None \<Rightarrow> (BAD_REQUEST, p)
             | Some mt \<Rightarrow>
                 let p = p\<lparr>m_method := mt\<rparr> in
                 (case strpbrk_ws uri of
                    None \<Rightarrow> (BAD_REQUEST, p)
                  | Some version0 \<Rightarrow>
                      let p = p\<lparr>m_uri := take (length uri - length version0) uri\<rparr> in
                      if \<not> starts ''HTTP/1.1'' (skip_ws version0) then (BAD_REQUEST, p)
                      else (NO_REQUEST, p\<lparr>m_check_state := CHECK_STATE_HEADER\<rparr>)))"

definition parse_headers :: "string \<Rightarrow> httpparser \<Rightarrow> http_code \<times> httpparser" where
  "parse_headers cur p =
     (if cur = [] then
        if m_content_length p \<noteq> 0 then (NO_REQUEST, p\<lparr>m_check_state := CHECK_STATE_CONTENT\<rparr>)
        else (GET_REQUEST, p)
      else if starts ''Connection:'' cur then
        (NO_REQUEST, p\<lparr>m_keep_alive := (skip_ws (drop 11 cur) \<noteq> ''Close'')\<rparr>)
      else if starts ''Content-Length:'' cur then
        (case strtol (skip_ws (drop 15 cur)) of (v, end_ptr) \<Rightarrow>
           (NO_REQUEST, p\<lparr>m_content_length := (if end_ptr \<noteq> [] then 0 else to_int32 v)\<rparr>))
      else if starts ''Host:'' cur then
        (NO_REQUEST, p\<lparr>m_host := skip_ws (drop 5 cur)\<rparr>)
      else if starts ''Content-type:'' cur then
        if \<not> starts ''application/json'' (skip_ws (drop 13 cur)) then (BAD_REQUEST, p)
        else (NO_REQUEST, p)
      else (NO_REQUEST, p))"

text \<open>\<open>text[m_content_length] = 0\<close> is checked against the array \<open>read_by_zero\<close> returned.\<close>

definition parse_content :: "string \<Rightarrow> httpparser \<Rightarrow> (http_code \<times> httpparser) res" where
  "parse_content text p =
     (if \<not> int32_ok (m_content_length p + int (m_checked_idx p)) then Inl IntOverflow
      else if m_read_idx p \<ge> m_content_length p + int (m_checked_idx p) then
        if m_content_length p < 0 \<or> int (length text) \<le> m_content_length p then Inl OutOfBounds
        else bindR (cstr (text[nat (m_content_length p) := NUL])) (\<lambda>body.
          Inr (GET_REQUEST, p\<lparr>m_request_body := body\<rparr>))
      else Inr (NO_REQUEST, p))"

text \<open>
  The body of the loop of \<open>parse_line\<close> at index \<open>i\<close>: \<open>None\<close> when the loop goes on, otherwise
  the status, the new \<open>m_checked_idx\<close> and the buffer.
\<close>

definition parse_line_stop ::
  "httpbuffer \<Rightarrow> nat \<Rightarrow> ((line_status \<times> nat \<times> httpbuffer) res) option" where
  "parse_line_stop hb i =
     (if i = m_end_idx hb then Some (Inr (LINE_OPEN, i, hb))
      else case get_val i hb of
        Inl e \<Rightarrow> Some (Inl e)
      | Inr temp \<Rightarrow>
          if temp = CHR 0x0D then
            Some (bindR (next_idx i hb) (\<lambda>ni.
              if ni = m_end_idx hb then Inr (LINE_OPEN, i, hb)
              else bindR (get_val ni hb) (\<lambda>c.
                if c = CHR 0x0A then
                  bindR (set_val NUL i hb) (\<lambda>hb.
                  bindR (set_val NUL ni hb) (\<lambda>hb.
                  bindR (next_idx ni hb) (\<lambda>nni. Inr (LINE_OK, nni, hb))))
                else Inr (LINE_BAD, i, hb))))
          else if temp = CHR 0x0A then
            (let pi = pre_idx i hb in
             if i \<noteq> m_start_idx hb then
               Some (bindR (get_val pi hb) (\<lambda>c.
                 if c = CHR 0x0D then
                   bindR (set_val NUL pi hb) (\<lambda>hb.
                   bindR (set_val NUL i hb) (\<lambda>hb.
                   bindR (next_idx i hb) (\<lambda>ni. Inr (LINE_OK, ni, hb))))
                 else Inr (LINE_BAD, i, hb)))
             else Some (Inr (LINE_BAD, i, hb)))
          else if hb_capacity hb = 0 then Some (Inl DivZero)
          else None)"

text \<open>
  The index moves by \<open>next_idx\<close>, so it stays below \<open>max (m_checked_idx + 1) m_capacity\<close> and
  that many rounds decide whether the loop ends.
\<close>

definition parse_line :: "httpparser \<Rightarrow> httpbuffer \<Rightarrow> (line_status \<times> httpparser \<times> httpbuffer) res" where
  "parse_line p hb =
     (case scan (max (m_checked_idx p + 1) (hb_capacity hb)) (parse_line_stop hb)
             (\<lambda>i. (i + 1) mod hb_capacity hb) (m_checked_idx p) of
        None \<Rightarrow> Inl Diverges
      | Some r \<Rightarrow> bindR r (\<lambda>(st, ci, hb). Inr (st, p\<lparr>m_checked_idx := ci\<rparr>, hb)))"

text \<open>One round of the loop of \<open>process_read\<close>; \<open>Inl\<close> in the result is a \<open>return\<close>.\<close>

definition process_round ::
  "httpparser \<Rightarrow> httpbuffer \<Rightarrow> ((http_code + line_status) \<times> httpparser \<times> httpbuffer) res" where
  "process_round p hb =
     bindR (if m_check_state p = CHECK_STATE_CONTENT
            then bindR (read_by_zero hb) (\<lambda>(t, hb). Inr (Some t, hb))
            else read_by_end (int (m_checked_idx p)) hb) (\<lambda>(data, hb).
     case data of
       None \<Rightarrow> Inl LogicError
     | Some text \<Rightarrow>
         bindR (cstr text) (\<lambda>line.
         let p = p\<lparr>m_start_line := m_checked_idx p\<rparr> in
         case m_check_state p of
           CHECK_STATE_REQUESTLINE \<Rightarrow>
             (case parse_request_line line p of (ret, p) \<Rightarrow>
                Inr (if ret = BAD_REQUEST then Inl BAD_REQUEST else Inr LINE_OK, p, hb))
         | CHECK_STATE_HEADER \<Rightarrow>
             (case parse_headers line p of (ret, p) \<Rightarrow>
                Inr (if ret = BAD_REQUEST then Inl BAD_REQUEST
                     else if ret = GET_REQUEST then Inl GET_REQUEST else Inr LINE_OK, p, hb))
         | CHECK_STATE_CONTENT \<Rightarrow>
             bindR (parse_content text p) (\<lambda>(ret, p).
                Inr (if ret = GET_REQUEST then Inl GET_REQUEST else Inr LINE_OPEN, p, hb))))"

fun process_read_loop ::
  "nat \<Rightarrow> line_status \<Rightarrow> httpparser \<Rightarrow> httpbuffer \<Rightarrow> (http_code \<times> httpparser \<times> httpbuffer) res" where
  "process_read_loop 0 line_status p hb = Inl Diverges"
| "process_read_loop (Suc fuel) line_status p hb =
     bindR (if m_check_state p = CHECK_STATE_CONTENT \<and> line_status = LINE_OK
            then Inr (LINE_OK, p, hb) else parse_line p hb) (\<lambda>(st, p, hb).
     if st \<noteq> LINE_OK then Inr (NO_REQUEST, p, hb)
     else bindR (process_round p hb) (\<lambda>(r, p, hb).
       case r of Inl code \<Rightarrow> Inr (code, p, hb)
       | Inr st \<Rightarrow> process_read_loop fuel st p hb))"

definition process_read ::
  "nat \<Rightarrow> httpparser \<Rightarrow> httpbuffer \<Rightarrow> (http_code \<times> httpparser \<times> httpbuffer) res" where
  "process_read fuel p hb = process_read_loop fuel LINE_OK p hb"

definition get_method :: "httpparser \<Rightarrow> string" where
  "get_method p =
     (if m_method p = POST then ''POST'' else if m_method p = GET then ''GET''
      else if m_method p = OPTIONS then ''OPTIONS'' else '''')"

definition get_uri :: "httpparser \<Rightarrow> string" where
  "get_uri p = m_uri p"

definition get_body :: "httpparser \<Rightarrow> string" where
  "get_body p = m_request_body p"

subsection \<open>Lines in the linear regime\<close>

abbreviation CR :: char where "CR \<equiv> CHR 0x0D"
abbreviation LF :: char where "LF \<equiv> CHR 0x0A"

definition clean :: "string \<Rightarrow> bool" where
  "clean l \<longleftrightarrow> CR \<notin> set l \<and> LF \<notin> set l \<and> NUL \<notin> set l"

lemma CR_neq [simp]: "CR \<noteq> LF" "LF \<noteq> CR" "NUL \<noteq> CR" "NUL \<noteq> LF" "CR \<noteq> NUL" "LF \<noteq> NUL"
  by (simp_all add: NUL_def)

lemma nth_pending:
  "hb_lin hb \<Longrightarrow> m_start_idx hb + j < m_end_idx hb \<Longrightarrow> m_buffer hb ! (m_start_idx hb + j) = pending hb ! j"
  by (auto simp: pending_def hb_lin_def)

text \<open>The part of the pending data that \<open>parse_line\<close> has not looked at yet.\<close>

definition unseen :: "httpparser \<Rightarrow> httpbuffer \<Rightarrow> string" where
  "unseen p hb = drop (m_checked_idx p - m_start_idx hb) (pending hb)"

definition hp_lin :: "httpparser \<Rightarrow> httpbuffer \<Rightarrow> bool" where
  "hp_lin p hb \<longleftrightarrow> hb_lin hb \<and> m_start_idx hb \<le> m_checked_idx p \<and> m_checked_idx p \<le> m_end_idx hb"

lemma length_unseen:
  "hp_lin p hb \<Longrightarrow> length (unseen p hb) = m_end_idx hb - m_checked_idx p"
  by (auto simp: hp_lin_def unseen_def length_pending)

lemma get_val_unseen:
  assumes "hp_lin p hb" "j < length (unseen p hb)"
  shows "get_val (m_checked_idx p + j) hb = Inr (unseen p hb ! j)"
proof -
  have lin: "hb_lin hb" and le: "m_start_idx hb \<le> m_checked_idx p"
    "m_checked_idx p + j < m_end_idx hb"
    using assms length_unseen [OF assms(1)] by (auto simp: hp_lin_def)
  have "unseen p hb ! j = pending hb ! (m_checked_idx p - m_start_idx hb + j)"
    using assms by (simp add: unseen_def)
  also have "\<dots> = m_buffer hb ! (m_checked_idx p + j)"
    using nth_pending [OF lin, of "m_checked_idx p - m_start_idx hb + j"] le by simp
  finally show ?thesis using lin le by (simp add: get_val_def hb_lin_def)
qed

lemma parse_line_scan:
  assumes lin: "hp_lin p hb" and u: "unseen p hb = l @ r" and l: "CR \<notin> set l" "LF \<notin> set l"
    and stop: "parse_line_stop hb (m_checked_idx p + length l) = Some res"
  shows "parse_line p hb = bindR res (\<lambda>(st, ci, hb). Inr (st, p\<lparr>m_checked_idx := ci\<rparr>, hb))"
proof -
  let ?c = "m_checked_idx p"
  have len: "length l \<le> m_end_idx hb - ?c" using length_unseen [OF lin] u by simp
  have cap: "m_end_idx hb < hb_capacity hb" "?c \<le> m_end_idx hb"
    using lin by (auto simp: hp_lin_def hb_lin_def)
  have "scan (max (?c + 1) (hb_capacity hb)) (parse_line_stop hb) (\<lambda>i. (i + 1) mod hb_capacity hb)
      ((\<lambda>j. ?c + j) 0) = Some res"
  proof (rule scan_steps [of "length l"])
    fix j assume j: "j < length l"
    then have "unseen p hb ! j = l ! j" "l ! j \<noteq> CR" "l ! j \<noteq> LF"
      using u l by (auto simp: nth_append dest: nth_mem)
    moreover have "?c + j \<noteq> m_end_idx hb" using j len by linarith
    ultimately show "parse_line_stop hb (?c + j) = None"
      using get_val_unseen [OF lin, of j] j u cap by (simp add: parse_line_stop_def)
    show "(?c + j + 1) mod hb_capacity hb = ?c + Suc j"
      using j len cap by simp
  qed (use stop cap len in auto)
  then show ?thesis by (simp add: parse_line_def)
qed

text \<open>No line end: the whole data is checked and nothing else changes.\<close>

lemma parse_line_open:
  assumes "hp_lin p hb" "CR \<notin> set (unseen p hb)" "LF \<notin> set (unseen p hb)"
  shows "parse_line p hb = Inr (LINE_OPEN, p\<lparr>m_checked_idx := m_end_idx hb\<rparr>, hb)"
proof -
  have "m_checked_idx p + length (unseen p hb) = m_end_idx hb"
    using length_unseen [OF assms(1)] assms(1) by (simp add: hp_lin_def)
  then show ?thesis
    using parse_line_scan [OF assms(1), of "unseen p hb" "[]"] assms(2,3)
    by (simp add: parse_line_stop_def)
qed

text \<open>A carriage return at the end of the data: the parser waits at it.\<close>

lemma parse_line_open_CR:
  assumes lin: "hp_lin p hb" and u: "unseen p hb = l @ [CR]" and l: "CR \<notin> set l" "LF \<notin> set l"
  shows "parse_line p hb = Inr (LINE_OPEN, p\<lparr>m_checked_idx := m_checked_idx p + length l\<rparr>, hb)"
proof -
  let ?i = "m_checked_idx p + length l"
  have i: "Suc ?i = m_end_idx hb" "m_end_idx hb < hb_capacity hb"
    using length_unseen [OF lin] lin u by (auto simp: hp_lin_def hb_lin_def)
  have "get_val ?i hb = Inr CR" using get_val_unseen [OF lin, of "length l"] u by simp
  then have "parse_line_stop hb ?i = Some (Inr (LINE_OPEN, ?i, hb))"
    using i by (simp add: parse_line_stop_def next_idx_def)
  then show ?thesis using parse_line_scan [OF lin u l] by simp
qed

definition zap :: "nat \<Rightarrow> httpbuffer \<Rightarrow> httpbuffer" where
  "zap i hb = hb\<lparr>m_buffer := (m_buffer hb)[i := NUL, Suc i := NUL]\<rparr>"

text \<open>A complete line: its line end is overwritten and the index moves behind it.\<close>

lemma parse_line_ok:
  assumes lin: "hp_lin p hb" and u: "unseen p hb = l @ CR # LF # r"
    and l: "CR \<notin> set l" "LF \<notin> set l"
  shows "parse_line p hb = Inr (LINE_OK, p\<lparr>m_checked_idx := m_checked_idx p + length l + 2\<rparr>,
    zap (m_checked_idx p + length l) hb)"
proof -
  let ?i = "m_checked_idx p + length l"
  have i: "Suc (Suc ?i) \<le> m_end_idx hb" "m_end_idx hb < hb_capacity hb"
    "length (m_buffer hb) = Suc (hb_capacity hb)"
    using length_unseen [OF lin] lin u by (auto simp: hp_lin_def hb_lin_def)
  have v: "get_val ?i hb = Inr CR" "get_val (Suc ?i) hb = Inr LF"
    using get_val_unseen [OF lin, of "length l"] get_val_unseen [OF lin, of "Suc (length l)"] u
    by (simp_all add: nth_append)
  have "parse_line_stop hb ?i = Some (Inr (LINE_OK, ?i + 2, zap ?i hb))"
    using i v by (simp add: parse_line_stop_def next_idx_def set_val_def zap_def)
  then show ?thesis using parse_line_scan [OF lin u l] by simp
qed

lemma zap_lin [simp]: "hb_lin (zap i hb) = hb_lin hb" "m_start_idx (zap i hb) = m_start_idx hb"
  "m_end_idx (zap i hb) = m_end_idx hb" "hb_capacity (zap i hb) = hb_capacity hb"
  by (simp_all add: zap_def hb_lin_def)

lemma pending_zap:
  assumes "hb_lin hb" "pending hb = l @ CR # LF # r"
  shows "pending (zap (m_start_idx hb + length l) hb) = l @ NUL # NUL # r"
proof -
  have "pending (zap (m_start_idx hb + length l) hb) = (pending hb)[length l := NUL, Suc (length l) := NUL]"
    by (simp add: zap_def pending_def drop_update_swap take_update_swap flip: add_Suc_right)
  also have "\<dots> = l @ NUL # NUL # r" using assms(2) by (simp add: list_update_append)
  finally show ?thesis .
qed

subsection \<open>Whole requests\<close>

text \<open>
  The parser and the buffer between two lines, and the part of the parser state that does
  not concern positions.
\<close>

definition at_line :: "httpparser \<Rightarrow> httpbuffer \<Rightarrow> bool" where
  "at_line p hb \<longleftrightarrow> hb_lin hb \<and> m_checked_idx p = m_start_idx hb"

definition norm :: "httpparser \<Rightarrow> httpparser" where
  "norm p = p\<lparr>m_checked_idx := 0, m_start_line := 0\<rparr>"

lemma norm_fields [simp]:
  "m_read_idx (norm p) = m_read_idx p" "m_check_state (norm p) = m_check_state p"
  "m_method (norm p) = m_method p" "m_uri (norm p) = m_uri p"
  "m_content_length (norm p) = m_content_length p" "m_request_body (norm p) = m_request_body p"
  "m_keep_alive (norm p) = m_keep_alive p" "m_host (norm p) = m_host p"
  "norm (norm p) = norm p"
  by (simp_all add: norm_def)

lemma cstr_line: "NUL \<notin> set l \<Longrightarrow> cstr (l @ NUL # r) = Inr l"
  by (simp add: cstr_def takeWhile_append)

text \<open>How the loop goes on with the parser \<open>q\<close> after the line \<open>l\<close> has been cut off in state \<open>st\<close>.\<close>

definition after_line :: "check_state \<Rightarrow> string \<Rightarrow> httpparser \<Rightarrow> httpbuffer \<Rightarrow> nat
    \<Rightarrow> (http_code \<times> httpparser \<times> httpbuffer) res" where
  "after_line st l q hb fuel =
     (case (if st = CHECK_STATE_REQUESTLINE then parse_request_line l q else parse_headers l q) of
        (ret, q') \<Rightarrow>
          if ret = BAD_REQUEST then Inr (BAD_REQUEST, q', hb)
          else if ret = GET_REQUEST \<and> st = CHECK_STATE_HEADER then Inr (GET_REQUEST, q', hb)
          else process_read_loop fuel LINE_OK q' hb)"

lemma process_line:
  assumes at: "at_line p hb" and st: "m_check_state p \<noteq> CHECK_STATE_CONTENT"
    and pend: "pending hb = l @ CR # LF # r" and l: "clean l"
  obtains hb' q where "hb_lin hb'" "pending hb' = r" "m_start_idx hb' = m_checked_idx q"
    "m_end_idx hb' = m_end_idx hb" "hb_capacity hb' = hb_capacity hb" "norm q = norm p"
    "m_checked_idx q = m_checked_idx p + length l + 2"
    "\<And>fuel. process_read_loop (Suc fuel) LINE_OK p hb = after_line (m_check_state p) l q hb' fuel"
proof -
  let ?s = "m_start_idx hb" and ?n = "length l + 2"
  let ?z = "zap (?s + length l) hb"
  let ?p = "p\<lparr>m_checked_idx := m_checked_idx p + length l + 2\<rparr>"
  let ?q = "?p\<lparr>m_start_line := m_checked_idx p + length l + 2\<rparr>"
  have lin: "hb_lin hb" and c: "m_checked_idx p = ?s" using at by (auto simp: at_line_def)
  have hp: "hp_lin p hb" using lin c by (simp add: hp_lin_def hb_lin_def)
  have u: "unseen p hb = l @ CR # LF # r" using pend c by (simp add: unseen_def)
  have pl: "parse_line p hb = Inr (LINE_OK, ?p, ?z)"
    using parse_line_ok [OF hp u] l c by (simp add: clean_def)
  have pz: "pending ?z = l @ NUL # NUL # r" using pending_zap [OF lin pend] .
  have lz: "hb_lin ?z" using lin by simp
  have n: "?n \<le> length (pending ?z)" by (simp add: pz)
  have rd: "read_by_end (int (m_checked_idx ?p)) ?z = Inr (Some (l @ [NUL, NUL]), hb_consume ?n ?z)"
    using read_by_end_linear [OF lz _ n] pz c by (simp add: ac_simps)
  note cons = hb_consume_linear [OF lz n]
  have cs: "cstr (l @ [NUL, NUL]) = Inr l" using cstr_line [of l "[NUL]"] l by (simp add: clean_def)
  show thesis
  proof (rule that [of "hb_consume ?n ?z" ?q])
    show "process_read_loop (Suc fuel) LINE_OK p hb
        = after_line (m_check_state p) l ?q (hb_consume ?n ?z) fuel" for fuel
      using st pl rd cs
      by (cases "m_check_state p") (auto simp: process_round_def after_line_def split: prod.splits)
  qed (use cons pz c in \<open>auto simp: norm_def\<close>)
qed

text \<open>What one header line does to the parser depends on no position.\<close>

lemma norm_parse_headers:
  "norm p = norm q \<Longrightarrow> fst (parse_headers l p) = fst (parse_headers l q)
     \<and> norm (snd (parse_headers l p)) = norm (snd (parse_headers l q))"
proof -
  assume e: "norm p = norm q"
  have "parse_headers l (norm p) = map_prod id norm (parse_headers l p)" for p
    by (simp add: parse_headers_def norm_def split: prod.split)
  then show ?thesis using e by (metis fst_map_prod id_apply snd_map_prod)
qed

definition header_ok :: "string \<Rightarrow> bool" where
  "header_ok h \<longleftrightarrow> clean h \<and> h \<noteq> [] \<and> fst (parse_headers h (new_HttpParser 0)) = NO_REQUEST"

lemma header_ok_code: "header_ok h \<Longrightarrow> fst (parse_headers h p) = NO_REQUEST"
  by (auto simp: header_ok_def parse_headers_def split: if_splits prod.splits)

lemma parse_headers_state:
  "l \<noteq> [] \<Longrightarrow> m_check_state (snd (parse_headers l p)) = m_check_state p"
  by (simp add: parse_headers_def split: prod.split)

lemma parse_headers_checked: "m_checked_idx (snd (parse_headers l p)) = m_checked_idx p"
  by (simp add: parse_headers_def split: prod.split)

definition apply_headers :: "string list \<Rightarrow> httpparser \<Rightarrow> httpparser" where
  "apply_headers hs p = foldl (\<lambda>p h. snd (parse_headers h p)) p hs"

definition crlf_lines :: "string list \<Rightarrow> string" where
  "crlf_lines ls = concat (map (\<lambda>l. l @ [CR, LF]) ls)"

lemma apply_headers_Cons: "apply_headers (h # hs) p = apply_headers hs (snd (parse_headers h p))"
  by (simp add: apply_headers_def)

lemma norm_apply_headers:
  "norm p = norm q \<Longrightarrow> norm (apply_headers hs p) = norm (apply_headers hs q)"
proof (induction hs arbitrary: p q)
  case (Cons h hs)
  have "norm (snd (parse_headers h p)) = norm (snd (parse_headers h q))"
    using norm_parse_headers [OF Cons.prems] by blast
  then show ?case unfolding apply_headers_Cons by (rule Cons.IH)
qed (simp add: apply_headers_def)

lemma process_headers:
  assumes "at_line p hb" "m_check_state p = CHECK_STATE_HEADER"
    and "pending hb = crlf_lines hs @ r" "list_all header_ok hs"
  shows "\<exists>hb' q. at_line q hb' \<and> pending hb' = r \<and> m_end_idx hb' = m_end_idx hb
    \<and> hb_capacity hb' = hb_capacity hb
    \<and> norm q = norm (apply_headers hs p) \<and> m_check_state q = CHECK_STATE_HEADER
    \<and> m_checked_idx q = m_checked_idx p + length (crlf_lines hs)
    \<and> (\<forall>fuel. process_read_loop (length hs + fuel) LINE_OK p hb = process_read_loop fuel LINE_OK q hb')"
  using assms
proof (induction hs arbitrary: p hb)
  case Nil
  then show ?case by (auto simp: crlf_lines_def apply_headers_def)
next
  case (Cons h hs)
  have ok: "header_ok h" "clean h" "h \<noteq> []" using Cons.prems(4) by (auto simp: header_ok_def)
  have pend: "pending hb = h @ CR # LF # crlf_lines hs @ r"
    using Cons.prems(3) by (simp add: crlf_lines_def)
  have "m_check_state p \<noteq> CHECK_STATE_CONTENT" using Cons.prems(2) by simp
  from process_line [OF Cons.prems(1) this pend ok(2)] obtain hb1 q1 where
    1: "hb_lin hb1" "pending hb1 = crlf_lines hs @ r" "m_start_idx hb1 = m_checked_idx q1"
      "m_end_idx hb1 = m_end_idx hb" "hb_capacity hb1 = hb_capacity hb" "norm q1 = norm p"
      "m_checked_idx q1 = m_checked_idx p + length h + 2"
    and run: "\<And>fuel. process_read_loop (Suc fuel) LINE_OK p hb = after_line (m_check_state p) h q1 hb1 fuel"
    by blast
  let ?q = "snd (parse_headers h q1)"
  have run1: "process_read_loop (Suc fuel) LINE_OK p hb = process_read_loop fuel LINE_OK ?q hb1" for fuel
    using run [of fuel] header_ok_code [OF ok(1), of q1] Cons.prems(2)
    by (cases "parse_headers h q1") (auto simp: after_line_def)
  have st: "m_check_state ?q = CHECK_STATE_HEADER"
    using 1(6) Cons.prems(2) parse_headers_state [OF ok(3)] by (metis norm_fields(2))
  have "at_line ?q hb1" using 1 by (simp add: at_line_def parse_headers_checked)
  from Cons.IH [OF this st 1(2)] Cons.prems(4) obtain hb' q where
    2: "at_line q hb'" "pending hb' = r" "m_end_idx hb' = m_end_idx hb1"
      "hb_capacity hb' = hb_capacity hb1"
      "norm q = norm (apply_headers hs ?q)" "m_check_state q = CHECK_STATE_HEADER"
      "m_checked_idx q = m_checked_idx ?q + length (crlf_lines hs)"
      "\<And>fuel. process_read_loop (length hs + fuel) LINE_OK ?q hb1 = process_read_loop fuel LINE_OK q hb'"
    by auto
  have "norm (apply_headers hs ?q) = norm (apply_headers (h # hs) p)"
    unfolding apply_headers_Cons using norm_parse_headers [OF 1(6), of h] norm_apply_headers by blast
  moreover have "process_read_loop (length (h # hs) + fuel) LINE_OK p hb = process_read_loop fuel LINE_OK q hb'"
    for fuel using run1 2(8) by simp
  moreover have "m_checked_idx q = m_checked_idx p + length (crlf_lines (h # hs))"
    using 2(7) 1(7) by (simp add: parse_headers_checked crlf_lines_def)
  ultimately show ?case using 2(1-6) 1(4,5) by metis
qed

text \<open>Fields that header lines leave alone, and the content length they compute.\<close>

lemma parse_headers_keeps:
  "m_method (snd (parse_headers l p)) = m_method p" "m_uri (snd (parse_headers l p)) = m_uri p"
  "m_request_body (snd (parse_headers l p)) = m_request_body p"
  "m_read_idx (snd (parse_headers l p)) = m_read_idx p"
  by (simp_all add: parse_headers_def split: prod.split)

lemma parse_headers_content_length:
  "m_content_length p = m_content_length q \<Longrightarrow>
     m_content_length (snd (parse_headers l p)) = m_content_length (snd (parse_headers l q))"
  by (simp add: parse_headers_def split: prod.split)

lemma apply_headers_keeps:
  "m_method (apply_headers hs p) = m_method p \<and> m_uri (apply_headers hs p) = m_uri p
    \<and> m_request_body (apply_headers hs p) = m_request_body p
    \<and> m_read_idx (apply_headers hs p) = m_read_idx p"
proof (induction hs arbitrary: p)
  case (Cons h hs)
  then show ?case by (simp add: apply_headers_Cons parse_headers_keeps)
qed (simp add: apply_headers_def)

lemma apply_headers_content_length:
  "m_content_length p = m_content_length q \<Longrightarrow>
     m_content_length (apply_headers hs p) = m_content_length (apply_headers hs q)"
proof (induction hs arbitrary: p q)
  case (Cons h hs)
  have "m_content_length (snd (parse_headers h p)) = m_content_length (snd (parse_headers h q))"
    using parse_headers_content_length [OF Cons.prems] .
  then show ?case unfolding apply_headers_Cons by (rule Cons.IH)
qed (simp add: apply_headers_def)

text \<open>The content length a list of header lines announces, 0 without such a line.\<close>

definition announced_length :: "string list \<Rightarrow> int" where
  "announced_length hs = m_content_length (apply_headers hs (new_HttpParser 0))"

fun method_name :: "http_method \<Rightarrow> string" where
  "method_name POST = ''POST''"
| "method_name GET = ''GET''"
| "method_name OPTIONS = ''OPTIONS''"
| "method_name NONE = ''''"

lemma get_method_name: "get_method p = method_name (m_method p)"
  by (cases "m_method p") (simp_all add: get_method_def)

definition request_line :: "http_method \<Rightarrow> string \<Rightarrow> string" where
  "request_line mt uri = method_name mt @ '' '' @ uri @ '' HTTP/1.1''"

definition token :: "string \<Rightarrow> bool" where
  "token uri \<longleftrightarrow> uri \<noteq> [] \<and> clean uri \<and> list_all (\<lambda>c. \<not> is_ws c) uri"

lemma dropWhile_token:
  "list_all (\<lambda>c. \<not> is_ws c) u \<Longrightarrow> is_ws c \<Longrightarrow> dropWhile (\<lambda>c. \<not> is_ws c) (u @ c # r) = c # r"
  by (induction u) auto

lemma parse_request_line_ok:
  assumes "mt \<noteq> NONE" "token uri"
  shows "parse_request_line (request_line mt uri) p
       = (NO_REQUEST, p\<lparr>m_method := mt, m_uri := uri, m_check_state := CHECK_STATE_HEADER\<rparr>)"
proof -
  have ws: "is_ws (CHR '' '')" by (simp add: is_ws_def)
  have m: "list_all (\<lambda>c. \<not> is_ws c) (method_name mt)"
    using assms(1) by (cases mt) (simp_all add: is_ws_def)
  have u: "uri \<noteq> []" "list_all (\<lambda>c. \<not> is_ws c) uri" using assms(2) by (auto simp: token_def)
  have 1: "strpbrk_ws (request_line mt uri) = Some ('' '' @ uri @ '' HTTP/1.1'')"
    using dropWhile_token [OF m ws, of "uri @ '' HTTP/1.1''"] by (simp add: strpbrk_ws_def request_line_def)
  have 2: "skip_ws ('' '' @ uri @ '' HTTP/1.1'') = uri @ '' HTTP/1.1''"
    using u by (cases uri) (simp_all add: skip_ws_def is_ws_def)
  have 3: "strpbrk_ws (uri @ '' HTTP/1.1'') = Some '' HTTP/1.1''"
    using dropWhile_token [OF u(2) ws, of "''HTTP/1.1''"] by (simp add: strpbrk_ws_def)
  have 4: "starts ''HTTP/1.1'' (skip_ws '' HTTP/1.1'')"
    by (simp add: starts_def skip_ws_def is_ws_def)
  show ?thesis
    using assms(1) unfolding parse_request_line_def 1 option.case Let_def 2 3
    using 4 by (cases mt) (simp_all add: request_line_def starts_def)
qed

lemma clean_request_line: "token uri \<Longrightarrow> clean (request_line mt uri)"
  by (cases mt) (auto simp: clean_def request_line_def token_def NUL_def)

lemma process_body:
  assumes at: "at_line p hb" and st: "m_check_state p = CHECK_STATE_CONTENT"
    and nul: "NUL \<notin> set (pending hb)" and len: "m_content_length p = int (length (pending hb))"
    and read: "m_read_idx p = int (m_end_idx hb)" and small: "m_end_idx hb < 2 ^ 31"
  shows "\<exists>hb'. process_read_loop (Suc fuel) LINE_OK p hb
    = Inr (GET_REQUEST, p\<lparr>m_start_line := m_checked_idx p, m_request_body := pending hb\<rparr>, hb')"
proof -
  have lin: "hb_lin hb" and c: "m_checked_idx p = m_start_idx hb" using at by (auto simp: at_line_def)
  have "int (length (pending hb)) + int (m_start_idx hb) = int (m_end_idx hb)"
    using length_pending [OF lin] lin by (simp add: hb_lin_def)
  moreover have "cstr (pending hb @ [NUL]) = Inr (pending hb)" using cstr_line [OF nul] .
  moreover have "(pending hb @ [NUL])[length (pending hb) := NUL] = pending hb @ [NUL]" by simp
  ultimately show ?thesis
    using st len read small c read_by_zero_linear [OF lin nul]
    by (simp add: process_round_def parse_content_def int32_ok_def)
qed

lemma request_run:
  assumes at: "at_line p hb" and st: "m_check_state p = CHECK_STATE_REQUESTLINE"
    and cl: "m_content_length p = 0" and mt: "mt \<noteq> NONE" and uri: "token uri"
    and hs: "list_all header_ok hs"
    and pend: "pending hb = crlf_lines (request_line mt uri # hs @ ['''']) @ body"
  shows "\<exists>q hb'. at_line q hb' \<and> pending hb' = body \<and> m_end_idx hb' = m_end_idx hb
    \<and> m_method q = mt \<and> m_uri q = uri \<and> m_request_body q = m_request_body p
    \<and> m_read_idx q = m_read_idx p \<and> m_content_length q = announced_length hs
    \<and> m_check_state q = CHECK_STATE_HEADER
    \<and> (\<forall>fuel. process_read_loop (length hs + 2 + fuel) LINE_OK p hb =
         (if announced_length hs = 0 then Inr (GET_REQUEST, q, hb')
          else process_read_loop fuel LINE_OK (q\<lparr>m_check_state := CHECK_STATE_CONTENT\<rparr>) hb'))"
proof -
  let ?set = "\<lambda>q. q\<lparr>m_method := mt, m_uri := uri, m_check_state := CHECK_STATE_HEADER\<rparr>"
  have p1: "pending hb = request_line mt uri @ CR # LF # crlf_lines hs @ [CR, LF] @ body"
    using pend by (simp add: crlf_lines_def)
  have "m_check_state p \<noteq> CHECK_STATE_CONTENT" using st by simp
  from process_line [OF at this p1 clean_request_line [OF uri]] obtain hb1 q1 where
    1: "hb_lin hb1" "pending hb1 = crlf_lines hs @ [CR, LF] @ body" "m_start_idx hb1 = m_checked_idx q1"
      "m_end_idx hb1 = m_end_idx hb" "norm q1 = norm p"
    and r1: "\<And>fuel. process_read_loop (Suc fuel) LINE_OK p hb
      = after_line (m_check_state p) (request_line mt uri) q1 hb1 fuel"
    by blast
  have run1: "process_read_loop (Suc fuel) LINE_OK p hb = process_read_loop fuel LINE_OK (?set q1) hb1" for fuel
    using r1 [of fuel] parse_request_line_ok [OF mt uri] st
    by (simp add: after_line_def del: process_read_loop.simps)
  have f1: "m_content_length q1 = 0" "m_request_body q1 = m_request_body p" "m_read_idx q1 = m_read_idx p"
    using arg_cong [OF 1(5), of m_content_length] arg_cong [OF 1(5), of m_request_body]
      arg_cong [OF 1(5), of m_read_idx] cl by simp_all
  have "at_line (?set q1) hb1" using 1 by (simp add: at_line_def)
  from process_headers [OF this _ 1(2) hs] obtain hb2 q2 where
    2: "at_line q2 hb2" "pending hb2 = [CR, LF] @ body" "m_end_idx hb2 = m_end_idx hb1"
      "norm q2 = norm (apply_headers hs (?set q1))" "m_check_state q2 = CHECK_STATE_HEADER"
    and run2: "\<And>fuel. process_read_loop (length hs + fuel) LINE_OK (?set q1) hb1 = process_read_loop fuel LINE_OK q2 hb2"
    by auto
  have f2: "m_method q2 = mt" "m_uri q2 = uri" "m_request_body q2 = m_request_body p"
    "m_read_idx q2 = m_read_idx p" "m_content_length q2 = announced_length hs"
    using arg_cong [OF 2(4), of m_method] arg_cong [OF 2(4), of m_uri]
      arg_cong [OF 2(4), of m_request_body] arg_cong [OF 2(4), of m_read_idx]
      arg_cong [OF 2(4), of m_content_length] f1
      apply_headers_content_length [of "?set q1" "new_HttpParser 0" hs]
    by (simp_all add: apply_headers_keeps announced_length_def new_HttpParser_def)
  have st2: "m_check_state q2 \<noteq> CHECK_STATE_CONTENT" "clean []" using 2(5) by (simp_all add: clean_def)
  have p2: "pending hb2 = [] @ CR # LF # body" using 2(2) by simp
  from process_line [OF 2(1) st2(1) p2 st2(2)] obtain hb3 q3 where
    3: "hb_lin hb3" "pending hb3 = body" "m_start_idx hb3 = m_checked_idx q3"
      "m_end_idx hb3 = m_end_idx hb2" "norm q3 = norm q2"
    and r3: "\<And>fuel. process_read_loop (Suc fuel) LINE_OK q2 hb2 = after_line (m_check_state q2) [] q3 hb3 fuel"
    by blast
  have run3: "process_read_loop (Suc fuel) LINE_OK q2 hb2 =
       (if m_content_length q3 = 0 then Inr (GET_REQUEST, q3, hb3)
        else process_read_loop fuel LINE_OK (q3\<lparr>m_check_state := CHECK_STATE_CONTENT\<rparr>) hb3)" for fuel
    using r3 [of fuel] 2(5) by (simp add: parse_headers_def after_line_def del: process_read_loop.simps)
  have f3: "m_method q3 = mt" "m_uri q3 = uri" "m_request_body q3 = m_request_body p"
    "m_read_idx q3 = m_read_idx p" "m_content_length q3 = announced_length hs"
    "m_check_state q3 = CHECK_STATE_HEADER"
    using arg_cong [OF 3(5), of m_method] arg_cong [OF 3(5), of m_uri]
      arg_cong [OF 3(5), of m_request_body] arg_cong [OF 3(5), of m_read_idx]
      arg_cong [OF 3(5), of m_content_length] arg_cong [OF 3(5), of m_check_state] f2 2(5) by simp_all
  have "process_read_loop (length hs + 2 + fuel) LINE_OK p hb =
         (if announced_length hs = 0 then Inr (GET_REQUEST, q3, hb3)
          else process_read_loop fuel LINE_OK (q3\<lparr>m_check_state := CHECK_STATE_CONTENT\<rparr>) hb3)" for fuel
    using run1 [of "length hs + Suc fuel"] run2 [of "Suc fuel"] run3 [of fuel] f3(5)
    by (simp del: process_read_loop.simps)
  then show ?thesis using 3 f3 1(4) 2(3) by (intro exI [of _ q3] exI [of _ hb3]) (simp add: at_line_def)
qed

subsection \<open>Lines that arrive in pieces\<close>

lemma first_line_end:
  obtains l r where "u = l @ r" "CR \<notin> set l" "LF \<notin> set l" "r = [] \<or> hd r = CR \<or> hd r = LF"
proof -
  let ?P = "\<lambda>c. c \<noteq> CR \<and> c \<noteq> LF"
  have "u = takeWhile ?P u @ dropWhile ?P u" by simp
  moreover have "CR \<notin> set (takeWhile ?P u)" "LF \<notin> set (takeWhile ?P u)" by (auto dest: set_takeWhileD)
  moreover have "dropWhile ?P u = [] \<or> hd (dropWhile ?P u) = CR \<or> hd (dropWhile ?P u) = LF"
    using hd_dropWhile [of ?P u] by blast
  ultimately show thesis using that by blast
qed

text \<open>Characters that are no line end need not be looked at again.\<close>

lemma parse_line_skip:
  assumes lin: "hp_lin p hb" and u: "unseen p hb = a @ v" and a: "CR \<notin> set a" "LF \<notin> set a"
  shows "parse_line (p\<lparr>m_checked_idx := m_checked_idx p + length a\<rparr>) hb = parse_line p hb"
proof -
  let ?p = "p\<lparr>m_checked_idx := m_checked_idx p + length a\<rparr>"
  obtain l r where v: "v = l @ r" and l: "CR \<notin> set l" "LF \<notin> set l"
    and r: "r = [] \<or> hd r = CR \<or> hd r = LF" by (rule first_line_end)
  let ?i = "m_checked_idx p + length (a @ l)"
  have len: "m_checked_idx p + length (a @ v) = m_end_idx hb"
    using length_unseen [OF lin] u lin by (simp add: hp_lin_def)
  have "m_checked_idx p + length a - m_start_idx hb = length a + (m_checked_idx p - m_start_idx hb)"
    using lin by (simp add: hp_lin_def)
  then have "unseen ?p hb = drop (length a) (unseen p hb)" by (simp add: unseen_def)
  then have "unseen ?p hb = v" using u by simp
  then have u': "unseen ?p hb = l @ r" using v by simp
  have lin': "hp_lin ?p hb" using lin len by (auto simp: hp_lin_def)
  have "\<exists>res. parse_line_stop hb ?i = Some res"
  proof (cases r)
    case Nil
    then show ?thesis using len v by (simp add: parse_line_stop_def)
  next
    case (Cons c r')
    then have "get_val ?i hb = Inr c" "c = CR \<or> c = LF"
      using get_val_unseen [OF lin, of "length (a @ l)"] u v r by (auto simp: nth_append)
    then show ?thesis by (auto simp: parse_line_stop_def Let_def)
  qed
  then obtain res where stop: "parse_line_stop hb ?i = Some res" by blast
  have "parse_line p hb = bindR res (\<lambda>(st, ci, hb). Inr (st, p\<lparr>m_checked_idx := ci\<rparr>, hb))"
    using parse_line_scan [OF lin, of "a @ l" r res] u v a l stop by simp
  moreover have "parse_line ?p hb = bindR res (\<lambda>(st, ci, hb). Inr (st, p\<lparr>m_checked_idx := ci\<rparr>, hb))"
    using parse_line_scan [OF lin' u' l, of res] stop by (simp add: add.assoc)
  ultimately show ?thesis by simp
qed

subsection \<open>A whole request\<close>

lemma request_process:
  assumes "at_line p hb" "m_check_state p = CHECK_STATE_REQUESTLINE" "m_content_length p = 0"
    and "m_read_idx p = int (m_end_idx hb)" "m_end_idx hb < 2 ^ 31"
    and "mt \<noteq> NONE" "token uri" "list_all header_ok hs" "NUL \<notin> set body"
    and "announced_length hs = int (length body)"
    and "pending hb = crlf_lines (request_line mt uri # hs @ ['''']) @ body"
  shows "\<exists>p' hb'. process_read (length hs + 3 + f) p hb = Inr (GET_REQUEST, p', hb')
    \<and> get_method p' = method_name mt \<and> get_uri p' = uri
    \<and> get_body p' = (if body = [] then get_body p else body)"
proof -
  obtain q hb' where q: "at_line q hb'" "pending hb' = body" "m_end_idx hb' = m_end_idx hb"
    "m_method q = mt" "m_uri q = uri" "m_request_body q = m_request_body p"
    "m_read_idx q = m_read_idx p" "m_content_length q = announced_length hs"
    and run: "\<And>fuel. process_read_loop (length hs + 2 + fuel) LINE_OK p hb =
         (if announced_length hs = 0 then Inr (GET_REQUEST, q, hb')
          else process_read_loop fuel LINE_OK (q\<lparr>m_check_state := CHECK_STATE_CONTENT\<rparr>) hb')"
    using request_run [OF assms(1-3,6,7,8,11)] by blast
  have loop: "process_read (length hs + 3 + f) p hb =
         (if body = [] then Inr (GET_REQUEST, q, hb')
          else process_read_loop (Suc f) LINE_OK (q\<lparr>m_check_state := CHECK_STATE_CONTENT\<rparr>) hb')"
    using run [of "Suc f"] assms(10) by (simp add: process_read_def eval_nat_numeral del: process_read_loop.simps)
  show ?thesis
  proof (cases "body = []")
    case True
    then show ?thesis using loop q by (simp add: get_method_name get_uri_def get_body_def)
  next
    case False
    have "at_line (q\<lparr>m_check_state := CHECK_STATE_CONTENT\<rparr>) hb'" using q(1) by (simp add: at_line_def)
    from process_body [OF this, of f] obtain hb'' where
      "process_read_loop (Suc f) LINE_OK (q\<lparr>m_check_state := CHECK_STATE_CONTENT\<rparr>) hb'
        = Inr (GET_REQUEST, q\<lparr>m_check_state := CHECK_STATE_CONTENT, m_start_line := m_checked_idx q,
            m_request_body := body\<rparr>, hb'')"
      using q assms(4,5,9,10) by auto
    then show ?thesis
      using loop False q by (simp add: get_method_name get_uri_def get_body_def del: process_read_loop.simps)
  qed
qed

subsection \<open>Properties\<close>

text \<open>
  C5. A complete request in the read buffer is parsed to its parts: for a request line with
  one of the three methods, any header lines the parser accepts and a body of the announced
  length, \<open>process_read\<close> returns \<open>GET_REQUEST\<close> with the method, the URI and the body of the
  request. One round for each header line and three more suffice.
\<close>

theorem request_parsed:
  assumes "at_line p hb" "m_check_state p = CHECK_STATE_REQUESTLINE" "m_content_length p = 0"
    and "m_read_idx p = int (m_end_idx hb)" "m_end_idx hb < 2 ^ 31"
    and "mt \<noteq> NONE" "token uri" "list_all header_ok hs" "NUL \<notin> set body"
    and "announced_length hs = int (length body)"
    and "pending hb = crlf_lines (request_line mt uri # hs @ ['''']) @ body"
  shows "\<exists>p' hb'. process_read (length hs + 3) p hb = Inr (GET_REQUEST, p', hb')
    \<and> get_method p' = method_name mt \<and> get_uri p' = uri
    \<and> get_body p' = (if body = [] then get_body p else body)"
  using request_process [OF assms, of 0] by simp

definition sample_request :: string where
  "sample_request = ''POST /a HTTP/1.1'' @ [CR, LF] @ ''Content-Length: 2'' @ [CR, LF, CR, LF] @ ''hi''"

definition recv_request :: "string \<Rightarrow> httpparser \<Rightarrow> httpbuffer \<Rightarrow> (httpparser \<times> httpbuffer) res" where
  "recv_request s p hb = bindR (hb_write s (length s) hb) (\<lambda>(ok, hb).
     Inr (hp_update_buffer_size (length s) p, hb))"

theorem request_parsed_witness:
  "\<exists>p hb p' hb'. recv_request sample_request (new_HttpParser 100) (new_HttpBuffer 100) = Inr (p, hb)
    \<and> process_read 4 p hb = Inr (GET_REQUEST, p', hb')
    \<and> get_method p' = ''POST'' \<and> get_uri p' = ''/a'' \<and> get_body p' = ''hi''"
proof -
  have len: "length sample_request = 41" by (simp add: sample_request_def)
  obtain hb where hb: "hb_write sample_request (length sample_request) (new_HttpBuffer 100) = Inr (True, hb)"
    "hb_lin hb" "pending hb = sample_request" "m_start_idx hb = 0" "m_end_idx hb = 41"
    using hb_write_linear [OF hb_lin_new, of 100 "length sample_request" sample_request] len
    by (auto simp: new_HttpBuffer_def pending_def)
  let ?p = "hp_update_buffer_size (length sample_request) (new_HttpParser 100)"
  have h: "header_ok ''Content-Length: 2''" by code_simp
  have "\<exists>p' hb'. process_read (length [''Content-Length: 2''] + 3) ?p hb = Inr (GET_REQUEST, p', hb')
    \<and> get_method p' = method_name POST \<and> get_uri p' = ''/a''
    \<and> get_body p' = (if ''hi'' = '''' then get_body ?p else ''hi'')"
  proof (rule request_parsed)
    show "announced_length [''Content-Length: 2''] = int (length ''hi'')" by code_simp
    show "pending hb = crlf_lines (request_line POST ''/a'' # [''Content-Length: 2''] @ ['''']) @ ''hi''"
      using hb(3) by (simp add: sample_request_def crlf_lines_def request_line_def)
  qed (use hb h len in \<open>simp_all add: at_line_def hp_update_buffer_size_def new_HttpParser_def token_def
      clean_def is_ws_def NUL_def int32_ok_def\<close>)
  then show ?thesis using hb(1) by (simp add: recv_request_def eval_nat_numeral)
qed

text \<open>
  C25. Delivery in pieces: when the data so far holds no complete line, \<open>process_read\<close> returns
  \<open>NO_REQUEST\<close> and consumes nothing, and after more data has arrived it returns exactly what it
  would have returned had all the data been there at once, also when the first piece ends
  between the two characters of a line end.
\<close>

theorem partial_line_delivery:
  assumes "at_line p hb" "m_check_state p \<noteq> CHECK_STATE_CONTENT"
    and "pending hb = a @ z" "CR \<notin> set a" "LF \<notin> set a" "z = [] \<or> z = [CR]"
    and "len \<le> length buffer" "m_end_idx hb + len < hb_capacity hb"
  shows "\<exists>p1 hb2. process_read (Suc f) p hb = Inr (NO_REQUEST, p1, hb)
    \<and> hb_write buffer len hb = Inr (True, hb2) \<and> pending hb2 = pending hb @ take len buffer
    \<and> process_read (Suc f) (hp_update_buffer_size len p1) hb2
      = process_read (Suc f) (hp_update_buffer_size len p) hb2"
proof -
  let ?p1 = "p\<lparr>m_checked_idx := m_checked_idx p + length a\<rparr>"
  have lin: "hb_lin hb" "m_checked_idx p = m_start_idx hb" "hp_lin p hb"
    using assms(1) by (auto simp: at_line_def hp_lin_def hb_lin_def)
  have u: "unseen p hb = a @ z" using lin assms(3) by (simp add: unseen_def)
  have "parse_line p hb = Inr (LINE_OPEN, ?p1, hb)"
    using parse_line_open [OF lin(3)] parse_line_open_CR [OF lin(3)] u assms(4-6)
      length_unseen [OF lin(3)] lin(3) by (auto simp: hp_lin_def)
  then have 1: "process_read (Suc f) p hb = Inr (NO_REQUEST, ?p1, hb)"
    using assms(2) by (simp add: process_read_def)
  obtain hb2 where w: "hb_write buffer len hb = Inr (True, hb2)" "hb_lin hb2"
    "pending hb2 = pending hb @ take len buffer" "m_start_idx hb2 = m_start_idx hb"
    "m_end_idx hb2 = m_end_idx hb + len"
    using hb_write_linear [OF lin(1) assms(7,8)] by blast
  let ?p = "hp_update_buffer_size len p"
  have p: "hp_lin ?p hb2" "unseen ?p hb2 = a @ z @ take len buffer"
    using w lin assms(3) by (auto simp: hp_lin_def hb_lin_def unseen_def hp_update_buffer_size_def)
  have "parse_line (hp_update_buffer_size len ?p1) hb2 = parse_line ?p hb2"
    using parse_line_skip [OF p assms(4,5)] by (cases p) (simp add: hp_update_buffer_size_def)
  then have "process_read (Suc f) (hp_update_buffer_size len ?p1) hb2 = process_read (Suc f) ?p hb2"
    using assms(2) by (simp add: process_read_def hp_update_buffer_size_def)
  then show ?thesis using 1 w by blast
qed

theorem partial_line_delivery_witness:
  "\<exists>p1 hb2. process_read 9 (new_HttpParser 64) (new_HttpBuffer 64) = Inr (NO_REQUEST, p1, new_HttpBuffer 64)
    \<and> hb_write ''GET'' 3 (new_HttpBuffer 64) = Inr (True, hb2) \<and> pending hb2 = ''GET''
    \<and> process_read 9 (hp_update_buffer_size 3 p1) hb2
      = process_read 9 (hp_update_buffer_size 3 (new_HttpParser 64)) hb2"
proof -
  have "at_line (new_HttpParser 64) (new_HttpBuffer 64)"
    by (simp add: at_line_def hb_lin_new) (simp add: new_HttpParser_def new_HttpBuffer_def)
  from partial_line_delivery [OF this, of "[]" "[]" 3 "''GET''" 8] show ?thesis
    by (simp add: new_HttpParser_def new_HttpBuffer_def pending_def)
qed

definition serve :: "string list \<Rightarrow> httpparser \<Rightarrow> httpbuffer \<Rightarrow> ((http_code \<times> string \<times> string) list) res" where
  "serve pieces p hb = foldr (\<lambda>s k (p, hb). bindR (recv_request s p hb) (\<lambda>(p, hb).
     bindR (process_read 9 p hb) (\<lambda>(code, p, hb).
       bindR (k (p, hb)) (\<lambda>rs. Inr ((code, get_uri p, get_body p) # rs)))))
     pieces (\<lambda>_. Inr []) (p, hb)"

text \<open>
  The parser is not reset after a request: a second request on the same connection is
  taken for header lines of the first, and the session answers it with the URI of the first.
\<close>

lemma second_request_misparsed:
  "serve [''GET /a HTTP/1.1'' @ [CR, LF, CR, LF], ''GET /b HTTP/1.1'' @ [CR, LF, CR, LF]]
     (new_HttpParser 64) (new_HttpBuffer 64)
   = Inr [(GET_REQUEST, ''/a'', ''''), (GET_REQUEST, ''/a'', '''')]"
  by code_simp

text \<open>
  A body that arrives in two pieces is lost: the first piece is consumed although the
  body is incomplete and the index of checked data moves past it, so that after the second
  piece, when all announced bytes have been received, there is still no request.
\<close>

lemma split_body_lost:
  "serve [''POST /a HTTP/1.1'' @ [CR, LF] @ ''Content-Length: 4'' @ [CR, LF, CR, LF] @ ''ab'', ''cd'']
     (new_HttpParser 64) (new_HttpBuffer 64)
   = Inr [(NO_REQUEST, ''/a'', []), (NO_REQUEST, ''/a'', [])]"
  by code_simp

definition stalled_buffer :: httpbuffer where
  "stalled_buffer = \<lparr>hb_capacity = 4, hb_size = 4, m_start_idx = 0, m_end_idx = 4,
     m_buffer = ''abcd'' @ [NUL]\<rparr>"


end
