(* ===== verification/Timer.thy ===== *)
theory Timer
  imports Prelude
begin

text \<open>
  \<open>sherry/timer.h\<close>, \<open>sherry/timer.cc\<close>: timers and the manager that keeps them ordered by their
  time. A timer is known by its address; the manager's \<open>std::set\<close> is the list of the
  addresses in set order, and its operations compare through \<open>Comparator\<close>. The current time
  and the address a new timer gets are arguments. Times are 64-bit words. A callback is a
  value of the type parameter, \<open>None\<close> for an empty \<open>std::function\<close>. The mutex makes each
  operation atomic, except \<open>listExpiredCb\<close>, which takes it twice.
\<close>

subsection \<open>Ordered sets as lists\<close>

text \<open>Insertion, search and removal in a set that is ordered by \<open>lt\<close>.\<close>

definition set_insert :: "('a \<Rightarrow> 'a \<Rightarrow> bool) \<Rightarrow> 'a \<Rightarrow> 'a list \<Rightarrow> 'a list" where
  "set_insert lt x xs =
     (let before = takeWhile (\<lambda>y. lt y x) xs; after = dropWhile (\<lambda>y. lt y x) xs in
      case after of
        [] \<Rightarrow> before @ [x]
      | y # _ \<Rightarrow> if lt x y then before @ x # after else xs)"

definition set_find :: "('a \<Rightarrow> 'a \<Rightarrow> bool) \<Rightarrow> 'a \<Rightarrow> 'a list \<Rightarrow> 'a option" where
  "set_find lt x xs =
     (case dropWhile (\<lambda>y. lt y x) xs of [] \<Rightarrow> None | y # _ \<Rightarrow> if lt x y then None else Some y)"

text \<open>The contract of a comparator: a strict total order.\<close>

locale comparator_order =
  fixes lt :: "'a \<Rightarrow> 'a \<Rightarrow> bool"
  assumes irrefl: "\<not> lt x x"
    and trans: "lt x y \<Longrightarrow> lt y z \<Longrightarrow> lt x z"
    and total: "x \<noteq> y \<Longrightarrow> lt x y \<or> lt y x"
begin

lemma asym: "lt x y \<Longrightarrow> \<not> lt y x"
  using trans irrefl by blast

lemma sorted_distinct: "sorted_wrt lt xs \<Longrightarrow> distinct xs"
  by (induction xs) (auto simp: irrefl)

lemma dropWhile_member:
  assumes "sorted_wrt lt xs" "x \<in> set xs"
  shows "\<exists>ys. dropWhile (\<lambda>y. lt y x) xs = x # ys"
  using assms
proof (induction xs)
  case (Cons y ys)
  then show ?case using irrefl by (cases "x = y") auto
qed simp

lemma find_law:
  assumes "sorted_wrt lt xs"
  shows "set_find lt x xs = (if x \<in> set xs then Some x else None)"
proof (cases "x \<in> set xs")
  case True
  then obtain ys where "dropWhile (\<lambda>y. lt y x) xs = x # ys" using dropWhile_member [OF assms] by blast
  then show ?thesis using True irrefl by (simp add: set_find_def)
next
  case False
  show ?thesis
  proof (cases "dropWhile (\<lambda>y. lt y x) xs")
    case (Cons y ys)
    then have "y \<in> set xs" "\<not> lt y x"
      by (metis list.set_intros(1) set_dropWhileD) (metis Cons hd_dropWhile list.distinct(1) list.sel(1))
    then have "lt x y" using total False by metis
    then show ?thesis using Cons False by (simp add: set_find_def)
  next
    case Nil
    then show ?thesis unfolding set_find_def Nil by (simp add: False)
  qed
qed

lemma insert_law:
  assumes "sorted_wrt lt xs" "x \<notin> set xs"
  shows "sorted_wrt lt (set_insert lt x xs)" "set (set_insert lt x xs) = insert x (set xs)"
proof -
  let ?P = "\<lambda>y. lt y x"
  have split: "xs = takeWhile ?P xs @ dropWhile ?P xs" by simp
  have sorted: "sorted_wrt lt (takeWhile ?P xs @ dropWhile ?P xs)" using assms(1) by simp
  have before: "\<forall>y\<in>set (takeWhile ?P xs). lt y x" by (auto dest: set_takeWhileD)
  have after: "\<forall>y\<in>set (dropWhile ?P xs). lt x y"
  proof (cases "dropWhile ?P xs")
    case (Cons y ys)
    then have "y \<in> set xs" "\<not> lt y x"
      by (metis list.set_intros(1) set_dropWhileD) (metis Cons hd_dropWhile list.distinct(1) list.sel(1))
    then have "lt x y" using total assms(2) by metis
    moreover have "\<forall>z\<in>set ys. lt y z" using sorted Cons by (auto simp: sorted_wrt_append)
    ultimately show ?thesis using Cons trans by auto
  next
    case Nil
    show ?thesis unfolding Nil by simp
  qed
  have eq: "set_insert lt x xs = takeWhile ?P xs @ x # dropWhile ?P xs"
  proof (cases "dropWhile ?P xs")
    case Nil
    show ?thesis unfolding set_insert_def Let_def Nil by simp
  next
    case (Cons y ys)
    then show ?thesis using after unfolding set_insert_def Let_def Cons by simp
  qed
  have "set xs = set (takeWhile ?P xs) \<union> set (dropWhile ?P xs)"
    using split by (metis set_append)
  then show "set (set_insert lt x xs) = insert x (set xs)" unfolding eq by auto
  show "sorted_wrt lt (set_insert lt x xs)"
  proof -
    have cross: "\<forall>a\<in>set (takeWhile ?P xs). \<forall>b\<in>set (dropWhile ?P xs). lt a b"
      and parts: "sorted_wrt lt (takeWhile ?P xs)" "sorted_wrt lt (dropWhile ?P xs)"
      using sorted unfolding sorted_wrt_append by blast+
    show ?thesis
      unfolding eq sorted_wrt_append sorted_wrt.simps list.set
      using cross parts before after by blast
  qed
qed

lemma remove_law:
  assumes "sorted_wrt lt xs"
  shows "sorted_wrt lt (remove1 x xs)" "set (remove1 x xs) = set xs - {x}"
proof -
  show "set (remove1 x xs) = set xs - {x}" using sorted_distinct [OF assms] by simp
  show "sorted_wrt lt (remove1 x xs)"
    using assms by (induction xs) (auto dest: set_remove1_subset [THEN subsetD])
qed

lemma head_least: "sorted_wrt lt (x # xs) \<Longrightarrow> y \<in> set (x # xs) \<Longrightarrow> x = y \<or> lt x y"
  by auto

end

subsection \<open>Timers and the manager\<close>

record 'cb timer =
  m_recurring :: bool
  m_ms :: u64
  m_next :: u64
  m_cb :: "'cb option"

type_synonym 'cb theap = "nat \<Rightarrow> 'cb timer"

text \<open>\<open>Timer::Comparator\<close> on pointers, \<open>None\<close> for the null pointer.\<close>

definition Comparator :: "'cb theap \<Rightarrow> nat option \<Rightarrow> nat option \<Rightarrow> bool" where
  "Comparator h lhs rhs =
     (case (lhs, rhs) of
        (None, None) \<Rightarrow> False
      | (None, Some _) \<Rightarrow> True
      | (Some _, None) \<Rightarrow> False
      | (Some l, Some r) \<Rightarrow>
          if m_next (h l) < m_next (h r) then True
          else if m_next (h r) < m_next (h l) then False
          else l < r)"

definition tless :: "'cb theap \<Rightarrow> nat \<Rightarrow> nat \<Rightarrow> bool" where
  "tless h a b = Comparator h (Some a) (Some b)"

record 'cb timermanager =
  t_heap :: "'cb theap"
  m_timers :: "nat list"
  m_tickled :: bool
  m_previouseTime :: u64

definition no_timer :: "'cb timer" where
  "no_timer = \<lparr>m_recurring = False, m_ms = 0, m_next = 0, m_cb = None\<rparr>"

definition new_TimerManager :: "u64 \<Rightarrow> 'cb timermanager" where
  "new_TimerManager now =
     \<lparr>t_heap = (\<lambda>_. no_timer), m_timers = [], m_tickled = False, m_previouseTime = now\<rparr>"

definition new_Timer :: "u64 \<Rightarrow> u64 \<Rightarrow> 'cb option \<Rightarrow> bool \<Rightarrow> 'cb timer" where
  "new_Timer now ms cb recurring =
     \<lparr>m_recurring = recurring, m_ms = ms, m_next = now + ms, m_cb = cb\<rparr>"

text \<open>\<open>addTimer(val, lock)\<close>: the result says whether \<open>onTimerInsertedAtFront\<close> is called.\<close>

definition addTimer_lock :: "nat \<Rightarrow> 'cb timermanager \<Rightarrow> bool \<times> 'cb timermanager" where
  "addTimer_lock t tm =
     (let timers = set_insert (tless (t_heap tm)) t (m_timers tm);
          at_front = (take 1 timers = [t] \<and> \<not> m_tickled tm)
      in (at_front, tm\<lparr>m_timers := timers, m_tickled := (if at_front then True else m_tickled tm)\<rparr>))"

definition addTimer ::
  "nat \<Rightarrow> u64 \<Rightarrow> u64 \<Rightarrow> 'cb option \<Rightarrow> bool \<Rightarrow> 'cb timermanager \<Rightarrow> bool \<times> 'cb timermanager" where
  "addTimer t now ms cb recurring tm =
     addTimer_lock t (tm\<lparr>t_heap := (t_heap tm)(t := new_Timer now ms cb recurring)\<rparr>)"

text \<open>\<open>OnTimer\<close>: the callback runs when the weak pointer can still be locked.\<close>

definition OnTimer :: "('w \<Rightarrow> bool) \<Rightarrow> 'w \<Rightarrow> 'cb \<Rightarrow> 'cb option" where
  "OnTimer alive weak_cond cb = (if alive weak_cond then Some cb else None)"

definition addConditionTimer ::
  "('w \<Rightarrow> 'cb option \<Rightarrow> 'cb) \<Rightarrow> nat \<Rightarrow> u64 \<Rightarrow> u64 \<Rightarrow> 'cb option \<Rightarrow> 'w \<Rightarrow> bool \<Rightarrow> 'cb timermanager
     \<Rightarrow> bool \<times> 'cb timermanager" where
  "addConditionTimer bind_OnTimer t now ms cb weak_cond recurring tm =
     addTimer t now ms (Some (bind_OnTimer weak_cond cb)) recurring tm"

text \<open>\<open>m_timers.erase(end())\<close> is undefined.\<close>

definition cancel :: "nat \<Rightarrow> 'cb timermanager \<Rightarrow> (bool \<times> 'cb timermanager) res" where
  "cancel t tm =
     (case m_cb (t_heap tm t) of
        None \<Rightarrow> Inr (False, tm)
      | Some _ \<Rightarrow>
          let tm = tm\<lparr>t_heap := (t_heap tm)(t := (t_heap tm t)\<lparr>m_cb := None\<rparr>)\<rparr> in
          (case set_find (tless (t_heap tm)) t (m_timers tm) of
             None \<Rightarrow> Inl OutOfBounds
           | Some it \<Rightarrow> Inr (True, tm\<lparr>m_timers := remove1 it (m_timers tm)\<rparr>)))"

definition refresh :: "nat \<Rightarrow> u64 \<Rightarrow> 'cb timermanager \<Rightarrow> bool \<times> 'cb timermanager" where
  "refresh t now tm =
     (if m_cb (t_heap tm t) = None then (False, tm)
      else case set_find (tless (t_heap tm)) t (m_timers tm) of
        None \<Rightarrow> (False, tm)
      | Some it \<Rightarrow>
          let timers = remove1 it (m_timers tm);
              h = (t_heap tm)(t := (t_heap tm t)\<lparr>m_next := now + m_ms (t_heap tm t)\<rparr>)
          in (True, tm\<lparr>t_heap := h, m_timers := set_insert (tless h) t timers\<rparr>))"

text \<open>\<open>reset(ms, from_now)\<close>: the returned flag, whether \<open>onTimerInsertedAtFront\<close> is called, the state.\<close>

definition reset :: "nat \<Rightarrow> u64 \<Rightarrow> u64 \<Rightarrow> bool \<Rightarrow> 'cb timermanager \<Rightarrow> bool \<times> bool \<times> 'cb timermanager" where
  "reset t now ms from_now tm =
     (if ms = m_ms (t_heap tm t) \<and> \<not> from_now then (True, False, tm)
      else if m_cb (t_heap tm t) = None then (False, False, tm)
      else case set_find (tless (t_heap tm)) t (m_timers tm) of
        None \<Rightarrow> (False, False, tm)
      | Some it \<Rightarrow>
          let timers = remove1 it (m_timers tm);
              start = (if from_now then now else m_next (t_heap tm t) - m_ms (t_heap tm t));
              h = (t_heap tm)(t := (t_heap tm t)\<lparr>m_ms := ms, m_next := start + ms\<rparr>)
          in (case addTimer_lock t (tm\<lparr>t_heap := h, m_timers := timers\<rparr>) of
                (front, tm) \<Rightarrow> (True, front, tm)))"

definition getNextTimer :: "u64 \<Rightarrow> 'cb timermanager \<Rightarrow> u64 \<times> 'cb timermanager" where
  "getNextTimer now_ms tm =
     (let tm = tm\<lparr>m_tickled := False\<rparr> in
      case m_timers tm of
        [] \<Rightarrow> (- 1, tm)
      | t # _ \<Rightarrow> ((if m_next (t_heap tm t) \<le> now_ms then 0 else m_next (t_heap tm t) - now_ms), tm))"

definition detectClockRollover :: "u64 \<Rightarrow> 'cb timermanager \<Rightarrow> bool \<times> 'cb timermanager" where
  "detectClockRollover now_ms tm =
     (now_ms < m_previouseTime tm \<and> now_ms < m_previouseTime tm - 60 * 60 * 1000,
      tm\<lparr>m_previouseTime := now_ms\<rparr>)"

definition hasTimer :: "'cb timermanager \<Rightarrow> bool" where
  "hasTimer tm \<longleftrightarrow> m_timers tm \<noteq> []"

text \<open>The loop over the expired timers.\<close>

fun expire_loop ::
  "u64 \<Rightarrow> nat list \<Rightarrow> 'cb option list \<Rightarrow> 'cb timermanager \<Rightarrow> 'cb option list \<times> 'cb timermanager" where
  "expire_loop now_ms [] cbs tm = (cbs, tm)"
| "expire_loop now_ms (t # ts) cbs tm =
     (let x = t_heap tm t; cbs = cbs @ [m_cb x] in
      if m_recurring x then
        let h = (t_heap tm)(t := x\<lparr>m_next := now_ms + m_ms x\<rparr>) in
        expire_loop now_ms ts cbs (tm\<lparr>t_heap := h, m_timers := set_insert (tless h) t (m_timers tm)\<rparr>)
      else
        expire_loop now_ms ts cbs (tm\<lparr>t_heap := (t_heap tm)(t := x\<lparr>m_cb := None\<rparr>)\<rparr>))"

text \<open>
  The part of \<open>listExpiredCb\<close> under the write lock; \<open>a0\<close> is the address of \<open>now_timer\<close>.
  \<open>*m_timers.begin()\<close> of an empty set is undefined.
\<close>

definition lower_bound_now :: "nat \<Rightarrow> u64 \<Rightarrow> 'cb theap \<Rightarrow> nat list \<Rightarrow> nat list" where
  "lower_bound_now a0 now_ms h ts =
     (let h' = h(a0 := no_timer\<lparr>m_next := now_ms\<rparr>);
          n = length (takeWhile (\<lambda>t. tless h' t a0) ts)
      in take n ts @ takeWhile (\<lambda>t. m_next (h t) = now_ms) (drop n ts))"

definition listExpiredCb_locked ::
  "nat \<Rightarrow> u64 \<Rightarrow> 'cb option list \<Rightarrow> 'cb timermanager \<Rightarrow> ('cb option list \<times> 'cb timermanager) res" where
  "listExpiredCb_locked a0 now_ms cbs tm =
     (case detectClockRollover now_ms tm of (rollover, tm) \<Rightarrow>
        if \<not> rollover \<and> m_timers tm = [] then Inl OutOfBounds
        else if \<not> rollover \<and> m_next (t_heap tm (hd (m_timers tm))) > now_ms then Inr (cbs, tm)
        else let expired = (if rollover then m_timers tm
                            else lower_bound_now a0 now_ms (t_heap tm) (m_timers tm))
             in Inr (expire_loop now_ms expired cbs
                       (tm\<lparr>m_timers := drop (length expired) (m_timers tm)\<rparr>)))"

definition listExpiredCb ::
  "nat \<Rightarrow> u64 \<Rightarrow> 'cb option list \<Rightarrow> 'cb timermanager \<Rightarrow> ('cb option list \<times> 'cb timermanager) res" where
  "listExpiredCb a0 now_ms cbs tm =
     (if m_timers tm = [] then Inr (cbs, tm) else listExpiredCb_locked a0 now_ms cbs tm)"

subsection \<open>The invariant\<close>

text \<open>
  The set is ordered by the comparator, and every timer that still has a callback is in it.
\<close>

definition timer_inv :: "'cb timermanager \<Rightarrow> bool" where
  "timer_inv tm \<longleftrightarrow> sorted_wrt (tless (t_heap tm)) (m_timers tm) \<and>
     (\<forall>a. m_cb (t_heap tm a) \<noteq> None \<longrightarrow> a \<in> set (m_timers tm))"

lemma tless_iff:
  "tless h a b \<longleftrightarrow> m_next (h a) < m_next (h b) \<or> (m_next (h a) = m_next (h b) \<and> a < b)"
  by (auto simp: tless_def Comparator_def)

interpretation tl: comparator_order "tless h" for h :: "'cb theap"
  by unfold_locales (auto simp: tless_iff)

lemma sorted_cong:
  "(\<And>a. a \<in> set ts \<Longrightarrow> m_next (h a) = m_next (h' a)) \<Longrightarrow>
     sorted_wrt (tless h) ts \<longleftrightarrow> sorted_wrt (tless h') ts"
  by (induction ts) (auto simp: tless_iff)

lemma sorted_upd [simp]:
  "t \<notin> set ts \<Longrightarrow> sorted_wrt (tless (h(t := x))) ts \<longleftrightarrow> sorted_wrt (tless h) ts"
  by (rule sorted_cong) auto

lemma sorted_upd_cb [simp]:
  "sorted_wrt (tless (h(t := (h t)\<lparr>m_cb := c\<rparr>))) ts \<longleftrightarrow> sorted_wrt (tless h) ts"
  by (rule sorted_cong) auto

lemma timer_inv_new: "timer_inv (new_TimerManager now)"
  by (simp add: timer_inv_def new_TimerManager_def no_timer_def)

lemma find_inv: "timer_inv tm \<Longrightarrow>
    set_find (tless (t_heap tm)) t (m_timers tm) = (if t \<in> set (m_timers tm) then Some t else None)"
  by (simp add: timer_inv_def tl.find_law)

text \<open>Inserting a timer that is not in the set, after its fields were written.\<close>

lemma insert_inv:
  assumes "sorted_wrt (tless h) ts" "t \<notin> set ts"
    and "\<forall>a. a \<noteq> t \<longrightarrow> m_cb (h a) \<noteq> None \<longrightarrow> a \<in> set ts"
  shows "timer_inv (tm\<lparr>t_heap := h, m_timers := set_insert (tless h) t ts\<rparr>)"
  using tl.insert_law [OF assms(1,2)] assms(3) by (auto simp: timer_inv_def)

lemma timer_inv_fields [simp]:
  "timer_inv (tm\<lparr>m_tickled := b\<rparr>) = timer_inv tm" "timer_inv (tm\<lparr>m_previouseTime := w\<rparr>) = timer_inv tm"
  by (simp_all add: timer_inv_def)

lemma addTimer_lock_inv:
  assumes "sorted_wrt (tless (t_heap tm)) (m_timers tm)" "t \<notin> set (m_timers tm)"
    and "\<forall>a. a \<noteq> t \<longrightarrow> m_cb (t_heap tm a) \<noteq> None \<longrightarrow> a \<in> set (m_timers tm)"
  shows "timer_inv (snd (addTimer_lock t tm))"
    "set (m_timers (snd (addTimer_lock t tm))) = insert t (set (m_timers tm))"
    "t_heap (snd (addTimer_lock t tm)) = t_heap tm"
  using tl.insert_law [OF assms(1,2)] assms(3)
  by (auto simp: addTimer_lock_def Let_def timer_inv_def)

lemma addTimer_inv:
  assumes "timer_inv tm" "t \<notin> set (m_timers tm)"
  shows "timer_inv (snd (addTimer t now ms cb recurring tm))"
  using assms unfolding addTimer_def
  by (intro addTimer_lock_inv) (auto simp: timer_inv_def)

lemma addTimer_timers:
  assumes "timer_inv tm" "t \<notin> set (m_timers tm)"
  shows "set (m_timers (snd (addTimer t now ms cb recurring tm))) = insert t (set (m_timers tm))"
proof -
  let ?tm = "tm\<lparr>t_heap := (t_heap tm)(t := new_Timer now ms cb recurring)\<rparr>"
  have "set (m_timers (snd (addTimer_lock t ?tm))) = insert t (set (m_timers ?tm))"
    using assms by (intro addTimer_lock_inv) (auto simp: timer_inv_def)
  then show ?thesis by (simp add: addTimer_def)
qed

lemma remove_sorted:
  assumes "timer_inv tm"
  shows "sorted_wrt (tless (t_heap tm)) (remove1 t (m_timers tm))"
    "set (remove1 t (m_timers tm)) = set (m_timers tm) - {t}"
  using assms tl.remove_law [of "t_heap tm" "m_timers tm" t] by (simp_all add: timer_inv_def)

lemma cancel_cases:
  assumes "timer_inv tm"
  shows "cancel t tm =
    (if m_cb (t_heap tm t) = None then Inr (False, tm)
     else Inr (True, tm\<lparr>t_heap := (t_heap tm)(t := (t_heap tm t)\<lparr>m_cb := None\<rparr>),
                        m_timers := remove1 t (m_timers tm)\<rparr>))"
proof (cases "m_cb (t_heap tm t)")
  case (Some c)
  then have t: "t \<in> set (m_timers tm)" using assms by (auto simp: timer_inv_def)
  have "set_find (tless ((t_heap tm)(t := (t_heap tm t)\<lparr>m_cb := None\<rparr>))) t (m_timers tm) = Some t"
    using assms t by (subst tl.find_law) (auto simp: timer_inv_def)
  then show ?thesis using Some by (simp add: cancel_def)
qed (simp add: cancel_def)

lemma cancel_inv:
  assumes "timer_inv tm" "cancel t tm = Inr (r, tm')"
  shows "timer_inv tm'"
proof (cases "m_cb (t_heap tm t) = None")
  case True
  then show ?thesis using assms by (simp add: cancel_cases)
next
  case False
  then have tm': "tm' = tm\<lparr>t_heap := (t_heap tm)(t := (t_heap tm t)\<lparr>m_cb := None\<rparr>),
      m_timers := remove1 t (m_timers tm)\<rparr>"
    using assms by (auto simp: cancel_cases)
  show ?thesis
    using assms(1) remove_sorted [OF assms(1), of t] unfolding tm' by (auto simp: timer_inv_def)
qed

lemma refresh_inv:
  assumes "timer_inv tm"
  shows "timer_inv (snd (refresh t now tm))"
proof (cases "m_cb (t_heap tm t) = None \<or> t \<notin> set (m_timers tm)")
  case True
  then show ?thesis using assms by (auto simp: refresh_def find_inv)
next
  case False
  let ?h = "(t_heap tm)(t := (t_heap tm t)\<lparr>m_next := now + m_ms (t_heap tm t)\<rparr>)"
  have "timer_inv (tm\<lparr>t_heap := ?h, m_timers := set_insert (tless ?h) t (remove1 t (m_timers tm))\<rparr>)"
  proof (rule insert_inv)
    show "\<forall>a. a \<noteq> t \<longrightarrow> m_cb (?h a) \<noteq> None \<longrightarrow> a \<in> set (remove1 t (m_timers tm))"
      using assms remove_sorted [OF assms, of t] by (simp add: timer_inv_def)
  qed (use remove_sorted [OF assms, of t] in auto)
  then show ?thesis using False assms by (simp add: refresh_def find_inv Let_def)
qed

lemma reset_inv: "timer_inv tm \<Longrightarrow> timer_inv (snd (snd (reset t now ms from_now tm)))"
proof -
  assume inv: "timer_inv tm"
  let ?h = "(t_heap tm)(t := (t_heap tm t)\<lparr>m_ms := ms,
      m_next := (if from_now then now else m_next (t_heap tm t) - m_ms (t_heap tm t)) + ms\<rparr>)"
  have "timer_inv (snd (addTimer_lock t (tm\<lparr>t_heap := ?h, m_timers := remove1 t (m_timers tm)\<rparr>)))"
    using inv remove_sorted [OF inv, of t]
    by (intro addTimer_lock_inv) (auto simp: timer_inv_def)
  then show ?thesis
    using inv by (simp add: reset_def find_inv Let_def case_prod_unfold)
qed

lemma getNextTimer_inv: "timer_inv tm \<Longrightarrow> timer_inv (snd (getNextTimer now tm))"
  by (simp add: getNextTimer_def Let_def split: list.split)

subsection \<open>Expiry\<close>

lemma sorted_next_le:
  "sorted_wrt (tless h) (t # ts) \<Longrightarrow> u \<in> set ts \<Longrightarrow> m_next (h t) \<le> m_next (h u)"
  by (auto simp: tless_iff)

lemma due_prefix:
  "sorted_wrt (tless h) ts \<Longrightarrow>
     takeWhile (\<lambda>t. m_next (h t) \<le> now) ts = filter (\<lambda>t. m_next (h t) \<le> now) ts"
proof (induction ts)
  case (Cons t ts)
  show ?case
  proof (cases "m_next (h t) \<le> now")
    case False
    then have "\<forall>u\<in>set ts. \<not> m_next (h u) \<le> now"
      using sorted_next_le [OF Cons.prems] by (meson order.trans)
    then show ?thesis using False by simp
  qed (use Cons in simp)
qed simp

text \<open>The expired timers do not depend on the address of the probe.\<close>

lemma lower_bound_now_due:
  assumes "sorted_wrt (tless h) ts" "a0 \<notin> set ts"
  shows "lower_bound_now a0 now h ts = takeWhile (\<lambda>t. m_next (h t) \<le> now) ts"
proof -
  define P where "P t = tless (h(a0 := no_timer\<lparr>m_next := now\<rparr>)) t a0" for t
  have P: "P t \<longleftrightarrow> m_next (h t) < now \<or> m_next (h t) = now \<and> t < a0" if "t \<noteq> a0" for t
    using that by (simp add: P_def tless_iff)
  have "takeWhile P ts @ takeWhile (\<lambda>t. m_next (h t) = now) (dropWhile P ts)
      = takeWhile (\<lambda>t. m_next (h t) \<le> now) ts"
    using assms
  proof (induction ts)
    case (Cons t ts)
    show ?case
    proof (cases "P t")
      case True
      then show ?thesis using Cons P [of t] by auto
    next
      case False
      then have "\<forall>u\<in>set (t # ts). now \<le> m_next (h u)"
        using Cons.prems(2) P [of t] sorted_next_le [OF Cons.prems(1)]
        by (auto simp: not_less intro: order.trans)
      then have "takeWhile (\<lambda>t. m_next (h t) = now) (t # ts) = takeWhile (\<lambda>t. m_next (h t) \<le> now) (t # ts)"
        by (intro takeWhile_cong) auto
      then show ?thesis using False by simp
    qed
  qed simp
  then show ?thesis
    by (simp add: lower_bound_now_def Let_def P_def [abs_def] takeWhile_eq_take [symmetric] dropWhile_eq_drop [symmetric])
qed

text \<open>What the loop over the expired timers does to one timer.\<close>

definition fired :: "u64 \<Rightarrow> 'cb timer \<Rightarrow> 'cb timer" where
  "fired now x = (if m_recurring x then x\<lparr>m_next := now + m_ms x\<rparr> else x\<lparr>m_cb := None\<rparr>)"

lemma expire_loop_correct:
  assumes "distinct ts" "set ts \<inter> set (m_timers tm) = {}" "sorted_wrt (tless (t_heap tm)) (m_timers tm)"
    and "\<forall>a. m_cb (t_heap tm a) \<noteq> None \<longrightarrow> a \<in> set (m_timers tm) \<union> set ts"
  shows "\<exists>tm'. expire_loop now ts cbs tm = (cbs @ map (\<lambda>t. m_cb (t_heap tm t)) ts, tm') \<and> timer_inv tm'
    \<and> set (m_timers tm') = set (m_timers tm) \<union> {t \<in> set ts. m_recurring (t_heap tm t)}
    \<and> t_heap tm' = (\<lambda>t. if t \<in> set ts then fired now (t_heap tm t) else t_heap tm t)
    \<and> m_previouseTime tm' = m_previouseTime tm"
  using assms
proof (induction ts arbitrary: cbs tm)
  case Nil
  then show ?case by (simp add: timer_inv_def)
next
  case (Cons t ts)
  let ?x = "t_heap tm t"
  let ?h = "(t_heap tm)(t := fired now ?x)"
  let ?ts = "if m_recurring ?x then set_insert (tless ?h) t (m_timers tm) else m_timers tm"
  let ?tm = "tm\<lparr>t_heap := ?h, m_timers := ?ts\<rparr>"
  have t: "t \<notin> set (m_timers tm)" "t \<notin> set ts" using Cons.prems by auto
  have step: "expire_loop now (t # ts) cbs tm = expire_loop now ts (cbs @ [m_cb ?x]) ?tm"
    by (simp add: Let_def fired_def)
  have sorted: "sorted_wrt (tless ?h) (m_timers tm)" using Cons.prems(3) t by simp
  note ins = tl.insert_law [OF sorted t(1)]
  have set: "set ?ts = set (m_timers tm) \<union> (if m_recurring ?x then {t} else {})" using ins by auto
  have "\<exists>tm'. expire_loop now ts (cbs @ [m_cb ?x]) ?tm
      = ((cbs @ [m_cb ?x]) @ map (\<lambda>t. m_cb (t_heap ?tm t)) ts, tm') \<and> timer_inv tm'
    \<and> set (m_timers tm') = set (m_timers ?tm) \<union> {t \<in> set ts. m_recurring (t_heap ?tm t)}
    \<and> t_heap tm' = (\<lambda>t. if t \<in> set ts then fired now (t_heap ?tm t) else t_heap ?tm t)
    \<and> m_previouseTime tm' = m_previouseTime ?tm"
  proof (rule Cons.IH)
    show "set ts \<inter> set (m_timers ?tm) = {}" using Cons.prems(2) t(2) set by auto
    show "sorted_wrt (tless (t_heap ?tm)) (m_timers ?tm)" using sorted ins(1) by simp
    show "\<forall>a. m_cb (t_heap ?tm a) \<noteq> None \<longrightarrow> a \<in> set (m_timers ?tm) \<union> set ts"
      using Cons.prems(4) set by (auto simp: fired_def)
  qed (use Cons.prems(1) in simp)
  moreover have "map (\<lambda>s. m_cb (t_heap ?tm s)) ts = map (\<lambda>s. m_cb (t_heap tm s)) ts"
    using t(2) by auto
  moreover have "{s \<in> set ts. m_recurring (t_heap ?tm s)} = {s \<in> set ts. m_recurring (t_heap tm s)}"
    using t(2) by auto
  moreover have "(\<lambda>s. if s \<in> set ts then fired now (t_heap ?tm s) else t_heap ?tm s)
      = (\<lambda>s. if s \<in> set (t # ts) then fired now (t_heap tm s) else t_heap tm s)"
    using t(2) by auto
  ultimately show ?case unfolding step using set by (auto simp: Collect_disj_eq)
qed

lemma listExpiredCb_correct:
  fixes now :: u64
  assumes inv: "timer_inv tm" and a0: "a0 \<notin> set (m_timers tm)"
  defines "rollover \<equiv> now < m_previouseTime tm \<and> now < m_previouseTime tm - 60 * 60 * 1000"
  defines "due \<equiv> filter (\<lambda>t. rollover \<or> m_next (t_heap tm t) \<le> now) (m_timers tm)"
  shows "\<exists>tm'. listExpiredCb a0 now cbs tm = Inr (cbs @ map (\<lambda>t. m_cb (t_heap tm t)) due, tm')
    \<and> timer_inv tm'
    \<and> set (m_timers tm') = {t \<in> set (m_timers tm). t \<in> set due \<longrightarrow> m_recurring (t_heap tm t)}
    \<and> t_heap tm' = (\<lambda>t. if t \<in> set due then fired now (t_heap tm t) else t_heap tm t)"
proof (cases "m_timers tm = []")
  case True
  then show ?thesis using inv by (simp add: listExpiredCb_def due_def)
next
  case False
  let ?ts = "m_timers tm" and ?h = "t_heap tm"
  have sorted: "sorted_wrt (tless ?h) ?ts" using inv by (simp add: timer_inv_def)
  have due: "due = (if rollover then ?ts else takeWhile (\<lambda>t. m_next (?h t) \<le> now) ?ts)"
    by (simp add: due_def due_prefix [OF sorted])
  have split: "?ts = due @ drop (length due) ?ts"
    unfolding due by (simp add: dropWhile_eq_drop [symmetric])
  define late where "late = drop (length due) ?ts"
  have ts: "?ts = due @ late" using split by (simp add: late_def)
  have d: "distinct (due @ late)" using tl.sorted_distinct [OF sorted] ts by simp
  let ?tm = "tm\<lparr>m_previouseTime := now, m_timers := late\<rparr>"
  have f: "t_heap ?tm = ?h" "m_timers ?tm = late" by simp_all
  have "\<exists>tm'. expire_loop now due cbs ?tm = (cbs @ map (\<lambda>t. m_cb (t_heap ?tm t)) due, tm') \<and> timer_inv tm'
    \<and> set (m_timers tm') = set (m_timers ?tm) \<union> {t \<in> set due. m_recurring (t_heap ?tm t)}
    \<and> t_heap tm' = (\<lambda>t. if t \<in> set due then fired now (t_heap ?tm t) else t_heap ?tm t)
    \<and> m_previouseTime tm' = m_previouseTime ?tm"
  proof (rule expire_loop_correct)
    show "sorted_wrt (tless (t_heap ?tm)) (m_timers ?tm)"
      using sorted unfolding ts by (simp add: sorted_wrt_append)
    have "set ?ts = set due \<union> set late" using ts by (metis set_append)
    then show "\<forall>a. m_cb (t_heap ?tm a) \<noteq> None \<longrightarrow> a \<in> set (m_timers ?tm) \<union> set due"
      using inv by (auto simp: timer_inv_def)
  qed (use d in auto)
  then obtain tm' where loop: "expire_loop now due cbs ?tm = (cbs @ map (\<lambda>t. m_cb (?h t)) due, tm')"
    "timer_inv tm'" "set (m_timers tm') = set late \<union> {t \<in> set due. m_recurring (?h t)}"
    "t_heap tm' = (\<lambda>t. if t \<in> set due then fired now (?h t) else ?h t)"
    unfolding f by blast
  have set: "set (m_timers tm') = {t \<in> set ?ts. t \<in> set due \<longrightarrow> m_recurring (?h t)}"
    using loop(3) d unfolding ts by auto
  show ?thesis
  proof (cases "\<not> rollover \<and> now < m_next (?h (hd ?ts))")
    case True
    then have "due = []" using False by (cases ?ts) (auto simp: due)
    then have "listExpiredCb a0 now cbs tm = Inr (cbs, tm\<lparr>m_previouseTime := now\<rparr>)"
      using True False by (simp add: listExpiredCb_def listExpiredCb_locked_def detectClockRollover_def
          rollover_def)
    then show ?thesis using \<open>due = []\<close> inv by simp
  next
    case no: False
    have "listExpiredCb a0 now cbs tm = Inr (expire_loop now due cbs ?tm)"
      using no False due lower_bound_now_due [OF sorted a0]
      by (auto simp: listExpiredCb_def listExpiredCb_locked_def detectClockRollover_def rollover_def
          late_def Let_def)
    then show ?thesis using loop set by simp
  qed
qed

subsection \<open>Reachable states\<close>

inductive tm_step :: "'cb timermanager \<Rightarrow> 'cb timermanager \<Rightarrow> bool" where
  step_add: "t \<notin> set (m_timers tm) \<Longrightarrow> tm_step tm (snd (addTimer t now ms cb recurring tm))"
| step_cancel: "cancel t tm = Inr (r, tm') \<Longrightarrow> tm_step tm tm'"
| step_refresh: "tm_step tm (snd (refresh t now tm))"
| step_reset: "tm_step tm (snd (snd (reset t now ms from_now tm)))"
| step_next: "tm_step tm (snd (getNextTimer now tm))"
| step_expire: "a0 \<notin> set (m_timers tm) \<Longrightarrow> listExpiredCb a0 now cbs tm = Inr (cbs', tm') \<Longrightarrow> tm_step tm tm'"

inductive_cases tm_stepE: "tm_step tm tm'"

inductive tm_reach :: "'cb timermanager \<Rightarrow> bool" where
  "tm_reach (new_TimerManager now)"
| "tm_reach tm \<Longrightarrow> tm_step tm tm' \<Longrightarrow> tm_reach tm'"

lemma tm_step_inv: "tm_step tm tm' \<Longrightarrow> timer_inv tm \<Longrightarrow> timer_inv tm'"
proof (induction rule: tm_step.induct)
  case (step_expire a0 tm now cbs cbs' tm')
  then show ?case using listExpiredCb_correct [OF step_expire.prems step_expire(1), of now cbs] by auto
qed (auto simp: addTimer_inv refresh_inv reset_inv getNextTimer_inv intro: cancel_inv)

lemma tm_reach_inv: "tm_reach tm \<Longrightarrow> timer_inv tm"
  by (induction rule: tm_reach.induct) (auto simp: timer_inv_new tm_step_inv)

subsection \<open>Properties\<close>

text \<open>
  C8. In every state the manager can reach, the set is ordered strictly by time and address,
  every timer that still has a callback is in it, and therefore \<open>cancel\<close> never erases a
  missing element: it clears the callback, removes the timer and returns true exactly for a
  timer that still has a callback.
\<close>

theorem cancel_safe:
  assumes "tm_reach tm"
  shows "sorted_wrt (tless (t_heap tm)) (m_timers tm)
    \<and> (\<exists>tm'. cancel t tm = Inr (m_cb (t_heap tm t) \<noteq> None, tm') \<and> tm_reach tm'
        \<and> m_cb (t_heap tm' t) = None
        \<and> set (m_timers tm') = (if m_cb (t_heap tm t) = None then set (m_timers tm)
                                 else set (m_timers tm) - {t}))"
proof -
  have inv: "timer_inv tm" using tm_reach_inv [OF assms] .
  then have s: "sorted_wrt (tless (t_heap tm)) (m_timers tm)" by (simp add: timer_inv_def)
  obtain tm' where c: "cancel t tm = Inr (m_cb (t_heap tm t) \<noteq> None, tm')" "m_cb (t_heap tm' t) = None"
    "set (m_timers tm') = (if m_cb (t_heap tm t) = None then set (m_timers tm) else set (m_timers tm) - {t})"
    using cancel_cases [OF inv, of t] remove_sorted(2) [OF inv, of t] by (cases "m_cb (t_heap tm t) = None") auto
  then have "tm_reach tm'" using assms by (auto intro: tm_reach.intros step_cancel)
  then show ?thesis using s c by blast
qed

definition two_timers :: "nat timermanager" where
  "two_timers = snd (addTimer 2 100 50 (Some 22) True (snd (addTimer 1 100 70 (Some 11) False
     (new_TimerManager 100))))"

lemma two_timers_reach: "tm_reach two_timers"
  unfolding two_timers_def
  by (rule tm_reach.intros(2) [OF tm_reach.intros(2) [OF tm_reach.intros(1) step_add] step_add])
    (auto simp: new_TimerManager_def addTimer_def addTimer_lock_def Let_def set_insert_def)

theorem cancel_safe_witness:
  "tm_reach two_timers \<and> (\<exists>tm'. cancel 1 two_timers = Inr (True, tm') \<and> set (m_timers tm') = {2})"
proof -
  have "m_cb (t_heap two_timers 1) = Some 11" "set (m_timers two_timers) = {1, 2}" by code_simp+
  then show ?thesis using cancel_safe [OF two_timers_reach, of 1] two_timers_reach by auto
qed

text \<open>
  C14. \<open>listExpiredCb\<close> hands out exactly the callbacks of the timers that are due (all timers
  after a clock rollover), in the order of their times; due timers that recur stay, at the
  current time plus their period, the other due timers leave the set and lose their callback,
  and no other timer changes.
\<close>

theorem listExpiredCb_fires_due:
  assumes "tm_reach tm" "a0 \<notin> set (m_timers tm)" "m_previouseTime tm \<le> now"
  shows "\<exists>tm'. listExpiredCb a0 now cbs tm
      = Inr (cbs @ map (\<lambda>t. m_cb (t_heap tm t)) (filter (\<lambda>t. m_next (t_heap tm t) \<le> now) (m_timers tm)), tm')
    \<and> (\<forall>t. t_heap tm' t = (if t \<in> set (m_timers tm) \<and> m_next (t_heap tm t) \<le> now
                           then fired now (t_heap tm t) else t_heap tm t))
    \<and> (\<forall>t. t \<in> set (m_timers tm') \<longleftrightarrow>
         t \<in> set (m_timers tm) \<and> (now < m_next (t_heap tm t) \<or> m_recurring (t_heap tm t)))
    \<and> sorted_wrt (tless (t_heap tm')) (m_timers tm')"
proof -
  have e: "(now < m_previouseTime tm \<and> now < m_previouseTime tm - 60 * 60 * 1000) = False"
    using assms(3) by (simp only: not_less [symmetric] simp_thms)
  show ?thesis
    using listExpiredCb_correct [OF tm_reach_inv [OF assms(1)] assms(2), of now cbs, unfolded e]
    by (auto simp: timer_inv_def)
qed

theorem listExpiredCb_fires_due_witness:
  "\<exists>tm'. listExpiredCb 9 160 [] two_timers = Inr ([Some 22], tm') \<and> set (m_timers tm') = {1, 2}
    \<and> m_next (t_heap tm' 2) = 210"
proof -
  have h: "9 \<notin> set (m_timers two_timers)" "m_previouseTime two_timers \<le> 160" by code_simp+
  have e: "filter (\<lambda>t. m_next (t_heap two_timers t) \<le> 160) (m_timers two_timers) = [2]"
    "m_cb (t_heap two_timers 2) = Some 22" "2 \<in> set (m_timers two_timers)"
    "m_next (t_heap two_timers 2) \<le> 160" "m_next (fired 160 (t_heap two_timers 2)) = 210"
    "set (m_timers two_timers) = {1, 2}" "m_recurring (t_heap two_timers 2)"
    "160 < m_next (t_heap two_timers 1)"
    by code_simp+
  show ?thesis using listExpiredCb_fires_due [OF two_timers_reach h, of "[]"] e by (auto simp: set_eq_iff)
qed

text \<open>
  \<open>getNextTimer\<close> is the wait that misses no timer: without timers it is the largest
  64-bit number, otherwise it is 0 exactly when some timer is due, and else the distance to the
  earliest timer, which no other timer precedes.
\<close>

lemma getNextTimer_earliest:
  assumes "tm_reach tm"
  shows "(m_timers tm = [] \<and> fst (getNextTimer now tm) = - 1) \<or>
    (\<exists>t\<in>set (m_timers tm). (\<forall>u\<in>set (m_timers tm). m_next (t_heap tm t) \<le> m_next (t_heap tm u))
      \<and> fst (getNextTimer now tm) =
          (if m_next (t_heap tm t) \<le> now then 0 else m_next (t_heap tm t) - now))"
proof (cases "m_timers tm")
  case Nil
  then show ?thesis by (simp add: getNextTimer_def)
next
  case (Cons t ts)
  have "sorted_wrt (tless (t_heap tm)) (t # ts)"
    using tm_reach_inv [OF assms] Cons by (simp add: timer_inv_def)
  then have "\<forall>u\<in>set (m_timers tm). m_next (t_heap tm t) \<le> m_next (t_heap tm u)"
    using sorted_next_le Cons by (auto intro: order.refl)
  then show ?thesis using Cons by (simp add: getNextTimer_def Let_def)
qed

lemma getNextTimer_earliest_example: "fst (getNextTimer 120 two_timers) = 30"
proof -
  have "m_timers two_timers = [2, 1]" "m_next (t_heap two_timers 2) = 150" "m_next (t_heap two_timers 1) = 170"
    by code_simp+
  then show ?thesis using getNextTimer_earliest [OF two_timers_reach, of 120] by auto
qed

text \<open>
  \<open>listExpiredCb\<close> is not atomic: it tests for emptiness under the read lock and looks at
  the first timer under the write lock. When another thread cancels the only timer in
  between, the second part dereferences the end of an empty set.
\<close>

lemma listExpiredCb_race:
  "let tm = snd (addTimer 1 100 70 (Some (11 :: nat)) False (new_TimerManager 100)) in
   hasTimer tm \<and> err_of (bindR (cancel 1 tm) (\<lambda>(ok, tm). listExpiredCb_locked 9 120 [] tm)) = Some OutOfBounds"
  by code_simp

end
