(* ===== verification/Mqtt.thy ===== *)
theory Mqtt
  imports Text
begin

text \<open>
  \<open>sherry/mqtt_client.h\<close>, \<open>sherry/mqtt_client.cc\<close>, \<open>sherry/mqtt_listener.h\<close>,
  \<open>sherry/ota_client_callback.h\<close>, \<open>sherry/ota_client_callback.cc\<close> and the class \<open>MqttAddress\<close> of
  \<open>sherry/address.cc\<close>: the MQTT clients, one for each device type, the manager that creates
  them on demand and the registry of message callbacks. The Paho library is outside the
  model: a record \<open>broker\<close> says which of its calls succeed, and the calls made on it are the
  events an operation returns. A client pointer is the serial number the manager gave it.
\<close>

subsection \<open>MqttAddress\<close>

record mqttaddress =
  ma_port :: int
  ma_protocol :: string
  ma_host :: string
  ma_addr :: string

definition mqtt_uri :: "string \<Rightarrow> int \<Rightarrow> string \<Rightarrow> string" where
  "mqtt_uri protocol port host = protocol @ ''://'' @ host @ '':'' @ dec_int port"

definition new_MqttAddress :: "string \<Rightarrow> int \<Rightarrow> string \<Rightarrow> mqttaddress" where
  "new_MqttAddress protocol port host =
     \<lparr>ma_port = port, ma_protocol = protocol, ma_host = host, ma_addr = mqtt_uri protocol port host\<rparr>"

definition updateAddr :: "mqttaddress \<Rightarrow> mqttaddress" where
  "updateAddr a = a\<lparr>ma_addr := mqtt_uri (ma_protocol a) (ma_port a) (ma_host a)\<rparr>"

definition ma_setAddr :: "string \<Rightarrow> int \<Rightarrow> string \<Rightarrow> mqttaddress \<Rightarrow> mqttaddress" where
  "ma_setAddr protocol port host a =
     a\<lparr>ma_protocol := protocol, ma_port := port, ma_host := host, ma_addr := mqtt_uri protocol port host\<rparr>"

definition ma_setProtocol :: "string \<Rightarrow> mqttaddress \<Rightarrow> mqttaddress" where
  "ma_setProtocol protocol a = updateAddr (a\<lparr>ma_protocol := protocol\<rparr>)"

definition ma_setHost :: "string \<Rightarrow> mqttaddress \<Rightarrow> mqttaddress" where
  "ma_setHost host a = updateAddr (a\<lparr>ma_host := host\<rparr>)"

definition ma_setPort :: "int \<Rightarrow> mqttaddress \<Rightarrow> mqttaddress" where
  "ma_setPort port a = updateAddr (a\<lparr>ma_port := port\<rparr>)"

definition ma_inv :: "mqttaddress \<Rightarrow> bool" where
  "ma_inv a \<longleftrightarrow> ma_addr a = mqtt_uri (ma_protocol a) (ma_port a) (ma_host a)"

lemma ma_inv_ops [simp]:
  "ma_inv (new_MqttAddress p n h)" "ma_inv (ma_setAddr p n h a)" "ma_inv (ma_setProtocol p a)"
  "ma_inv (ma_setHost h a)" "ma_inv (ma_setPort n a)"
  by (simp_all add: ma_inv_def new_MqttAddress_def ma_setAddr_def ma_setProtocol_def ma_setHost_def
      ma_setPort_def updateAddr_def)

subsection \<open>Clients\<close>

text \<open>The outcome of the library calls.\<close>

record broker =
  bk_connect :: bool
  bk_publish :: bool
  bk_subscribe :: bool
  bk_disconnect :: bool
  bk_unsubscribe :: bool

datatype mqtt_event =
    EvConnect string bool
  | EvPublish string string string int bool
  | EvSubscribe string string int
  | EvUnsubscribe string string
  | EvDisconnect string
  | EvCallback string int

text \<open>
  \<open>cb\<close> is the type of action callbacks. \<open>mc_connected\<close> is the library's \<open>is_connected()\<close>,
  \<open>m_isconnected\<close> the flag of the class, \<open>mc_alive\<close> whether \<open>m_client\<close> still points to an
  object, \<open>mc_uri\<close> the address the library client was created with.
\<close>

record connopts =
  co_keep_alive_interval :: int
  co_automatic_reconnect :: bool
  co_clean_session :: bool
  co_user_name :: string
  co_password :: string
  co_connect_timeout :: int

record 'cb mqttclient =
  mc_port :: int
  mc_device_type :: int
  m_isconnected :: bool
  mc_protocol :: string
  mc_host :: string
  mc_client_id :: string
  m_serverAddress :: mqttaddress
  mc_alive :: bool
  mc_connected :: bool
  mc_uri :: string
  m_connOpts :: "connopts option"
  mc_listener :: "string \<times> 'cb option"

text \<open>The constructor does not initialise \<open>m_isconnected\<close>: its value is an argument.\<close>

definition new_MqttClient ::
  "bool \<Rightarrow> string \<Rightarrow> int \<Rightarrow> string \<Rightarrow> string \<Rightarrow> int \<Rightarrow> 'cb mqttclient" where
  "new_MqttClient garbage protocol port host client_id device_type =
     \<lparr>mc_port = port, mc_device_type = device_type, m_isconnected = garbage, mc_protocol = protocol,
      mc_host = host, mc_client_id = client_id,
      m_serverAddress = new_MqttAddress protocol port host, mc_alive = True, mc_connected = False,
      mc_uri = mqtt_uri protocol port host, m_connOpts = None, mc_listener = ('''', None)\<rparr>"

text \<open>A use of \<open>*m_client\<close>.\<close>

definition use_client :: "'cb mqttclient \<Rightarrow> unit res" where
  "use_client c = (if mc_alive c then Inr () else Inl UseAfterFree)"

text \<open>
  \<open>CreateMqttClient(m_client)\<close>: the pointer is passed by value, so the new client is lost and
  \<open>m_client\<close> keeps pointing to the old one, which a connected client has just deleted.
\<close>

definition CreateMqttClient :: "'cb mqttclient \<Rightarrow> ('cb mqttclient \<times> mqtt_event list) res" where
  "CreateMqttClient c =
     bindR (use_client c) (\<lambda>_.
       if mc_connected c
       then Inr (c\<lparr>mc_alive := False, mc_connected := False\<rparr>, [EvDisconnect (mc_client_id c)])
       else Inr (c, []))"

definition mc_set_port :: "int \<Rightarrow> 'cb mqttclient \<Rightarrow> ('cb mqttclient \<times> mqtt_event list) res" where
  "mc_set_port v c =
     CreateMqttClient (c\<lparr>mc_port := v, m_serverAddress := ma_setPort v (m_serverAddress c)\<rparr>)"

definition mc_set_serverAddr ::
  "string \<Rightarrow> int \<Rightarrow> string \<Rightarrow> 'cb mqttclient \<Rightarrow> ('cb mqttclient \<times> mqtt_event list) res" where
  "mc_set_serverAddr protocol port host c =
     CreateMqttClient (c\<lparr>m_serverAddress := ma_setAddr protocol port host (m_serverAddress c),
                         mc_protocol := protocol, mc_port := port, mc_host := host\<rparr>)"

text \<open>\<open>set_connOpts\<close>; \<open>None\<close> above stands for the library's default options.\<close>

definition mc_set_connOpts ::
  "int \<Rightarrow> bool \<Rightarrow> bool \<Rightarrow> string \<Rightarrow> string \<Rightarrow> int \<Rightarrow> 'cb mqttclient \<Rightarrow> 'cb mqttclient" where
  "mc_set_connOpts KAInterval AutoRconn CleanSesstion UserName PassWord ConnTimeout c =
     c\<lparr>m_connOpts := Some \<lparr>co_keep_alive_interval = KAInterval, co_automatic_reconnect = AutoRconn,
          co_clean_session = CleanSesstion, co_user_name = UserName, co_password = PassWord,
          co_connect_timeout = ConnTimeout\<rparr>\<rparr>"

definition mc_connect ::
  "broker \<Rightarrow> bool \<Rightarrow> 'cb mqttclient \<Rightarrow> ('cb mqttclient \<times> mqtt_event list) res" where
  "mc_connect bk use_opts c =
     bindR (use_client c) (\<lambda>_.
     bindR (assertR (\<not> mc_connected c)) (\<lambda>_.
       if bk_connect bk
       then Inr (c\<lparr>mc_connected := True, m_isconnected := True\<rparr>, [EvConnect (mc_client_id c) use_opts])
       else Inr (c, [])))"

definition fix_qos :: "int \<Rightarrow> int" where
  "fix_qos qos = (if qos < 0 \<or> qos > 2 then 1 else qos)"

definition mc_subscribe ::
  "broker \<Rightarrow> string \<Rightarrow> int \<Rightarrow> 'cb option \<Rightarrow> 'cb mqttclient \<Rightarrow> ('cb mqttclient \<times> mqtt_event list) res" where
  "mc_subscribe bk topic qos callback c =
     bindR (use_client c) (\<lambda>_.
     bindR (assertR (mc_connected c \<and> m_isconnected c)) (\<lambda>_.
       if bk_subscribe bk
       then Inr (if callback \<noteq> None then c\<lparr>mc_listener := (topic, callback)\<rparr> else c,
                 [EvSubscribe (mc_client_id c) topic (fix_qos qos)])
       else Inr (c, [])))"

definition mc_publish ::
  "broker \<Rightarrow> string \<Rightarrow> string \<Rightarrow> int \<Rightarrow> bool \<Rightarrow> 'cb option \<Rightarrow> 'cb mqttclient
     \<Rightarrow> ('cb mqttclient \<times> mqtt_event list) res" where
  "mc_publish bk topic payload qos retained callback c =
     bindR (use_client c) (\<lambda>_.
     bindR (assertR (mc_connected c \<and> m_isconnected c)) (\<lambda>_.
       if bk_publish bk
       then Inr (if callback \<noteq> None then c\<lparr>mc_listener := (topic, callback)\<rparr> else c,
                 [EvPublish (mc_client_id c) topic payload (fix_qos qos) retained])
       else Inr (c, if callback \<noteq> None then [EvCallback topic (-1)] else [])))"

text \<open>\<open>disconnect\<close>; a disconnect callback gets a code only.\<close>

definition mc_disconnect ::
  "broker \<Rightarrow> 'd option \<Rightarrow> 'cb mqttclient \<Rightarrow> ('cb mqttclient \<times> mqtt_event list) res" where
  "mc_disconnect bk callback c =
     bindR (use_client c) (\<lambda>_.
       if \<not> mc_connected c then Inr (c, if callback \<noteq> None then [EvCallback '''' 0] else [])
       else if bk_disconnect bk
       then Inr (c\<lparr>mc_connected := False\<rparr>, [EvDisconnect (mc_client_id c)])
       else Inr (c, if callback \<noteq> None then [EvCallback '''' (-1)] else []))"

definition mc_unsubscribe ::
  "broker \<Rightarrow> string \<Rightarrow> 'cb option \<Rightarrow> 'cb mqttclient \<Rightarrow> ('cb mqttclient \<times> mqtt_event list) res" where
  "mc_unsubscribe bk topic callback c =
     bindR (use_client c) (\<lambda>_.
       if \<not> mc_connected c then Inr (c, [])
       else if bk_unsubscribe bk then Inr (c, [EvUnsubscribe (mc_client_id c) topic])
       else Inr (c, if callback \<noteq> None then [EvCallback topic (-1)] else []))"

text \<open>The handlers the library calls.\<close>

definition mc_on_connected :: "'cb mqttclient \<Rightarrow> 'cb mqttclient" where
  "mc_on_connected c = c\<lparr>m_isconnected := True\<rparr>"

definition mc_connection_lost :: "'cb mqttclient \<Rightarrow> 'cb mqttclient" where
  "mc_connection_lost c = c\<lparr>m_isconnected := False\<rparr>"

text \<open>\<open>MqttActionListener\<close>: the one listener of a client, which every token of it refers to.\<close>

definition on_success :: "string \<times> 'cb option \<Rightarrow> ('cb \<times> string \<times> int) option" where
  "on_success l = (case l of (topic, Some cb) \<Rightarrow> Some (cb, topic, 0) | (_, None) \<Rightarrow> None)"

definition on_failure :: "string \<times> 'cb option \<Rightarrow> ('cb \<times> string \<times> int) option" where
  "on_failure l = (case l of (topic, Some cb) \<Rightarrow> Some (cb, topic, -1) | (_, None) \<Rightarrow> None)"

subsection \<open>Message callbacks\<close>

type_synonym 'f callbacks = "string \<rightharpoonup> 'f"

definition regist_callback :: "string \<Rightarrow> 'f \<Rightarrow> 'f callbacks \<Rightarrow> 'f callbacks" where
  "regist_callback topic callback cbs = cbs(topic \<mapsto> callback)"

text \<open>\<open>on_message\<close>: the callback it runs, if any; exceptions of the callback are caught.\<close>

definition on_message :: "string \<Rightarrow> string \<Rightarrow> 'f callbacks \<Rightarrow> ('f \<times> string \<times> string) option" where
  "on_message topic payload cbs =
     (case cbs topic of None \<Rightarrow> None | Some cb \<Rightarrow> Some (cb, topic, payload))"

definition message_arrived :: "string \<Rightarrow> string \<Rightarrow> 'f callbacks option \<Rightarrow> ('f \<times> string \<times> string) option" where
  "message_arrived topic payload cbmgr =
     (case cbmgr of None \<Rightarrow> None | Some cbs \<Rightarrow> on_message topic payload cbs)"

subsection \<open>The manager\<close>

record 'cb clientmanager =
  cm_port :: int
  cm_protocol :: string
  cm_host :: string
  cm_heap :: "nat \<Rightarrow> 'cb mqttclient"
  m_clients :: "int \<rightharpoonup> nat"
  m_client_num :: int
  m_client_id :: nat

definition new_MqttClientManager :: "int \<Rightarrow> string \<Rightarrow> string \<Rightarrow> 'cb clientmanager" where
  "new_MqttClientManager port protocol host =
     \<lparr>cm_port = port, cm_protocol = protocol, cm_host = host,
      cm_heap = (\<lambda>_. new_MqttClient False '''' 0 '''' '''' 0), m_clients = Map.empty,
      m_client_num = 0, m_client_id = 0\<rparr>"

definition cm_set_protocol :: "string \<Rightarrow> 'cb clientmanager \<Rightarrow> 'cb clientmanager" where
  "cm_set_protocol v cm = cm\<lparr>cm_protocol := v\<rparr>"

definition cm_set_port :: "int \<Rightarrow> 'cb clientmanager \<Rightarrow> 'cb clientmanager" where
  "cm_set_port v cm = cm\<lparr>cm_port := v\<rparr>"

definition cm_set_host :: "string \<Rightarrow> 'cb clientmanager \<Rightarrow> 'cb clientmanager" where
  "cm_set_host v cm = cm\<lparr>cm_host := v\<rparr>"

text \<open>The two parts of \<open>get_client\<close>, under the read lock and under the write lock.\<close>

definition get_client_lookup :: "int \<Rightarrow> 'cb clientmanager \<Rightarrow> nat option" where
  "get_client_lookup device_type cm = m_clients cm device_type"

definition get_client_create :: "bool \<Rightarrow> int \<Rightarrow> 'cb clientmanager \<Rightarrow> nat \<times> 'cb clientmanager" where
  "get_client_create garbage device_type cm =
     (let c = m_client_id cm in
      (c, cm\<lparr>cm_heap := (cm_heap cm)(c := new_MqttClient garbage (cm_protocol cm) (cm_port cm)
                           (cm_host cm) (dec (m_client_id cm)) device_type),
             m_clients := (m_clients cm)(device_type \<mapsto> c),
             m_client_num := m_client_num cm + 1,
             m_client_id := m_client_id cm + 1\<rparr>))"

definition get_client :: "bool \<Rightarrow> int \<Rightarrow> 'cb clientmanager \<Rightarrow> nat option \<times> 'cb clientmanager" where
  "get_client garbage device_type cm =
     (if device_type < 0 then (None, cm)
      else case get_client_lookup device_type cm of
        Some c \<Rightarrow> (Some c, cm)
      | None \<Rightarrow> (case get_client_create garbage device_type cm of (c, cm) \<Rightarrow> (Some c, cm)))"

text \<open>
  \<open>delete_client\<close>: \<open>use_count()\<close> counts the entry of the map, the local copy \<open>cli\<close> and the
  other owners of the client.
\<close>

definition delete_client ::
  "broker \<Rightarrow> nat \<Rightarrow> int \<Rightarrow> 'cb clientmanager \<Rightarrow> ('cb clientmanager \<times> mqtt_event list) res" where
  "delete_client bk other_owners device_type cm =
     (case m_clients cm device_type of
        None \<Rightarrow> Inr (cm, [])
      | Some c \<Rightarrow>
          let use_count = 1 + 1 + other_owners in
          if use_count > 1 then Inr (cm, [])
          else bindR (mc_disconnect bk (None :: unit option) (cm_heap cm c)) (\<lambda>(cl, evs).
            Inr (cm\<lparr>cm_heap := (cm_heap cm)(c := cl), m_clients := (m_clients cm)(device_type := None),
                    m_client_num := m_client_num cm - 1\<rparr>, evs)))"

text \<open>An operation on the client behind a pointer.\<close>

definition on_client ::
  "nat \<Rightarrow> ('cb mqttclient \<Rightarrow> ('cb mqttclient \<times> mqtt_event list) res) \<Rightarrow> 'cb clientmanager
     \<Rightarrow> ('cb clientmanager \<times> mqtt_event list) res" where
  "on_client c f cm = bindR (f (cm_heap cm c)) (\<lambda>(cl, evs).
     Inr (cm\<lparr>cm_heap := (cm_heap cm)(c := cl)\<rparr>, evs))"

subsection \<open>Invariant of the manager\<close>

definition cm_inv :: "'cb clientmanager \<Rightarrow> bool" where
  "cm_inv cm \<longleftrightarrow> finite (dom (m_clients cm)) \<and> m_client_num cm = int (card (dom (m_clients cm))) \<and>
     inj_on (m_clients cm) (dom (m_clients cm)) \<and>
     (\<forall>d c. m_clients cm d = Some c \<longrightarrow> 0 \<le> d \<and> c < m_client_id cm
        \<and> mc_client_id (cm_heap cm c) = dec c \<and> mc_device_type (cm_heap cm c) = d)"

lemma cm_inv_new: "cm_inv (new_MqttClientManager port protocol host)"
  by (simp add: cm_inv_def new_MqttClientManager_def)

lemma get_client_create_inv:
  assumes inv: "cm_inv cm" and d: "0 \<le> d" "m_clients cm d = None"
  shows "cm_inv (snd (get_client_create g d cm))"
proof -
  let ?cm = "snd (get_client_create g d cm)"
  have m: "m_clients ?cm = (m_clients cm)(d \<mapsto> m_client_id cm)"
    by (simp add: get_client_create_def Let_def)
  have less: "c < m_client_id cm" if "m_clients cm e = Some c" for e c
    using inv that by (auto simp: cm_inv_def)
  have "d \<notin> dom (m_clients cm)" using d(2) by auto
  then have card: "card (dom (m_clients ?cm)) = Suc (card (dom (m_clients cm)))"
    using inv m by (simp add: cm_inv_def)
  have "inj_on (m_clients ?cm) (dom (m_clients ?cm))"
    using inv less unfolding m cm_inv_def inj_on_def by (auto simp: dom_def) (metis less_irrefl)+
  then show ?thesis
    using inv d card less
    by (auto simp: cm_inv_def get_client_create_def Let_def new_MqttClient_def less_Suc_eq)
qed

lemma get_client_cases:
  assumes "0 \<le> d"
  shows "get_client g d cm =
    (case m_clients cm d of Some c \<Rightarrow> (Some c, cm)
     | None \<Rightarrow> (Some (m_client_id cm), snd (get_client_create g d cm)))"
  using assms by (simp add: get_client_def get_client_lookup_def get_client_create_def Let_def split: option.split)

lemma get_client_inv: "cm_inv cm \<Longrightarrow> cm_inv (snd (get_client g d cm))"
proof (cases "d < 0")
  case False
  then show "cm_inv cm \<Longrightarrow> cm_inv (snd (get_client g d cm))"
    using get_client_create_inv [of cm d g] by (simp add: get_client_cases split: option.split)
qed (simp add: get_client_def)

lemma mc_ops_keep_id:
  "mc_connect bk o' c = Inr (c', evs) \<Longrightarrow> mc_client_id c' = mc_client_id c \<and> mc_device_type c' = mc_device_type c"
  "mc_publish bk t p q r cb c = Inr (c', evs) \<Longrightarrow> mc_client_id c' = mc_client_id c \<and> mc_device_type c' = mc_device_type c"
  "mc_subscribe bk t q cb c = Inr (c', evs) \<Longrightarrow> mc_client_id c' = mc_client_id c \<and> mc_device_type c' = mc_device_type c"
  "mc_unsubscribe bk t cb c = Inr (c', evs) \<Longrightarrow> mc_client_id c' = mc_client_id c \<and> mc_device_type c' = mc_device_type c"
  by (auto simp: mc_connect_def mc_publish_def mc_subscribe_def mc_unsubscribe_def res_simps split: if_splits)

subsection \<open>Properties\<close>



text \<open>
  \<open>get_client\<close> looks up and creates under two separate locks: when two threads ask for the
  same new device type and both look before either creates, two clients are made, the first
  is dropped from the map while its caller keeps using it, and the count exceeds the number
  of clients in the map.
\<close>

lemma get_client_race:
  "let cm = new_MqttClientManager 1883 ''tcp'' ''h'' :: nat clientmanager in
   get_client_lookup 5 cm = None \<and>
   (case get_client_create False 5 cm of (c1, cm1) \<Rightarrow>
    case get_client_create False 5 cm1 of (c2, cm2) \<Rightarrow>
      c1 \<noteq> c2 \<and> m_clients cm2 5 = Some c2 \<and> m_client_num cm2 = 2 \<and> card (dom (m_clients cm2)) = 1)"
  by (simp add: new_MqttClientManager_def get_client_lookup_def get_client_create_def Let_def)

text \<open>
  \<open>delete_client\<close> never deletes: the local copy of the shared pointer makes the use count
  at least two, so for every manager, device type and number of other owners the manager is
  unchanged and nothing is disconnected.
\<close>

lemma delete_client_never_deletes:
  "delete_client bk other_owners device_type cm = Inr (cm, [])"
  by (simp add: delete_client_def split: option.split)

text \<open>
  \<open>set_port\<close> on a connected client leaves a dangling pointer: the library client is deleted
  and not replaced, so the next \<open>connect\<close>, \<open>publish\<close> or \<open>subscribe\<close> uses a deleted object.
\<close>

lemma set_port_dangles:
  assumes "mc_alive c" "mc_connected c"
  shows "\<exists>c' evs. mc_set_port v c = Inr (c', evs) \<and> mc_connect bk o' c' = Inl UseAfterFree
    \<and> mc_publish bk t p q r cb c' = Inl UseAfterFree \<and> mc_subscribe bk t q cb c' = Inl UseAfterFree"
  using assms
  by (simp add: mc_set_port_def CreateMqttClient_def use_client_def mc_connect_def mc_publish_def
      mc_subscribe_def)

definition sample_client :: "nat mqttclient" where
  "sample_client = (new_MqttClient False ''tcp'' 1883 ''h'' ''0'' 5)\<lparr>mc_connected := True, m_isconnected := True\<rparr>"

lemma set_port_dangles_example:
  "\<exists>c' evs. mc_set_port 8883 sample_client = Inr (c', evs)
    \<and> mc_connect \<lparr>bk_connect = True, bk_publish = True, bk_subscribe = True, bk_disconnect = True,
        bk_unsubscribe = True\<rparr> True c' = Inl UseAfterFree"
  using set_port_dangles [of sample_client 8883 "\<lparr>bk_connect = True, bk_publish = True, bk_subscribe = True,
      bk_disconnect = True, bk_unsubscribe = True\<rparr>" True "''t''" "''p''" 1 True None]
  by (auto simp: sample_client_def new_MqttClient_def)

end
