(* ===== verification/OtaResponse.thy ===== *)
theory OtaResponse
  imports Json
begin

text \<open>
  \<open>sherry/ota_http_response_builder.h\<close>, \<open>sherry/ota_http_response_builder.cc\<close>: the HTTP
  responses of the OTA service, one builder class for each command. \<open>dump\<close> is the printing of
  JSON of the library, \<open>version\<close> the text the \<open>float\<close> version prints as. A builder sets the
  status in the JSON value it is given, which throws when that is neither null nor an object.
\<close>

definition CRLF :: string where
  "CRLF = [CHR 0x0D, CHR 0x0A]"

definition status_line :: "string \<Rightarrow> bool \<Rightarrow> string" where
  "status_line version success =
     ''HTTP/'' @ version @ (if success then '' 200 OK'' else '' 400 Bad Request'') @ CRLF"

definition json_head :: "nat \<Rightarrow> string \<Rightarrow> string" where
  "json_head n connection =
     ''Content-Type: application/json'' @ CRLF @ ''Content-Length: '' @ dec n @ CRLF @
     ''Connection: '' @ connection @ CRLF @ CRLF"

text \<open>The common text of the three builders that are spelled alike.\<close>

definition json_response :: "(json \<Rightarrow> string) \<Rightarrow> string \<Rightarrow> bool \<Rightarrow> json \<Rightarrow> string res" where
  "json_response dump version success j =
     bindR (j_set ''status'' (JStr (if success then ''ok'' else ''error'')) j) (\<lambda>j.
       let body = dump j in
       Inr (status_line version success @ json_head (length body) ''close'' @ body))"

definition OTANotifyRes :: "(json \<Rightarrow> string) \<Rightarrow> string \<Rightarrow> bool \<Rightarrow> json \<Rightarrow> string res" where
  "OTANotifyRes dump version success j = json_response dump version success j"

definition OTAStopNotifyRes :: "(json \<Rightarrow> string) \<Rightarrow> string \<Rightarrow> bool \<Rightarrow> json \<Rightarrow> string res" where
  "OTAStopNotifyRes dump version success j = json_response dump version success j"

definition OTAQueryRes :: "(json \<Rightarrow> string) \<Rightarrow> string \<Rightarrow> bool \<Rightarrow> json \<Rightarrow> string res" where
  "OTAQueryRes dump version success j = json_response dump version success j"

definition OTAQueryDownloadRes :: "(json \<Rightarrow> string) \<Rightarrow> string \<Rightarrow> bool \<Rightarrow> json \<Rightarrow> string res" where
  "OTAQueryDownloadRes dump version success j =
     bindR (j_set ''status'' (JStr (if success then ''ok'' else ''error'')) j) (\<lambda>j.
       let body = dump j;
           conn = (success \<and> \<not> j_eq_str (j_get ''download_status'' j) ''down'')
       in Inr (status_line version success @
               json_head (length body) (if conn then ''keep-alive'' else ''close'') @ body))"

definition is_obj_or_null :: "json \<Rightarrow> bool" where
  "is_obj_or_null j = (case j of JNull \<Rightarrow> True | JObj _ \<Rightarrow> True | _ \<Rightarrow> False)"

definition OTAFileDownloadRes :: "(json \<Rightarrow> string) \<Rightarrow> string \<Rightarrow> bool \<Rightarrow> json \<Rightarrow> string res" where
  "OTAFileDownloadRes dump version success j =
     bindR (if \<not> success then j_set ''status'' (JStr ''error'') j else Inr j) (\<lambda>j.
       if \<not> is_obj_or_null j then Inl TypeError
       else Inr (status_line version success @
             ''Content-Type: application/octet-stream'' @ CRLF @
             ''Content-Length: '' @ dump (j_get ''file_size'' j) @ CRLF @
             ''Content-Disposition: attachment; filename=your_file_name.jpg'' @ CRLF @
             ''Connection: close'' @ CRLF @ CRLF))"

definition HttpOptionsRes :: "string \<Rightarrow> bool \<Rightarrow> json \<Rightarrow> string res" where
  "HttpOptionsRes version success j =
     bindR (j_set ''status'' (JStr (if success then ''ok'' else ''error'')) j) (\<lambda>j.
       let body = ''OK'' in
       Inr (status_line version success @
            ''Access-Control-Allow-Origin: *'' @ CRLF @
            ''Access-Control-Allow-Methods: GET, POST, OPTIONS'' @ CRLF @
            ''Access-Control-Allow-Headers: Content-Type'' @ CRLF @
            ''Content-Type: text/plain'' @ CRLF @
            ''Content-Length: '' @ dec (length body) @ CRLF @
            ''Connection: close'' @ CRLF @ CRLF @ body))"

text \<open>\<open>OTAHttpResBuilder\<close>: the map of the builders and the lookup in it.\<close>

definition build_http_response ::
  "(json \<Rightarrow> string) \<Rightarrow> string \<Rightarrow> string \<Rightarrow> bool \<Rightarrow> json \<Rightarrow> string res" where
  "build_http_response dump version type success j =
     (if type = ''notify'' then OTANotifyRes dump version success j
      else if type = ''query'' then OTAQueryRes dump version success j
      else if type = ''stop_notify'' then OTAStopNotifyRes dump version success j
      else if type = ''query_download'' then OTAQueryDownloadRes dump version success j
      else if type = ''file_download'' then OTAFileDownloadRes dump version success j
      else if type = ''OPTIONS'' then HttpOptionsRes version success j
      else Inr '''')"

subsection \<open>Responses as a client reads them\<close>

text \<open>The header and the body of a response: the body starts after the first empty line.\<close>

fun split_response :: "string \<Rightarrow> string \<times> string" where
  "split_response [] = ([], [])"
| "split_response (c # cs) =
     (if take 4 (c # cs) = CRLF @ CRLF then ([], drop 4 (c # cs))
      else (case split_response cs of (h, b) \<Rightarrow> (c # h, b)))"

definition no_CR :: "string \<Rightarrow> bool" where
  "no_CR s \<longleftrightarrow> CHR 0x0D \<notin> set s"

lemma no_CR_simps [simp]:
  "no_CR []" "no_CR (c # s) \<longleftrightarrow> c \<noteq> CHR 0x0D \<and> no_CR s" "no_CR (s @ t) \<longleftrightarrow> no_CR s \<and> no_CR t"
  by (auto simp: no_CR_def)

lemma no_CR_dec [simp]: "no_CR (dec n)"
  using dec_digits [of n] by (auto simp: no_CR_def list_all_iff is_digit_def)

text \<open>The value of a header field: the text between its name and the next line end.\<close>

fun field :: "string \<Rightarrow> string \<Rightarrow> string option" where
  "field name [] = None"
| "field name (c # cs) =
     (if has_prefix (CRLF @ name @ '': '') (c # cs)
      then Some (takeWhile (\<lambda>c. c \<noteq> CHR 0x0D) (drop (length (CRLF @ name @ '': '')) (c # cs)))
      else field name cs)"

text \<open>A header as lines: the status line and the fields, each without a line end.\<close>

definition lines_of :: "string \<Rightarrow> string list \<Rightarrow> string" where
  "lines_of l ls = l @ concat (map (\<lambda>l. CRLF @ l) ls)"

lemma split_no_CR:
  "no_CR s \<Longrightarrow> split_response (s @ t) = (case split_response t of (h, b) \<Rightarrow> (s @ h, b))"
  by (induction s) (simp_all add: CRLF_def split: prod.split)

lemma split_line_end:
  "no_CR l \<Longrightarrow> l \<noteq> [] \<Longrightarrow>
     split_response (CRLF @ l @ t) = (case split_response t of (h, b) \<Rightarrow> (CRLF @ l @ h, b))"
  using split_no_CR [of l t] by (cases l) (simp_all add: CRLF_def split: prod.split)

lemma split_lines:
  assumes "no_CR l" "list_all (\<lambda>l. no_CR l \<and> l \<noteq> []) ls"
  shows "split_response (lines_of l ls @ CRLF @ CRLF @ body) = (lines_of l ls, body)"
proof -
  have "split_response (concat (map (\<lambda>l. CRLF @ l) ls) @ CRLF @ CRLF @ body)
      = (concat (map (\<lambda>l. CRLF @ l) ls), body)"
    using assms(2)
  proof (induction ls)
    case Nil
    show ?case by (simp add: CRLF_def)
  next
    case (Cons k ls)
    then show ?case using split_line_end [of k "concat (map (\<lambda>l. CRLF @ l) ls) @ CRLF @ CRLF @ body"]
      by simp
  qed
  then show ?thesis using split_no_CR [OF assms(1)] by (simp add: lines_of_def)
qed

lemma field_no_CR: "no_CR s \<Longrightarrow> field name (s @ t) = field name t"
  by (induction s) (auto simp: CRLF_def)

lemma prefix_before_CR:
  assumes "no_CR p" "t = [] \<or> hd t = CHR 0x0D"
  shows "has_prefix p (l @ t) \<longleftrightarrow> has_prefix p l"
  using assms
proof (induction p arbitrary: l)
  case (Cons a p)
  show ?case
  proof (cases l)
    case Nil
    then show ?thesis using Cons.prems by (cases t) auto
  qed (use Cons in simp)
qed simp

lemma field_line:
  assumes "no_CR l" "t = [] \<or> hd t = CHR 0x0D" "no_CR name"
  shows "field name (CRLF @ l @ t) =
    (if has_prefix (name @ '': '') l then Some (drop (length name + 2) l) else field name t)"
proof -
  have pre: "has_prefix (name @ '': '') (l @ t) \<longleftrightarrow> has_prefix (name @ '': '') l"
    using assms by (intro prefix_before_CR) auto
  have val: "takeWhile (\<lambda>c. c \<noteq> CHR 0x0D) (drop (length name + 2) (l @ t)) = drop (length name + 2) l"
    if hit: "has_prefix (name @ '': '') l"
  proof -
    obtain v where l: "l = (name @ '': '') @ v" using hit by (auto simp: has_prefix_iff)
    then have "no_CR v" using assms(1) by simp
    then have "takeWhile (\<lambda>c. c \<noteq> CHR 0x0D) (v @ t) = v"
      using assms(2) by (cases t) (auto simp: no_CR_def takeWhile_append)
    then show ?thesis by (simp add: l)
  qed
  have "field name (CRLF @ l @ t) =
     (if has_prefix (name @ '': '') (l @ t)
      then Some (takeWhile (\<lambda>c. c \<noteq> CHR 0x0D) (drop (length name + 2) (l @ t)))
      else field name (l @ t))"
    by (simp add: CRLF_def)
  then show ?thesis using pre val field_no_CR [OF assms(1)] by auto
qed

lemma field_lines:
  assumes "no_CR l" "list_all no_CR ls" "no_CR name"
  shows "field name (lines_of l ls) =
    map_option (drop (length name + 2)) (find (has_prefix (name @ '': '')) ls)"
proof -
  have "field name (concat (map (\<lambda>l. CRLF @ l) ls)) =
      map_option (drop (length name + 2)) (find (has_prefix (name @ '': '')) ls)"
    using assms(2)
  proof (induction ls)
    case (Cons k ls)
    have "concat (map (\<lambda>l. CRLF @ l) ls) = [] \<or> hd (concat (map (\<lambda>l. CRLF @ l) ls)) = CHR 0x0D"
      by (cases ls) (simp_all add: CRLF_def)
    then show ?case using field_line [of k "concat (map (\<lambda>l. CRLF @ l) ls)" name] Cons assms(3) by simp
  qed simp
  then show ?thesis using field_no_CR [OF assms(1)] by (simp add: lines_of_def)
qed

text \<open>The commands whose responses carry their body with them.\<close>

definition body_types :: "string list" where
  "body_types = [''notify'', ''query'', ''stop_notify'', ''query_download'', ''OPTIONS'']"

abbreviation first_line :: "string \<Rightarrow> bool \<Rightarrow> string" where
  "first_line version success \<equiv>
     ''HTTP/'' @ version @ (if success then '' 200 OK'' else '' 400 Bad Request'')"

lemma json_head_lines:
  "status_line version success @ json_head n c @ body =
     lines_of (first_line version success)
       [''Content-Type: application/json'', ''Content-Length: '' @ dec n, ''Connection: '' @ c] @ CRLF @ CRLF @ body"
  by (simp add: status_line_def json_head_def lines_of_def)

definition framed :: "string \<Rightarrow> bool \<Rightarrow> string \<Rightarrow> string \<Rightarrow> bool" where
  "framed version success body r \<longleftrightarrow>
     (\<exists>ls. r = lines_of (first_line version success) ls @ CRLF @ CRLF @ body
        \<and> list_all (\<lambda>l. no_CR l \<and> l \<noteq> []) ls
        \<and> find (has_prefix ''Content-Length: '') ls = Some (''Content-Length: '' @ dec (length body)))"

lemma framed_json:
  "no_CR c \<Longrightarrow> framed version success body (status_line version success @ json_head (length body) c @ body)"
  unfolding framed_def json_head_lines
  by (rule exI [of _ "[''Content-Type: application/json'', ''Content-Length: '' @ dec (length body), ''Connection: '' @ c]"])
    simp

lemma json_response_framed:
  "json_response dump version success j = Inr r \<Longrightarrow>
     \<exists>j'. j_set ''status'' (JStr (if success then ''ok'' else ''error'')) j = Inr j' \<and> framed version success (dump j') r"
  by (auto simp: json_response_def res_simps Let_def intro!: framed_json)

lemma query_download_framed:
  "OTAQueryDownloadRes dump version success j = Inr r \<Longrightarrow>
     \<exists>j'. j_set ''status'' (JStr (if success then ''ok'' else ''error'')) j = Inr j' \<and> framed version success (dump j') r"
proof -
  assume "OTAQueryDownloadRes dump version success j = Inr r"
  then obtain j' where j': "j_set ''status'' (JStr (if success then ''ok'' else ''error'')) j = Inr j'"
    and r: "r = status_line version success @ json_head (length (dump j'))
      (if success \<and> \<not> j_eq_str (j_get ''download_status'' j') ''down'' then ''keep-alive'' else ''close'') @ dump j'"
    unfolding OTAQueryDownloadRes_def bindR_Inr_iff Let_def by blast
  have "framed version success (dump j') r" unfolding r by (rule framed_json) simp
  then show ?thesis using j' by blast
qed

lemma options_framed: "HttpOptionsRes version success j = Inr r \<Longrightarrow> framed version success ''OK'' r"
proof -
  let ?ls = "[''Access-Control-Allow-Origin: *'', ''Access-Control-Allow-Methods: GET, POST, OPTIONS'',
      ''Access-Control-Allow-Headers: Content-Type'', ''Content-Type: text/plain'',
      ''Content-Length: '' @ dec (length ''OK''), ''Connection: close'']"
  assume "HttpOptionsRes version success j = Inr r"
  then have "r = lines_of (first_line version success) ?ls @ CRLF @ CRLF @ ''OK''"
    unfolding HttpOptionsRes_def bindR_Inr_iff Let_def by (auto simp: lines_of_def status_line_def)
  moreover have "list_all (\<lambda>l. no_CR l \<and> l \<noteq> []) ?ls" by simp
  moreover have "find (has_prefix ''Content-Length: '') ?ls = Some (''Content-Length: '' @ dec (length ''OK''))"
    by simp
  ultimately show ?thesis unfolding framed_def by blast
qed

lemma build_framed:
  assumes "type \<in> set body_types" "build_http_response dump version type success j = Inr r"
  shows "\<exists>body. framed version success body r
    \<and> (type \<noteq> ''OPTIONS'' \<longrightarrow> (\<exists>j'. j_set ''status'' (JStr (if success then ''ok'' else ''error'')) j = Inr j'
        \<and> body = dump j'))"
proof -
  consider "type = ''notify'' \<or> type = ''query'' \<or> type = ''stop_notify''"
    | "type = ''query_download''" | "type = ''OPTIONS''"
    using assms(1) unfolding body_types_def list.set insert_iff empty_iff by argo
  then show ?thesis
  proof cases
    case 1
    then have "json_response dump version success j = Inr r"
      using assms(2)
      by (auto simp: build_http_response_def OTANotifyRes_def OTAQueryRes_def OTAStopNotifyRes_def)
    from json_response_framed [OF this] show ?thesis by blast
  next
    case 2
    then have "OTAQueryDownloadRes dump version success j = Inr r"
      using assms(2) by (simp add: build_http_response_def)
    from query_download_framed [OF this] show ?thesis by blast
  next
    case 3
    then have "HttpOptionsRes version success j = Inr r"
      using assms(2) by (simp add: build_http_response_def)
    from options_framed [OF this] show ?thesis using 3 by blast
  qed
qed

subsection \<open>Properties\<close>

text \<open>
  C29. Framing of the responses: whatever JSON is put into it and whatever its printed text
  contains, the response to a notify, query, stop-notify, download-query or OPTIONS command
  splits at the first empty line into a header and the body, the header field
  \<open>Content-Length\<close> is the decimal length of exactly this body, and except for OPTIONS the body is
  the printed JSON with its status set to \<open>ok\<close> or \<open>error\<close>.
\<close>

theorem response_framing:
  assumes "type \<in> set body_types" "no_CR version"
    and "build_http_response dump version type success j = Inr r"
  shows "\<exists>h b. split_response r = (h, b) \<and> field ''Content-Length'' h = Some (dec (length b))
    \<and> has_prefix (''HTTP/'' @ version @ (if success then '' 200 OK'' else '' 400 Bad Request'')) h
    \<and> (type \<noteq> ''OPTIONS'' \<longrightarrow> (\<exists>j'. j_get ''status'' j' = JStr (if success then ''ok'' else ''error'')
         \<and> (\<forall>k. k \<noteq> ''status'' \<longrightarrow> j_get k j' = j_get k j) \<and> b = dump j'))"
proof -
  obtain body ls where
    r: "r = lines_of (first_line version success) ls @ CRLF @ CRLF @ body"
    and ls: "list_all (\<lambda>l. no_CR l \<and> l \<noteq> []) ls"
    and f: "find (has_prefix ''Content-Length: '') ls = Some (''Content-Length: '' @ dec (length body))"
    and j: "type \<noteq> ''OPTIONS'' \<longrightarrow> (\<exists>j'. j_set ''status'' (JStr (if success then ''ok'' else ''error'')) j = Inr j'
        \<and> body = dump j')"
    using build_framed [OF assms(1,3)] unfolding framed_def by blast
  have l: "no_CR (first_line version success)" using assms(2) by simp
  have ls': "list_all no_CR ls" using ls by (simp add: list_all_iff)
  have "split_response r = (lines_of (first_line version success) ls, body)"
    unfolding r by (rule split_lines [OF l ls])
  moreover have "field ''Content-Length'' (lines_of (first_line version success) ls) = Some (dec (length body))"
    using field_lines [OF l ls', of "''Content-Length''"] f by simp
  moreover have "has_prefix (first_line version success) (lines_of (first_line version success) ls)"
    unfolding lines_of_def by (rule has_prefix_append)
  moreover have "\<exists>j'. j_get ''status'' j' = JStr (if success then ''ok'' else ''error'')
         \<and> (\<forall>k. k \<noteq> ''status'' \<longrightarrow> j_get k j' = j_get k j) \<and> body = dump j'" if "type \<noteq> ''OPTIONS''"
    using j that j_get_set j_get_set_other by blast
  ultimately show ?thesis by blast
qed

theorem response_framing_witness:
  "\<exists>h b. split_response (''HTTP/1.1 200 OK'' @ CRLF @ ''Content-Type: application/json'' @ CRLF @
       ''Content-Length: 2'' @ CRLF @ ''Connection: close'' @ CRLF @ CRLF @ ''{}'') = (h, b)
    \<and> field ''Content-Length'' h = Some ''2''"
proof -
  have d: "dec (Suc (Suc 0)) = ''2''" by code_simp
  have b: "build_http_response (\<lambda>_. ''{}'') ''1.1'' ''notify'' True JNull = Inr (''HTTP/1.1 200 OK'' @ CRLF @
      ''Content-Type: application/json'' @ CRLF @
       ''Content-Length: 2'' @ CRLF @ ''Connection: close'' @ CRLF @ CRLF @ ''{}'')"
    by (simp add: build_http_response_def OTANotifyRes_def json_response_def j_set_def status_line_def
        json_head_def d)
  obtain h bd where "split_response (''HTTP/1.1 200 OK'' @ CRLF @ ''Content-Type: application/json'' @ CRLF @
       ''Content-Length: 2'' @ CRLF @ ''Connection: close'' @ CRLF @ CRLF @ ''{}'') = (h, bd)"
    "field ''Content-Length'' h = Some (dec (length bd))" "bd = ''{}''"
    using response_framing [OF _ _ b] by (auto simp: body_types_def)
  then show ?thesis using d by auto
qed

text \<open>
  The failure response to a file download has no usable length: the JSON of the failure
  has no \<open>file_size\<close>, so the field \<open>Content-Length\<close> carries the printed null value.
\<close>

lemma file_download_failure_length:
  assumes "no_CR version" "no_CR (dump JNull)"
    and "build_http_response dump version ''file_download'' False (JObj [(''msg'', m)]) = Inr r"
  shows "field ''Content-Length'' (fst (split_response r)) = Some (dump JNull)"
proof -
  let ?l = "''HTTP/'' @ version @ '' 400 Bad Request''"
  let ?ls = "[''Content-Type: application/octet-stream'', ''Content-Length: '' @ dump JNull,
      ''Content-Disposition: attachment; filename=your_file_name.jpg'', ''Connection: close'']"
  have r: "r = lines_of ?l ?ls @ CRLF @ CRLF @ []"
    using assms(3)
    by (simp add: build_http_response_def OTAFileDownloadRes_def j_set_def is_obj_or_null_def
        status_line_def lines_of_def j_get_def)
  have l: "no_CR ?l" "list_all (\<lambda>l. no_CR l \<and> l \<noteq> []) ?ls" "list_all no_CR ?ls"
    using assms(1,2) by simp_all
  show ?thesis
    unfolding r split_lines [OF l(1,2)] fst_conv
    using field_lines [OF l(1,3), of "''Content-Length''"] by (simp add: has_prefix_def)
qed

lemma file_download_failure_length_example:
  "\<exists>r. build_http_response (\<lambda>_. ''null'') ''1.1'' ''file_download'' False (JObj [(''msg'', JStr ''x'')]) = Inr r
    \<and> field ''Content-Length'' (fst (split_response r)) = Some ''null''"
proof -
  obtain r where "build_http_response (\<lambda>_. ''null'') ''1.1'' ''file_download'' False
      (JObj [(''msg'', JStr ''x'')]) = Inr r"
    by (auto simp: build_http_response_def OTAFileDownloadRes_def j_set_def is_obj_or_null_def)
  then show ?thesis using file_download_failure_length [of "''1.1''" "\<lambda>_. ''null''" "JStr ''x''" r] by auto
qed

end
