(* ===== verification/OtaManager.thy ===== *)
theory OtaManager
  imports Timer Mqtt OtaResponse
begin

text \<open>
  \<open>sherry/ota_manager.cc\<close>, \<open>sherry/ota_notifier.cc\<close>, \<open>sherry/ota_query_responder.cc\<close>,
  \<open>sherry/ota_subscribe_download.cc\<close> and \<open>FormatOtaPrex\<close> of \<open>sherry/util.cc\<close>: the OTA manager, which
  keeps the registered devices, notifies them through recurring timers and MQTT, queries them
  and sends files, and the helper objects it owns. One record is the state of the manager and
  of everything it owns; the responses handed to the HTTP server and the calls on the MQTT
  library are logged in it. What lies outside (the broker, the clock, the file system, JSON
  text, the address of a new timer) is the record \<open>env\<close> every operation takes.
\<close>

subsection \<open>Environment and data\<close>

record env =
  e_broker :: broker
  e_garbage :: bool          \<comment> \<open>the uninitialised flag of a new MQTT client\<close>
  e_now_ms :: u64
  e_time :: string           \<comment> \<open>\<open>getCurrentTimeString()\<close>\<close>
  e_new_timer :: nat         \<comment> \<open>the address the next timer gets\<close>
  e_files :: "string \<rightharpoonup> string"
  e_dump :: "json \<Rightarrow> string"
  e_parse :: "string \<Rightarrow> json res"

text \<open>\<open>struct OTAMessage\<close> of \<open>ota_notifier.h\<close>.\<close>

record otamessage =
  msg_name :: string
  msg_version :: string
  msg_time :: string
  msg_file_name :: string
  msg_file_size :: nat
  msg_url_path :: string
  msg_md5_value :: string
  msg_launch_mode :: int
  msg_upgrade_mode :: int

definition empty_message :: otamessage where
  "empty_message = \<lparr>msg_name = '''', msg_version = '''', msg_time = '''', msg_file_name = '''',
     msg_file_size = 0, msg_url_path = '''', msg_md5_value = '''', msg_launch_mode = 0, msg_upgrade_mode = 1\<rparr>"

definition message_to_json :: "(json \<Rightarrow> string) \<Rightarrow> otamessage \<Rightarrow> string" where
  "message_to_json dump m = dump (JObj [(''name'', JStr (msg_name m)), (''version'', JStr (msg_version m)),
     (''file_name'', JStr (msg_file_name m)), (''file_size'', JInt (int (msg_file_size m))),
     (''url_path'', JStr (msg_url_path m)), (''md5_value'', JStr (msg_md5_value m)),
     (''launch_mode'', JInt (msg_launch_mode m)), (''upgrade_mode'', JInt (msg_upgrade_mode m)),
     (''time'', JStr (msg_time m))])"

text \<open>The action callbacks of subscriptions: \<open>subscribe_download\<close> and \<open>subscribe_responder\<close>.\<close>

datatype action_cb = DownloadSubscribed | ResponderSubscribed

type_synonym clients = "action_cb clientmanager"

record queryresponder =
  qr_device_type :: nat
  qr_device_no :: nat
  qr_has_manager :: bool
  qr_client :: "nat option"

record subscribedownload =
  sd_topic :: string
  sd_device_type :: nat
  sd_device_no :: nat
  sd_has_manager :: bool
  sd_client :: "nat option"

text \<open>The message callbacks the manager registers, with the values they capture.\<close>

datatype message_cb =
    QueryCb queryresponder string nat nat string int
  | DownloadCb nat nat string int

record notifier =
  n_device_type :: nat
  n_client :: "nat option"
  n_timer :: "nat option"
  n_topic :: string
  n_msg :: otamessage
  n_interval :: u64

record otamanager =
  om_file_prev_path :: string
  om_buffer_size :: nat
  om_http_server :: bool      \<comment> \<open>\<open>m_http_server\<close> is set\<close>
  om_version :: string
  om_types_counts :: u16
  om_device_counts :: u64
  om_devices :: "nat \<rightharpoonup> nat set"
  om_timers :: "string timermanager"   \<comment> \<open>the callback of a timer is the topic of its notifier\<close>
  om_clients :: clients
  om_callbacks :: "message_cb callbacks"
  om_notifiers :: "string \<rightharpoonup> notifier"
  om_subs :: "nat \<times> nat \<rightharpoonup> subscribedownload"
  om_responses :: "(int \<times> string) list"
  om_events :: "mqtt_event list"

definition new_OTAManager ::
  "u64 \<Rightarrow> nat \<Rightarrow> string \<Rightarrow> string \<Rightarrow> int \<Rightarrow> string \<Rightarrow> string \<Rightarrow> otamanager" where
  "new_OTAManager now buffer_size protocol host port version file_prev_path =
     \<lparr>om_file_prev_path = file_prev_path, om_buffer_size = buffer_size, om_http_server = False,
      om_version = version, om_types_counts = 0, om_device_counts = 0, om_devices = Map.empty,
      om_timers = new_TimerManager now, om_clients = new_MqttClientManager port protocol host,
      om_callbacks = Map.empty, om_notifiers = Map.empty, om_subs = Map.empty,
      om_responses = [], om_events = []\<rparr>"

subsection \<open>Topics\<close>

definition FormatOtaPrex :: "nat \<Rightarrow> nat \<Rightarrow> string" where
  "FormatOtaPrex device_type device_no =
     ''/ota/'' @ dec device_type @ (if device_no \<noteq> 0 then ''/'' @ dec device_no else '''')"

definition notify_topic :: "nat \<Rightarrow> string \<Rightarrow> string \<Rightarrow> string" where
  "notify_topic device_type name version =
     ''/ota/'' @ dec device_type @ ''/'' @ name @ ''/'' @ version @ ''/notify''"

subsection \<open>Responses\<close>

definition response_to_server ::
  "env \<Rightarrow> int \<Rightarrow> bool \<Rightarrow> string \<Rightarrow> json \<Rightarrow> otamanager \<Rightarrow> otamanager res" where
  "response_to_server e fd success type j om =
     bindR (build_http_response (e_dump e) (om_version om) type success j) (\<lambda>ret.
       if om_http_server om then Inr (om\<lparr>om_responses := om_responses om @ [(fd, ret)]\<rparr>)
       else Inl NullDeref)"

definition response_raw :: "int \<Rightarrow> string \<Rightarrow> otamanager \<Rightarrow> otamanager res" where
  "response_raw fd buffer om =
     (if om_http_server om then Inr (om\<lparr>om_responses := om_responses om @ [(fd, buffer)]\<rparr>)
      else Inl NullDeref)"

definition msg_json :: "string \<Rightarrow> json" where
  "msg_json s = JObj [(''msg'', JStr s)]"

subsection \<open>Devices\<close>

definition add_device :: "nat \<Rightarrow> nat \<Rightarrow> otamanager \<Rightarrow> bool \<times> otamanager" where
  "add_device device_type device_no om =
     (case om_devices om device_type of
        None \<Rightarrow> (True, om\<lparr>om_types_counts := om_types_counts om + 1,
                          om_device_counts := om_device_counts om + 1,
                          om_devices := (om_devices om)(device_type \<mapsto> {device_no})\<rparr>)
      | Some nums \<Rightarrow>
          if device_no \<notin> nums
          then (True, om\<lparr>om_device_counts := om_device_counts om + 1,
                         om_devices := (om_devices om)(device_type \<mapsto> insert device_no nums)\<rparr>)
          else (False, om))"

definition remove_device :: "nat \<Rightarrow> nat \<Rightarrow> otamanager \<Rightarrow> bool \<times> otamanager" where
  "remove_device device_type device_no om =
     (case om_devices om device_type of
        None \<Rightarrow> (False, om)
      | Some nums \<Rightarrow>
          if device_no \<notin> nums
          then (False, om\<lparr>om_device_counts := om_device_counts om + 1,
                          om_devices := (om_devices om)(device_type \<mapsto> insert device_no nums)\<rparr>)
          else
            let nums = nums - {device_no};
                om = om\<lparr>om_devices := (om_devices om)(device_type \<mapsto> nums),
                        om_device_counts := om_device_counts om - 1\<rparr>
            in if nums = {}
               then (True, om\<lparr>om_devices := (om_devices om)(device_type := None),
                              om_types_counts := om_types_counts om - 1\<rparr>)
               else (True, om))"

definition check_device :: "nat \<Rightarrow> nat \<Rightarrow> otamanager \<Rightarrow> bool" where
  "check_device device_type device_no om =
     (case om_devices om device_type of None \<Rightarrow> False | Some nums \<Rightarrow> device_no \<in> nums)"

definition check_device_type :: "nat \<Rightarrow> otamanager \<Rightarrow> bool" where
  "check_device_type device_type om \<longleftrightarrow> om_devices om device_type \<noteq> None"

subsection \<open>The notifier\<close>

definition new_OTANotifier :: "env \<Rightarrow> nat \<Rightarrow> string \<Rightarrow> u64 \<Rightarrow> clients \<Rightarrow> notifier \<times> clients" where
  "new_OTANotifier e device_type topic interval cm =
     (case get_client (e_garbage e) (int device_type) cm of (c, cm) \<Rightarrow>
        (\<lparr>n_device_type = device_type, n_client = c, n_timer = None, n_topic = topic,
          n_msg = empty_message, n_interval = interval\<rparr>, cm))"

definition n_set_message :: "otamessage \<Rightarrow> notifier \<Rightarrow> notifier" where
  "n_set_message msg n = n\<lparr>n_msg := msg\<rparr>"

definition n_start ::
  "env \<Rightarrow> notifier \<Rightarrow> string timermanager \<Rightarrow> notifier \<times> string timermanager" where
  "n_start e n tm =
     (n\<lparr>n_timer := Some (e_new_timer e)\<rparr>,
      snd (addTimer (e_new_timer e) (e_now_ms e) (n_interval n) (Some (n_topic n)) True tm))"

definition n_stop :: "notifier \<Rightarrow> string timermanager \<Rightarrow> (notifier \<times> string timermanager) res" where
  "n_stop n tm =
     (case n_timer n of
        None \<Rightarrow> Inr (n, tm)
      | Some t \<Rightarrow> bindR (cancel t tm) (\<lambda>(_, tm). Inr (n\<lparr>n_timer := None\<rparr>, tm)))"

text \<open>\<open>if(!m_client->get_isconnected()) m_client->connect(true)\<close>.\<close>

definition ensure_connected :: "env \<Rightarrow> nat \<Rightarrow> clients \<Rightarrow> (clients \<times> mqtt_event list) res" where
  "ensure_connected e c cm =
     (if m_isconnected (cm_heap cm c) then Inr (cm, [])
      else on_client c (mc_connect (e_broker e) True) cm)"

definition n_publish_once :: "env \<Rightarrow> notifier \<Rightarrow> clients \<Rightarrow> (notifier \<times> clients \<times> mqtt_event list) res" where
  "n_publish_once e n cm =
     (case (case n_client n of
              Some c \<Rightarrow> (Some c, cm)
            | None \<Rightarrow> get_client (e_garbage e) (int (n_device_type n)) cm) of
        (c, cm) \<Rightarrow>
          let n = n\<lparr>n_client := c\<rparr> in
          bindR (case c of None \<Rightarrow> Inr (cm, []) | Some c \<Rightarrow> ensure_connected e c cm) (\<lambda>(cm, evs).
          case c of
            None \<Rightarrow> Inl NullDeref
          | Some c \<Rightarrow>
              bindR (on_client c (mc_publish (e_broker e) (n_topic n)
                       (message_to_json (e_dump e) (n_msg n)) 1 True None) cm) (\<lambda>(cm, evs').
                Inr (n, cm, evs @ evs'))))"

subsection \<open>The query responder\<close>

definition new_OTAQueryResponder :: "env \<Rightarrow> nat \<Rightarrow> nat \<Rightarrow> clients \<Rightarrow> queryresponder \<times> clients" where
  "new_OTAQueryResponder e device_type device_no cm =
     (case get_client (e_garbage e) (int device_type) cm of (c, cm) \<Rightarrow>
        (\<lparr>qr_device_type = device_type, qr_device_no = device_no, qr_has_manager = True, qr_client = c\<rparr>, cm))"

definition format_payload :: "env \<Rightarrow> string \<Rightarrow> string" where
  "format_payload e action = e_dump e (JObj [(''action'', JStr action), (''time'', JStr (e_time e))])"

text \<open>The branch without a client: the result of \<open>get_client\<close> is discarded, \<open>m_client\<close> stays null.\<close>

definition qr_without_client :: "env \<Rightarrow> queryresponder \<Rightarrow> clients \<Rightarrow> clients \<times> mqtt_event list" where
  "qr_without_client e q cm =
     (if \<not> qr_has_manager q then (cm, [])
      else (snd (get_client (e_garbage e) (int (qr_device_type q)) cm), []))"

definition publish_query ::
  "env \<Rightarrow> string \<Rightarrow> int \<Rightarrow> bool \<Rightarrow> queryresponder \<Rightarrow> clients \<Rightarrow> (clients \<times> mqtt_event list) res" where
  "publish_query e action qos retain q cm =
     (let topic = FormatOtaPrex (qr_device_type q) (qr_device_no q) @ ''/query/'';
          payload = format_payload e action
      in case qr_client q of
           None \<Rightarrow> Inr (qr_without_client e q cm)
         | Some c \<Rightarrow>
             bindR (ensure_connected e c cm) (\<lambda>(cm, evs).
               if \<not> m_isconnected (cm_heap cm c) then Inr (cm, evs)
               else bindR (on_client c (mc_publish (e_broker e) topic payload qos retain None) cm)
                 (\<lambda>(cm, evs'). Inr (cm, evs @ evs'))))"

definition subscribe_responder ::
  "env \<Rightarrow> string \<Rightarrow> string \<Rightarrow> int \<Rightarrow> queryresponder \<Rightarrow> clients \<Rightarrow> (clients \<times> mqtt_event list) res" where
  "subscribe_responder e pub_topic sub_topic qos q cm =
     (case qr_client q of
        None \<Rightarrow> Inr (qr_without_client e q cm)
      | Some c \<Rightarrow>
          bindR (ensure_connected e c cm) (\<lambda>(cm, evs).
            if \<not> m_isconnected (cm_heap cm c) then Inr (cm, evs)
            else bindR (on_client c (mc_subscribe (e_broker e) sub_topic qos (Some ResponderSubscribed)) cm)
              (\<lambda>(cm, evs'). Inr (cm, evs @ evs'))))"

definition subscribe_on_success ::
  "env \<Rightarrow> string \<Rightarrow> string \<Rightarrow> queryresponder \<Rightarrow> clients \<Rightarrow> (clients \<times> mqtt_event list) res" where
  "subscribe_on_success e pub_topic sub_topic q cm =
     (case qr_client q of
        None \<Rightarrow> Inr (qr_without_client e q cm)
      | Some c \<Rightarrow>
          bindR (if \<not> m_isconnected (cm_heap cm c)
                 then on_client c (mc_connect (e_broker e) True) cm
                 else on_client c (mc_unsubscribe (e_broker e) sub_topic None) cm) (\<lambda>(cm, evs).
            if \<not> m_isconnected (cm_heap cm c) then Inr (cm, evs)
            else bindR (on_client c (mc_publish (e_broker e) pub_topic '''' 1 False None) cm)
              (\<lambda>(cm, evs'). Inr (cm, evs @ evs'))))"

subsection \<open>Subscription to download details\<close>

definition new_OTASubscribeDownload ::
  "env \<Rightarrow> string \<Rightarrow> nat \<Rightarrow> nat \<Rightarrow> clients \<Rightarrow> subscribedownload \<times> clients" where
  "new_OTASubscribeDownload e topic device_type device_no cm =
     (case get_client (e_garbage e) (int device_type) cm of (c, cm) \<Rightarrow>
        (\<lparr>sd_topic = topic, sd_device_type = device_type, sd_device_no = device_no,
          sd_has_manager = True, sd_client = c\<rparr>, cm))"

definition subscribe_download ::
  "env \<Rightarrow> string \<Rightarrow> int \<Rightarrow> subscribedownload \<Rightarrow> clients
     \<Rightarrow> (subscribedownload \<times> clients \<times> mqtt_event list) res" where
  "subscribe_download e topic qos s cm =
     (let use = (\<lambda>s c cm.
            bindR (ensure_connected e c cm) (\<lambda>(cm, evs).
              if \<not> m_isconnected (cm_heap cm c) then Inr (s, cm, evs)
              else bindR (on_client c (mc_subscribe (e_broker e) topic qos (Some DownloadSubscribed)) cm)
                (\<lambda>(cm, evs'). Inr (s, cm, evs @ evs'))))
      in case sd_client s of
           Some c \<Rightarrow> use s c cm
         | None \<Rightarrow>
             if \<not> sd_has_manager s then Inr (s, cm, [])
             else case get_client (e_garbage e) (int (sd_device_type s)) cm of
               (None, cm) \<Rightarrow> Inl NullDeref
             | (Some c, cm) \<Rightarrow> use (s\<lparr>sd_client := Some c\<rparr>) c cm)"

end
