(* ===== verification/OtaCommands.thy ===== *)
theory OtaCommands
  imports OtaManager
begin

text \<open>
  The commands of \<open>OTAManager\<close> (\<open>sherry/ota_manager.cc\<close>): \<open>ota_notify\<close>, \<open>ota_stop_notify\<close>, \<open>ota_query\<close>,
  \<open>ota_query_download\<close>, \<open>ota_file_download\<close> and \<open>submit\<close>, the message callbacks they register, and
  the timer tick that runs a notifier.
\<close>

subsection \<open>Commands\<close>

definition with_events ::
  "(clients \<times> mqtt_event list) res \<Rightarrow> otamanager \<Rightarrow> otamanager res" where
  "with_events r om = bindR r (\<lambda>(cm, evs).
     Inr (om\<lparr>om_clients := cm, om_events := om_events om @ evs\<rparr>))"

definition get_notify_message :: "env \<Rightarrow> nat \<Rightarrow> string \<Rightarrow> string \<Rightarrow> bool \<times> otamessage" where
  "get_notify_message e device_type name version =
     (True, \<lparr>msg_name = name, msg_version = version, msg_time = e_time e,
             msg_file_name = ''agsspds_20241110.zip'', msg_file_size = 6773120,
             msg_url_path = ''http://127.0.0.1:18882/download/ota/agsspds'',
             msg_md5_value = ''ed076287532e86365e841e92bfc50d8c'',
             msg_launch_mode = 0, msg_upgrade_mode = 1\<rparr>)"

definition start_notifier :: "env \<Rightarrow> string \<Rightarrow> notifier \<Rightarrow> otamanager \<Rightarrow> otamanager" where
  "start_notifier e topic n om =
     (case n_start e n (om_timers om) of (n, tm) \<Rightarrow>
        om\<lparr>om_notifiers := (om_notifiers om)(topic \<mapsto> n), om_timers := tm\<rparr>)"

definition ota_notify :: "env \<Rightarrow> nat \<Rightarrow> otamessage \<Rightarrow> int \<Rightarrow> otamanager \<Rightarrow> otamanager res" where
  "ota_notify e device_type msg connect_id om =
     (case om_devices om device_type of
        None \<Rightarrow>
          response_to_server e connect_id False ''notify''
            (msg_json (''device type = '' @ dec device_type @ '' has not been registed.'')) om
      | Some nums \<Rightarrow>
          if nums = {} then
            response_to_server e connect_id False ''notify''
              (msg_json (''device type = '' @ dec device_type @ '' device nums = 0.'')) om
          else
            bindR (response_to_server e connect_id True ''notify'' (msg_json ''notify task submitted.'') om)
              (\<lambda>om.
                let topic = notify_topic device_type (msg_name msg) (msg_version msg) in
                case om_notifiers om topic of
                  Some n \<Rightarrow> Inr (start_notifier e topic (n_set_message msg n) om)
                | None \<Rightarrow>
                    (case new_OTANotifier e device_type topic 1000 (om_clients om) of (n, cm) \<Rightarrow>
                       Inr (start_notifier e topic (n_set_message msg n) (om\<lparr>om_clients := cm\<rparr>)))))"

text \<open>
  \<open>ss.clear()\<close> resets the state of the stream, not its text: the reply still begins with the
  topic.
\<close>

definition ota_stop_notify :: "env \<Rightarrow> nat \<Rightarrow> string \<Rightarrow> string \<Rightarrow> int \<Rightarrow> otamanager \<Rightarrow> otamanager res" where
  "ota_stop_notify e device_type name version connect_id om =
     (let topic = notify_topic device_type name version in
      case om_notifiers om topic of
        None \<Rightarrow>
          response_to_server e connect_id False ''stop_notify''
            (msg_json (''device_type = '' @ dec device_type @ '' notifier has not existed.'')) om
      | Some n \<Rightarrow>
          bindR (n_stop n (om_timers om)) (\<lambda>(n, tm).
            response_to_server e connect_id True ''stop_notify''
              (msg_json (topic @ ''device_type = '' @ dec device_type @ '', name = '' @ name @
                 '', version = '' @ version @ '' notifier has been stopped.''))
              (om\<lparr>om_notifiers := (om_notifiers om)(topic \<mapsto> n), om_timers := tm\<rparr>)))"

definition ota_query :: "env \<Rightarrow> nat \<Rightarrow> nat \<Rightarrow> string \<Rightarrow> int \<Rightarrow> otamanager \<Rightarrow> otamanager res" where
  "ota_query e device_type device_no action connect_id om =
     (let pub_topic = FormatOtaPrex device_type device_no @ ''/query'';
          sub_topic = FormatOtaPrex device_type device_no @ ''/responder''
      in case new_OTAQueryResponder e device_type device_no (om_clients om) of (q, cm) \<Rightarrow>
           let om = om\<lparr>om_clients := cm,
                       om_callbacks := regist_callback sub_topic
                         (QueryCb q pub_topic device_type device_no action connect_id) (om_callbacks om)\<rparr>
           in bindR (with_events (publish_query e action 1 True q (om_clients om)) om) (\<lambda>om.
              with_events (subscribe_responder e pub_topic sub_topic 1 q (om_clients om)) om))"

definition ota_query_download :: "env \<Rightarrow> nat \<Rightarrow> nat \<Rightarrow> string \<Rightarrow> int \<Rightarrow> otamanager \<Rightarrow> otamanager res" where
  "ota_query_download e device_type device_no name connect_id om =
     (if \<not> check_device device_type device_no om then
        response_to_server e connect_id False ''query_download''
          (msg_json (''device type = '' @ dec device_type @ '' has not been registed.'')) om
      else
        let topic = ''/ota/'' @ dec device_type @ ''/'' @ dec device_no @ ''/'' @ name @ ''/query_download'';
            om = om\<lparr>om_callbacks := regist_callback topic
                      (DownloadCb device_type device_no name connect_id) (om_callbacks om)\<rparr>;
            run = (\<lambda>s om. bindR (subscribe_download e topic 1 s (om_clients om)) (\<lambda>(s, cm, evs).
                     Inr (om\<lparr>om_subs := (om_subs om)((device_type, device_no) \<mapsto> s),
                             om_clients := cm, om_events := om_events om @ evs\<rparr>)))
        in case om_subs om (device_type, device_no) of
             Some s \<Rightarrow> run s om
           | None \<Rightarrow>
               (case new_OTASubscribeDownload e topic device_type device_no (om_clients om) of (s, cm) \<Rightarrow>
                  run s (om\<lparr>om_clients := cm\<rparr>)))"

text \<open>What successive \<open>read(fd, buffer, n)\<close> calls return until the end of the file.\<close>

function file_chunks :: "nat \<Rightarrow> string \<Rightarrow> string list" where
  "file_chunks n content =
     (if n = 0 \<or> content = [] then [] else take n content # file_chunks n (drop n content))"
  by pat_completeness auto
termination
  by (relation "measure (\<lambda>(n, content). length content)") auto

declare file_chunks.simps [simp del]

fun send_chunks :: "int \<Rightarrow> string list \<Rightarrow> otamanager \<Rightarrow> otamanager res" where
  "send_chunks fd [] om = Inr om"
| "send_chunks fd (b # bs) om = bindR (response_raw fd b om) (send_chunks fd bs)"

definition file_path :: "otamanager \<Rightarrow> nat \<Rightarrow> string \<Rightarrow> string \<Rightarrow> string" where
  "file_path om device_type name version =
     om_file_prev_path om @ ''ota_'' @ dec device_type @ ''_'' @ version @ ''_'' @ name @ ''.jpg''"

text \<open>\<open>send_file\<close>; reading a file that could be opened succeeds.\<close>

definition send_file :: "env \<Rightarrow> nat \<Rightarrow> string \<Rightarrow> string \<Rightarrow> int \<Rightarrow> otamanager \<Rightarrow> (bool \<times> otamanager) res" where
  "send_file e device_type name version connect_id om =
     (case e_files e (file_path om device_type name version) of
        None \<Rightarrow> Inr (False, om)
      | Some content \<Rightarrow>
          bindR (response_to_server e connect_id True ''file_download''
                   (JObj [(''file_size'', JInt (int (length content)))]) om) (\<lambda>om.
          bindR (send_chunks connect_id (file_chunks (om_buffer_size om) content) om) (\<lambda>om.
            Inr (True, om))))"

definition ota_file_download :: "env \<Rightarrow> nat \<Rightarrow> string \<Rightarrow> string \<Rightarrow> int \<Rightarrow> otamanager \<Rightarrow> otamanager res" where
  "ota_file_download e device_type name version connect_id om =
     (if \<not> check_device_type device_type om then
        response_to_server e connect_id False ''file_download''
          (msg_json (''device type = '' @ dec device_type @ '' has not been registed.'')) om
      else bindR (send_file e device_type name version connect_id om) (\<lambda>(_, om). Inr om))"

text \<open>\<open>detail[k]\<close> of a map of strings.\<close>

definition detail_get :: "(string \<rightharpoonup> string) \<Rightarrow> string \<Rightarrow> string" where
  "detail_get detail k = (case detail k of Some v \<Rightarrow> v | None \<Rightarrow> '''')"

definition submit ::
  "env \<Rightarrow> nat \<Rightarrow> nat \<Rightarrow> string \<Rightarrow> int \<Rightarrow> (string \<rightharpoonup> string) \<Rightarrow> otamanager \<Rightarrow> otamanager res" where
  "submit e device_type device_no command client_id detail om =
     (if command = ''OPTIONS'' then response_to_server e client_id True command JNull om
      else if command = ''notify'' then
        (case get_notify_message e device_type (detail_get detail ''name'') (detail_get detail ''version'') of
           (ok, msg) \<Rightarrow>
             if \<not> ok then
               response_to_server e client_id False command
                 (msg_json (''device_type = '' @ dec device_type @ '', command = '' @ command @
                    '', client_id = '' @ dec_int client_id @ '', name = '' @ detail_get detail ''name'' @
                    '', version = '' @ detail_get detail ''version'' @ '' get notify message error'')) om
             else ota_notify e device_type msg client_id om)
      else if command = ''query'' then
        ota_query e device_type device_no (detail_get detail ''action'') client_id om
      else if command = ''stop_notify'' then
        ota_stop_notify e device_type (detail_get detail ''name'') (detail_get detail ''version'') client_id om
      else if command = ''query_download'' then
        ota_query_download e device_type device_no (detail_get detail ''name'') client_id om
      else if command = ''file_download'' then
        ota_file_download e device_type (detail_get detail ''name'') (detail_get detail ''version'') client_id om
      else response_to_server e client_id False command (msg_json ''command is error.'') om)"

subsection \<open>Callbacks\<close>

text \<open>The checks of the two message callbacks on the parsed payload.\<close>

definition query_reply_ok :: "nat \<Rightarrow> nat \<Rightarrow> string \<Rightarrow> json \<Rightarrow> bool" where
  "query_reply_ok device_type device_no action j =
     (if \<not> j_contains ''query_details'' j \<or> \<not> j_contains ''device_type'' j \<or> \<not> j_contains ''device_no'' j
      then False
      else if \<not> j_contains ''action'' (j_get ''query_details'' j)
           \<or> \<not> j_eq_str (j_get ''action'' (j_get ''query_details'' j)) action
      then False
      else if \<not> j_eq_int (j_get ''device_type'' j) (int device_type) then False
      else if \<not> j_eq_int (j_get ''device_no'' j) (int device_no) then False
      else True)"

definition download_reply_ok :: "nat \<Rightarrow> nat \<Rightarrow> string \<Rightarrow> json \<Rightarrow> bool" where
  "download_reply_ok device_type device_no name j =
     (if \<not> j_contains ''name'' j \<or> \<not> j_contains ''device_type'' j \<or> \<not> j_contains ''device_no'' j
      then False
      else if \<not> j_eq_str (j_get ''name'' j) name then False
      else if \<not> j_eq_int (j_get ''device_type'' j) (int device_type) then False
      else if \<not> j_eq_int (j_get ''device_no'' j) (int device_no) then False
      else True)"

text \<open>The lambdas registered by \<open>ota_query\<close> and \<open>ota_query_download\<close>; exceptions are caught.\<close>

definition run_message_cb :: "env \<Rightarrow> message_cb \<Rightarrow> string \<Rightarrow> string \<Rightarrow> otamanager \<Rightarrow> otamanager res" where
  "run_message_cb e cb topic payload om =
     (case cb of
        QueryCb q pub_topic device_type device_no action connect_id \<Rightarrow>
          bindR (with_events (subscribe_on_success e pub_topic topic q (om_clients om)) om) (\<lambda>om.
            case e_parse e payload of
              Inl _ \<Rightarrow> Inr om
            | Inr j \<Rightarrow>
                if query_reply_ok device_type device_no action j
                then response_to_server e connect_id True ''query'' j om else Inr om)
      | DownloadCb device_type device_no name connect_id \<Rightarrow>
          (case e_parse e payload of
             Inl _ \<Rightarrow> Inr om
           | Inr j \<Rightarrow>
               if download_reply_ok device_type device_no name j
               then response_to_server e connect_id True ''query_download'' j om else Inr om))"

text \<open>An MQTT message arrives.\<close>

definition ota_message_arrived :: "env \<Rightarrow> string \<Rightarrow> string \<Rightarrow> otamanager \<Rightarrow> otamanager res" where
  "ota_message_arrived e topic payload om =
     (case on_message topic payload (om_callbacks om) of
        None \<Rightarrow> Inr om
      | Some (cb, t, p) \<Rightarrow> run_message_cb e cb t p om)"

text \<open>
  The action callbacks of \<open>subscribe_download\<close> and \<open>subscribe_responder\<close>, run by the listener of
  client \<open>c\<close>: the first subscribes again after a failure, the second only logs.
\<close>

definition run_action_cb ::
  "env \<Rightarrow> action_cb \<Rightarrow> nat \<Rightarrow> string \<Rightarrow> int \<Rightarrow> clients \<Rightarrow> (clients \<times> mqtt_event list) res" where
  "run_action_cb e cb c topic code cm =
     (case cb of
        DownloadSubscribed \<Rightarrow>
          if code = -1 then on_client c (mc_subscribe (e_broker e) topic 1 None) cm else Inr (cm, [])
      | ResponderSubscribed \<Rightarrow> Inr (cm, []))"

text \<open>The callback of a notifier's timer.\<close>

definition notifier_tick :: "env \<Rightarrow> string \<Rightarrow> otamanager \<Rightarrow> otamanager res" where
  "notifier_tick e topic om =
     (case om_notifiers om topic of
        None \<Rightarrow> Inr om
      | Some n \<Rightarrow> bindR (n_publish_once e n (om_clients om)) (\<lambda>(n, cm, evs).
          Inr (om\<lparr>om_notifiers := (om_notifiers om)(topic \<mapsto> n), om_clients := cm,
                  om_events := om_events om @ evs\<rparr>)))"

subsection \<open>The registry\<close>

text \<open>The registered devices as one set of pairs, and the counters in agreement with it.\<close>

definition registered :: "otamanager \<Rightarrow> (nat \<times> nat) set" where
  "registered om = {(t, n). check_device t n om}"

definition reg_inv :: "otamanager \<Rightarrow> bool" where
  "reg_inv om \<longleftrightarrow> finite (registered om) \<and> (\<forall>t nums. om_devices om t = Some nums \<longrightarrow> nums \<noteq> {}) \<and>
     om_device_counts om = of_nat (card (registered om)) \<and>
     om_types_counts om = of_nat (card (fst ` registered om))"

lemma registered_upd:
  "registered (om\<lparr>om_devices := (om_devices om)(t \<mapsto> S)\<rparr>)
     = {p \<in> registered om. fst p \<noteq> t} \<union> {t} \<times> S"
  by (auto simp: registered_def check_device_def split: option.splits if_splits)

lemma registered_del:
  "registered (om\<lparr>om_devices := (om_devices om)(t := None)\<rparr>) = {p \<in> registered om. fst p \<noteq> t}"
  by (auto simp: registered_def check_device_def split: option.splits if_splits)

lemma registered_cong: "om_devices om = om_devices om' \<Longrightarrow> registered om = registered om'"
  by (simp add: registered_def check_device_def)

lemma registered_nums: "om_devices om t = Some nums \<Longrightarrow> registered om = {p \<in> registered om. fst p \<noteq> t} \<union> {t} \<times> nums"
  by (auto simp: registered_def check_device_def)

lemma type_registered:
  "reg_inv om \<Longrightarrow> t \<in> fst ` registered om \<longleftrightarrow> om_devices om t \<noteq> None"
  by (force simp: reg_inv_def registered_def check_device_def image_iff split: option.splits)

lemma add_device_registered:
  "registered (snd (add_device t n om)) = insert (t, n) (registered om)"
  "fst (add_device t n om) \<longleftrightarrow> (t, n) \<notin> registered om"
  by (auto simp: add_device_def registered_def check_device_def split: option.splits if_splits)

lemma add_device_inv:
  assumes "reg_inv om"
  shows "reg_inv (snd (add_device t n om))"
proof (cases "(t, n) \<in> registered om")
  case True
  then have "snd (add_device t n om) = om"
    by (auto simp: add_device_def registered_def check_device_def split: option.splits)
  then show ?thesis using assms by simp
next
  case False
  let ?om = "snd (add_device t n om)"
  have reg: "registered ?om = insert (t, n) (registered om)" by (rule add_device_registered)
  have fin: "finite (registered om)" using assms by (simp add: reg_inv_def)
  have "om_device_counts ?om = om_device_counts om + 1"
    using False by (auto simp: add_device_def registered_def check_device_def split: option.splits)
  then have dc: "om_device_counts ?om = of_nat (card (registered ?om))"
    using assms False fin by (simp add: reg reg_inv_def)
  have "om_types_counts ?om = (if om_devices om t = None then om_types_counts om + 1 else om_types_counts om)"
    by (auto simp: add_device_def split: option.splits)
  moreover have "fst ` registered ?om = insert t (fst ` registered om)" by (simp add: reg)
  ultimately have tc: "om_types_counts ?om = of_nat (card (fst ` registered ?om))"
    using assms fin type_registered [OF assms, of t]
    by (cases "om_devices om t = None") (auto simp: reg_inv_def card_insert_if insert_absorb)
  have "\<forall>t' nums. om_devices ?om t' = Some nums \<longrightarrow> nums \<noteq> {}"
    using assms by (auto simp: add_device_def reg_inv_def split: option.splits if_splits)
  then show ?thesis using dc tc fin by (simp add: reg_inv_def reg)
qed

lemma remove_device_registered:
  assumes "(t, n) \<in> registered om"
  shows "fst (remove_device t n om)" "registered (snd (remove_device t n om)) = registered om - {(t, n)}"
  using assms
  by (auto simp: remove_device_def registered_def check_device_def Let_def split: option.splits if_splits)
    blast

lemma remove_device_inv:
  assumes "reg_inv om" "(t, n) \<in> registered om"
  shows "reg_inv (snd (remove_device t n om))"
proof -
  let ?om = "snd (remove_device t n om)"
  obtain nums where nums: "om_devices om t = Some nums" "n \<in> nums"
    using assms(2) by (auto simp: registered_def check_device_def split: option.splits)
  have reg: "registered ?om = registered om - {(t, n)}" by (rule remove_device_registered [OF assms(2)])
  have fin: "finite (registered om)" using assms by (simp add: reg_inv_def)
  have pos: "0 < card (registered om)" using fin assms(2) by (auto simp: card_gt_0_iff)
  have "om_device_counts ?om = om_device_counts om - 1"
    using nums by (auto simp: remove_device_def Let_def)
  then have dc: "om_device_counts ?om = of_nat (card (registered ?om))"
    using assms fin pos by (simp add: reg reg_inv_def card_Diff_singleton of_nat_diff Suc_leI)
  have types: "fst ` registered ?om = (if nums - {n} = {} then fst ` registered om - {t} else fst ` registered om)"
  proof -
    let ?rest = "{p \<in> registered om. fst p \<noteq> t}"
    have all: "registered om = ?rest \<union> {t} \<times> nums" by (rule registered_nums [OF nums(1)])
    have "registered om - {(t, n)} = ?rest \<union> {t} \<times> (nums - {n})" using all by auto
    moreover have "fst ` ?rest = fst ` registered om - {t}" by force
    moreover have "t \<in> fst ` registered om" using assms(2) by force
    ultimately show ?thesis unfolding reg by (auto simp: image_Un)
  qed
  have "om_types_counts ?om = (if nums - {n} = {} then om_types_counts om - 1 else om_types_counts om)"
    using nums by (auto simp: remove_device_def Let_def)
  moreover have "t \<in> fst ` registered om" using assms(2) by (force simp: image_iff)
  moreover have "0 < card (fst ` registered om)" using fin calculation(2) by (auto simp: card_gt_0_iff)
  ultimately have tc: "om_types_counts ?om = of_nat (card (fst ` registered ?om))"
    using assms(1) fin unfolding types
    by (auto simp: reg_inv_def card_Diff_singleton of_nat_diff Suc_leI)
  have "\<forall>t' S. om_devices ?om t' = Some S \<longrightarrow> S \<noteq> {}"
    using assms(1) nums by (auto simp: remove_device_def reg_inv_def Let_def split: if_splits)
  then show ?thesis using dc tc fin by (simp add: reg_inv_def reg)
qed

subsection \<open>Notifiers and their timers\<close>

lemma build_ok: "type \<in> set body_types \<Longrightarrow> is_obj_or_null j \<Longrightarrow>
    \<exists>r. build_http_response dump version type success j = Inr r"
  unfolding body_types_def
  by (cases j) (auto simp: build_http_response_def OTANotifyRes_def OTAQueryRes_def OTAStopNotifyRes_def
      OTAQueryDownloadRes_def HttpOptionsRes_def json_response_def j_set_def Let_def is_obj_or_null_def)

lemma response_ok:
  assumes "type = ''notify'' \<or> type = ''stop_notify'' \<or> type = ''query'' \<or> type = ''query_download''"
    and "is_obj_or_null j" "om_http_server om"
  shows "\<exists>r. response_to_server e fd success type j om = Inr (om\<lparr>om_responses := om_responses om @ [(fd, r)]\<rparr>)
    \<and> build_http_response (e_dump e) (om_version om) type success j = Inr r"
proof -
  have "type \<in> set body_types" using assms(1) unfolding body_types_def list.set insert_iff by argo
  then obtain r where "build_http_response (e_dump e) (om_version om) type success j = Inr r"
    using build_ok assms(2) by blast
  then show ?thesis using assms(3) by (simp add: response_to_server_def)
qed

lemma msg_json_obj [simp]: "is_obj_or_null (msg_json s)"
  by (simp add: msg_json_def is_obj_or_null_def)

text \<open>A notify command for a registered type: one reply, one new recurring timer for the topic.\<close>

lemma ota_notify_run:
  assumes reg: "om_devices om t = Some nums" "nums \<noteq> {}" and srv: "om_http_server om"
    and topic: "topic = notify_topic t (msg_name msg) (msg_version msg)"
    and int: "\<forall>n. om_notifiers om topic = Some n \<longrightarrow> n_topic n = topic \<and> n_interval n = 1000"
  shows "\<exists>om' n'. ota_notify e t msg fd om = Inr om'
    \<and> om_timers om' = snd (addTimer (e_new_timer e) (e_now_ms e) 1000 (Some topic) True (om_timers om))
    \<and> om_notifiers om' = (om_notifiers om)(topic \<mapsto> n') \<and> n_timer n' = Some (e_new_timer e)
    \<and> n_topic n' = topic \<and> n_interval n' = 1000 \<and> n_msg n' = msg
    \<and> om_devices om' = om_devices om \<and> om_http_server om'
    \<and> (\<exists>r. om_responses om' = om_responses om @ [(fd, r)])"
proof -
  obtain r where r: "response_to_server e fd True ''notify'' (msg_json ''notify task submitted.'') om
      = Inr (om\<lparr>om_responses := om_responses om @ [(fd, r)]\<rparr>)"
    using response_ok [of "''notify''" _ om] srv msg_json_obj by blast
  show ?thesis
  proof (cases "om_notifiers om topic")
    case None
    obtain n cm where n: "new_OTANotifier e t topic 1000 (om_clients om) = (n, cm)" by (meson surj_pair)
    have f: "n_topic n = topic" "n_interval n = 1000"
      using n by (auto simp: new_OTANotifier_def split: prod.splits)
    show ?thesis
      using None reg r n f srv topic
      by (intro exI [of _ "start_notifier e topic (n_set_message msg n)
            (om\<lparr>om_responses := om_responses om @ [(fd, r)], om_clients := cm\<rparr>)"]
          exI [of _ "n\<lparr>n_msg := msg, n_timer := Some (e_new_timer e)\<rparr>"])
        (simp add: ota_notify_def start_notifier_def n_start_def n_set_message_def Let_def)
  next
    case (Some n)
    then show ?thesis
      using reg r srv topic int
      by (intro exI [of _ "start_notifier e topic (n_set_message msg n)
            (om\<lparr>om_responses := om_responses om @ [(fd, r)]\<rparr>)"]
          exI [of _ "n\<lparr>n_msg := msg, n_timer := Some (e_new_timer e)\<rparr>"])
        (simp add: ota_notify_def start_notifier_def n_start_def n_set_message_def Let_def)
  qed
qed

lemma addTimer_fields:
  assumes "timer_inv tm" "t \<notin> set (m_timers tm)"
  shows "set (m_timers (snd (addTimer t now ms cb r tm))) = insert t (set (m_timers tm))"
    "t_heap (snd (addTimer t now ms cb r tm)) = (t_heap tm)(t := new_Timer now ms cb r)"
  using addTimer_lock_inv(2,3) [of "tm\<lparr>t_heap := (t_heap tm)(t := new_Timer now ms cb r)\<rparr>" t] assms
  by (auto simp: addTimer_def timer_inv_def)

lemma ota_stop_notify_run:
  assumes n: "om_notifiers om (notify_topic t name version) = Some n" "n_timer n = Some a"
    and srv: "om_http_server om" and inv: "timer_inv (om_timers om)"
    and cb: "m_cb (t_heap (om_timers om) a) \<noteq> None"
  shows "\<exists>om'. ota_stop_notify e t name version fd om = Inr om'
    \<and> set (m_timers (om_timers om')) = set (m_timers (om_timers om)) - {a}
    \<and> (\<forall>b. b \<noteq> a \<longrightarrow> t_heap (om_timers om') b = t_heap (om_timers om) b)
    \<and> om_notifiers om' = (om_notifiers om)(notify_topic t name version \<mapsto> n\<lparr>n_timer := None\<rparr>)
    \<and> (\<exists>r. om_responses om' = om_responses om @ [(fd, r)])"
proof -
  let ?tm = "om_timers om"
  let ?tm' = "?tm\<lparr>t_heap := (t_heap ?tm)(a := (t_heap ?tm a)\<lparr>m_cb := None\<rparr>), m_timers := remove1 a (m_timers ?tm)\<rparr>"
  have stop: "n_stop n ?tm = Inr (n\<lparr>n_timer := None\<rparr>, ?tm')"
    using n(2) cb cancel_cases [OF inv, of a] by (auto simp: n_stop_def)
  let ?om = "om\<lparr>om_notifiers := (om_notifiers om)(notify_topic t name version \<mapsto> n\<lparr>n_timer := None\<rparr>),
      om_timers := ?tm'\<rparr>"
  obtain r where "response_to_server e fd True ''stop_notify''
      (msg_json (notify_topic t name version @ ''device_type = '' @ dec t @ '', name = '' @ name @
                 '', version = '' @ version @ '' notifier has been stopped.'')) ?om
      = Inr (?om\<lparr>om_responses := om_responses ?om @ [(fd, r)]\<rparr>)"
    using response_ok [of "''stop_notify''" "msg_json (notify_topic t name version @ ''device_type = '' @
        dec t @ '', name = '' @ name @ '', version = '' @ version @ '' notifier has been stopped.'')"
        ?om e fd True] srv msg_json_obj by auto
  then show ?thesis
    using n(1) stop remove_sorted(2) [OF inv, of a] by (simp add: ota_stop_notify_def Let_def)
qed

subsection \<open>Registries as sets\<close>

text \<open>What the commands rely on: a registry is a set of devices with two updates and a test.\<close>

locale device_set =
  fixes inv :: "'s \<Rightarrow> bool" and elems :: "'s \<Rightarrow> ('t \<times> 'n) set"
    and add :: "'t \<Rightarrow> 'n \<Rightarrow> 's \<Rightarrow> bool \<times> 's" and rem :: "'t \<Rightarrow> 'n \<Rightarrow> 's \<Rightarrow> bool \<times> 's"
    and has :: "'t \<Rightarrow> 'n \<Rightarrow> 's \<Rightarrow> bool"
  assumes add_inv: "inv s \<Longrightarrow> inv (snd (add t n s))"
    and add_elems: "elems (snd (add t n s)) = insert (t, n) (elems s)"
    and add_new: "fst (add t n s) \<longleftrightarrow> (t, n) \<notin> elems s"
    and rem_inv: "inv s \<Longrightarrow> (t, n) \<in> elems s \<Longrightarrow> inv (snd (rem t n s))"
    and rem_elems: "(t, n) \<in> elems s \<Longrightarrow> elems (snd (rem t n s)) = elems s - {(t, n)}"
    and has_iff: "has t n s \<longleftrightarrow> (t, n) \<in> elems s"
begin

text \<open>A sequence of updates; a removal is guarded by the test.\<close>

fun run_ops :: "(bool \<times> 't \<times> 'n) list \<Rightarrow> 's \<Rightarrow> 's" where
  "run_ops [] s = s"
| "run_ops ((True, t, n) # ops) s = run_ops ops (snd (add t n s))"
| "run_ops ((False, t, n) # ops) s = run_ops ops (if has t n s then snd (rem t n s) else s)"

lemma run_ops_sound:
  "inv s \<Longrightarrow> inv (run_ops ops s)
    \<and> elems (run_ops ops s) = fold (\<lambda>(b, p) S. if b then insert p S else S - {p}) ops (elems s)"
proof (induction ops s rule: run_ops.induct)
  case (2 t n ops s)
  then show ?case by (simp add: add_inv add_elems)
next
  case (3 t n ops s)
  show ?case
  proof (cases "has t n s")
    case True
    then show ?thesis using 3 rem_inv [of s t n] has_iff [of t n s] by (simp add: rem_elems)
  next
    case False
    then show ?thesis using 3 has_iff [of t n s] by simp
  qed
qed simp

end

lemma check_registered: "check_device t n om \<longleftrightarrow> (t, n) \<in> registered om"
  by (simp add: registered_def)

interpretation devs: device_set reg_inv registered add_device remove_device check_device
  by unfold_locales
    (simp_all add: add_device_inv add_device_registered remove_device_inv remove_device_registered check_registered)

subsection \<open>Properties\<close>

text \<open>The updates a run of the manager makes to its registry.\<close>

fun registry_run :: "(bool \<times> nat \<times> nat) list \<Rightarrow> otamanager \<Rightarrow> otamanager" where
  "registry_run [] om = om"
| "registry_run ((True, t, n) # ops) om = registry_run ops (snd (add_device t n om))"
| "registry_run ((False, t, n) # ops) om =
     registry_run ops (if check_device t n om then snd (remove_device t n om) else om)"

lemma registry_run_ops: "registry_run ops om = devs.run_ops ops om"
  by (induction ops om rule: registry_run.induct) simp_all


lemma reg_inv_new: "reg_inv (new_OTAManager now b p h pt v f)"
  by (simp add: reg_inv_def registered_def check_device_def new_OTAManager_def)

lemma registered_new: "registered (new_OTAManager now b p h pt v f) = {}"
  by (simp add: registered_def check_device_def new_OTAManager_def)


text \<open>
  \<open>remove_device\<close> of a number that a known type does not have reports failure but registers
  that number: the branch is a copy of the insertion of \<open>add_device\<close>.
\<close>

lemma remove_device_registers:
  assumes "check_device_type t om" "\<not> check_device t n om"
  shows "\<not> fst (remove_device t n om) \<and> check_device t n (snd (remove_device t n om))
    \<and> registered (snd (remove_device t n om)) = insert (t, n) (registered om)"
  using assms
  by (auto simp: remove_device_def check_device_def check_device_type_def registered_def split: option.splits if_splits)

lemma remove_device_registers_example:
  "let om = snd (add_device 1 7 (new_OTAManager 0 4096 ''tcp'' ''h'' 1883 ''1.1'' ''f'')) in
   \<not> check_device 1 8 om \<and> check_device 1 8 (snd (remove_device 1 8 om))"
  using remove_device_registers [of 1 "snd (add_device 1 7 (new_OTAManager 0 4096 ''tcp'' ''h'' 1883 ''1.1'' ''f''))" 8]
  by (simp add: Let_def check_device_def check_device_type_def add_device_def new_OTAManager_def)

text \<open>The parts of the manager one notify command changes, with its new timer spelled out.\<close>

definition notified :: "env \<Rightarrow> nat \<Rightarrow> otamessage \<Rightarrow> int \<Rightarrow> otamanager \<Rightarrow> otamanager \<Rightarrow> bool" where
  "notified e t msg fd om om' \<longleftrightarrow>
     (\<exists>n. om_notifiers om' (notify_topic t (msg_name msg) (msg_version msg)) = Some n
        \<and> n_timer n = Some (e_new_timer e) \<and> n_topic n = notify_topic t (msg_name msg) (msg_version msg)
        \<and> n_interval n = 1000 \<and> n_msg n = msg)
     \<and> om_devices om' = om_devices om \<and> om_http_server om' \<and> timer_inv (om_timers om')
     \<and> set (m_timers (om_timers om')) = insert (e_new_timer e) (set (m_timers (om_timers om)))
     \<and> t_heap (om_timers om') = (t_heap (om_timers om))(e_new_timer e :=
         new_Timer (e_now_ms e) 1000 (Some (notify_topic t (msg_name msg) (msg_version msg))) True)
     \<and> (\<exists>r. om_responses om' = om_responses om @ [(fd, r)])"

lemma ota_notify_notified:
  assumes reg: "om_devices om t = Some nums" "nums \<noteq> {}" and srv: "om_http_server om"
    and inv: "timer_inv (om_timers om)" "e_new_timer e \<notin> set (m_timers (om_timers om))"
    and int: "\<forall>n. om_notifiers om (notify_topic t (msg_name msg) (msg_version msg)) = Some n
        \<longrightarrow> n_topic n = notify_topic t (msg_name msg) (msg_version msg) \<and> n_interval n = 1000"
  shows "\<exists>om'. ota_notify e t msg fd om = Inr om' \<and> notified e t msg fd om om'"
proof -
  obtain om' n' where run: "ota_notify e t msg fd om = Inr om'"
    and tm: "om_timers om' = snd (addTimer (e_new_timer e) (e_now_ms e) 1000
        (Some (notify_topic t (msg_name msg) (msg_version msg))) True (om_timers om))"
    and rest: "om_notifiers om' = (om_notifiers om)(notify_topic t (msg_name msg) (msg_version msg) \<mapsto> n')"
      "n_timer n' = Some (e_new_timer e)" "n_topic n' = notify_topic t (msg_name msg) (msg_version msg)"
      "n_interval n' = 1000" "n_msg n' = msg" "om_devices om' = om_devices om" "om_http_server om'"
      "\<exists>r. om_responses om' = om_responses om @ [(fd, r)]"
    using ota_notify_run [OF reg srv refl int, of e fd] by blast
  have "timer_inv (om_timers om')" unfolding tm using addTimer_inv [OF inv] by simp
  then have "notified e t msg fd om om'"
    using rest addTimer_fields [OF inv] unfolding notified_def tm by auto
  with run show ?thesis by blast
qed

text \<open>
  C10. A notify command for a registered type starts exactly one recurring timer, due one
  second later, whose callback publishes the notification, and the stop command for the same
  name and version takes exactly that timer out again.
\<close>

theorem notify_then_stop:
  assumes "check_device t n om" "om_http_server om"
    and "timer_inv (om_timers om)" "e_new_timer e \<notin> set (m_timers (om_timers om))"
    and "om_notifiers om (notify_topic t (msg_name msg) (msg_version msg)) = None"
  shows "\<exists>om1 om2. ota_notify e t msg fd om = Inr om1 \<and> notified e t msg fd om om1
    \<and> ota_stop_notify e' t (msg_name msg) (msg_version msg) fd' om1 = Inr om2
    \<and> set (m_timers (om_timers om2)) = set (m_timers (om_timers om))
    \<and> (\<exists>n. om_notifiers om2 (notify_topic t (msg_name msg) (msg_version msg)) = Some n \<and> n_timer n = None)"
proof -
  let ?topic = "notify_topic t (msg_name msg) (msg_version msg)"
  obtain nums where nums: "om_devices om t = Some nums" "nums \<noteq> {}"
    using assms(1) by (auto simp: check_device_def split: option.splits)
  obtain om1 where om1: "ota_notify e t msg fd om = Inr om1" "notified e t msg fd om om1"
    using ota_notify_notified [OF nums assms(2-4), of msg fd] assms(5) by auto
  obtain k where k: "om_notifiers om1 ?topic = Some k" "n_timer k = Some (e_new_timer e)"
    and srv: "om_http_server om1" "timer_inv (om_timers om1)"
    and cb: "m_cb (t_heap (om_timers om1) (e_new_timer e)) \<noteq> None"
    and tms: "set (m_timers (om_timers om1)) = insert (e_new_timer e) (set (m_timers (om_timers om)))"
    using om1(2) by (auto simp: notified_def new_Timer_def)
  obtain om2 where "ota_stop_notify e' t (msg_name msg) (msg_version msg) fd' om1 = Inr om2"
    "set (m_timers (om_timers om2)) = set (m_timers (om_timers om1)) - {e_new_timer e}"
    "om_notifiers om2 = (om_notifiers om1)(?topic \<mapsto> k\<lparr>n_timer := None\<rparr>)"
    using ota_stop_notify_run [OF k srv cb, of e' fd'] by blast
  then show ?thesis using om1 tms assms(4) by auto
qed

definition demo_env :: "nat \<Rightarrow> env" where
  "demo_env a = \<lparr>e_broker = \<lparr>bk_connect = True, bk_publish = True, bk_subscribe = True,
       bk_disconnect = True, bk_unsubscribe = True\<rparr>, e_garbage = False, e_now_ms = 5000, e_time = ''now'',
     e_new_timer = a, e_files = [''/f/ota_1_v2_cam.jpg'' \<mapsto> ''JPEGDATA''], e_dump = (\<lambda>_. ''{}''),
     e_parse = (\<lambda>_. Inl LogicError)\<rparr>"

definition demo_manager :: otamanager where
  "demo_manager = (snd (add_device 1 7 (new_OTAManager 0 3 ''tcp'' ''h'' 1883 ''1.1'' ''/f/'')))\<lparr>om_http_server := True\<rparr>"

lemma demo_manager_simps [simp]:
  "om_devices demo_manager = [1 \<mapsto> {7}]" "om_http_server demo_manager" "timer_inv (om_timers demo_manager)"
  "m_timers (om_timers demo_manager) = []" "om_notifiers demo_manager topic = None"
  "om_file_prev_path demo_manager = ''/f/''" "om_buffer_size demo_manager = 3" "om_responses demo_manager = []"
  by (simp_all add: demo_manager_def add_device_def new_OTAManager_def timer_inv_new)
    (simp add: new_TimerManager_def)

theorem notify_then_stop_witness:
  "\<exists>om1 om2. ota_notify (demo_env 40) 1 empty_message 3 demo_manager = Inr om1
    \<and> set (m_timers (om_timers om1)) = {40}
    \<and> ota_stop_notify (demo_env 41) 1 '''' '''' 4 om1 = Inr om2 \<and> set (m_timers (om_timers om2)) = {}"
  using notify_then_stop [of 1 7 demo_manager "demo_env 40" empty_message 3 "demo_env 41" 4]
  by (auto simp: check_device_def notified_def demo_env_def empty_message_def)

text \<open>
  Two notify commands for the same type, name and version start two timers, but the notifier
  remembers the second one only: after the stop command, whose reply reports success, the first
  timer is still in the timer set, recurring, and still publishes the notification.
\<close>

lemma notify_twice_leaks:
  assumes "check_device t n om" "om_http_server om"
    and "timer_inv (om_timers om)" "e_new_timer e1 \<notin> set (m_timers (om_timers om))"
    and "e_new_timer e2 \<notin> set (m_timers (om_timers om))" "e_new_timer e2 \<noteq> e_new_timer e1"
    and "om_notifiers om (notify_topic t (msg_name msg) (msg_version msg)) = None"
  shows "\<exists>om1 om2 om3. ota_notify e1 t msg fd om = Inr om1 \<and> ota_notify e2 t msg fd' om1 = Inr om2
    \<and> ota_stop_notify e3 t (msg_name msg) (msg_version msg) fd'' om2 = Inr om3
    \<and> e_new_timer e1 \<in> set (m_timers (om_timers om3))
    \<and> m_recurring (t_heap (om_timers om3) (e_new_timer e1))
    \<and> m_cb (t_heap (om_timers om3) (e_new_timer e1)) = Some (notify_topic t (msg_name msg) (msg_version msg))"
proof -
  let ?topic = "notify_topic t (msg_name msg) (msg_version msg)"
  obtain nums where nums: "om_devices om t = Some nums" "nums \<noteq> {}"
    using assms(1) by (auto simp: check_device_def split: option.splits)
  obtain om1 where om1: "ota_notify e1 t msg fd om = Inr om1" "notified e1 t msg fd om om1"
    using ota_notify_notified [OF nums assms(2-4), of msg fd] assms(7) by auto
  then have "om_devices om1 t = Some nums" "om_http_server om1" "timer_inv (om_timers om1)"
    "e_new_timer e2 \<notin> set (m_timers (om_timers om1))"
    using nums assms(5,6) by (auto simp: notified_def)
  moreover have "\<forall>n. om_notifiers om1 ?topic = Some n \<longrightarrow> n_topic n = ?topic \<and> n_interval n = 1000"
    using om1(2) by (auto simp: notified_def)
  ultimately obtain om2 where om2: "ota_notify e2 t msg fd' om1 = Inr om2" "notified e2 t msg fd' om1 om2"
    using ota_notify_notified [of om1 t nums e2 msg fd'] nums(2) by blast
  obtain k where k: "om_notifiers om2 ?topic = Some k" "n_timer k = Some (e_new_timer e2)"
    and srv: "om_http_server om2" "timer_inv (om_timers om2)"
    and cb: "m_cb (t_heap (om_timers om2) (e_new_timer e2)) \<noteq> None"
    and old: "e_new_timer e1 \<in> set (m_timers (om_timers om2))"
      "t_heap (om_timers om2) (e_new_timer e1) = new_Timer (e_now_ms e1) 1000 (Some ?topic) True"
    using om1(2) om2(2) assms(6) by (auto simp: notified_def new_Timer_def)
  obtain om3 where "ota_stop_notify e3 t (msg_name msg) (msg_version msg) fd'' om2 = Inr om3"
    "set (m_timers (om_timers om3)) = set (m_timers (om_timers om2)) - {e_new_timer e2}"
    "\<forall>b. b \<noteq> e_new_timer e2 \<longrightarrow> t_heap (om_timers om3) b = t_heap (om_timers om2) b"
    using ota_stop_notify_run [OF k srv cb, of e3 fd''] by blast
  then show ?thesis using om1(1) om2(1) old assms(6) by (auto simp: new_Timer_def)
qed

lemma notify_twice_leaks_example:
  "\<exists>om1 om2 om3. ota_notify (demo_env 40) 1 empty_message 3 demo_manager = Inr om1
    \<and> ota_notify (demo_env 41) 1 empty_message 3 om1 = Inr om2
    \<and> ota_stop_notify (demo_env 42) 1 '''' '''' 4 om2 = Inr om3 \<and> 40 \<in> set (m_timers (om_timers om3))"
  using notify_twice_leaks [of 1 7 demo_manager "demo_env 40" "demo_env 41" empty_message 3 3 "demo_env 42" 4]
  by (auto simp: check_device_def demo_env_def empty_message_def)

text \<open>The chunks of a file are what it holds, in order, none larger than the buffer.\<close>

lemma file_chunks_correct:
  assumes "0 < n"
  shows "concat (file_chunks n content) = content
    \<and> list_all (\<lambda>b. b \<noteq> [] \<and> length b \<le> n) (file_chunks n content)"
  using assms
proof (induction n content rule: file_chunks.induct)
  case (1 n content)
  then show ?case by (cases "content = []") (simp_all add: file_chunks.simps [of n content] file_chunks.simps [of n "[]"])
qed

lemma send_chunks_run:
  "om_http_server om \<Longrightarrow>
     send_chunks fd bs om = Inr (om\<lparr>om_responses := om_responses om @ map (Pair fd) bs\<rparr>)"
  by (induction bs arbitrary: om) (simp_all add: response_raw_def)

text \<open>The header of a download.\<close>

definition file_header :: "env \<Rightarrow> otamanager \<Rightarrow> string \<Rightarrow> string" where
  "file_header e om content =
     ''HTTP/'' @ om_version om @ '' 200 OK'' @ CRLF @
     ''Content-Type: application/octet-stream'' @ CRLF @
     ''Content-Length: '' @ e_dump e (JInt (int (length content))) @ CRLF @
     ''Content-Disposition: attachment; filename=your_file_name.jpg'' @ CRLF @
     ''Connection: close'' @ CRLF @ CRLF"

lemma file_download_run:
  assumes "check_device_type t om" "om_http_server om" "0 < om_buffer_size om"
    and "e_files e (file_path om t name version) = Some content"
  shows "\<exists>om' header bs. ota_file_download e t name version fd om = Inr om'
    \<and> om_responses om' = om_responses om @ (fd, header) # map (Pair fd) bs
    \<and> concat bs = content \<and> (\<forall>b \<in> set bs. b \<noteq> [] \<and> length b \<le> om_buffer_size om)
    \<and> header = file_header e om content"
proof -
  let ?bs = "file_chunks (om_buffer_size om) content"
  have chunks: "concat ?bs = content" "\<forall>b \<in> set ?bs. b \<noteq> [] \<and> length b \<le> om_buffer_size om"
    using file_chunks_correct [OF assms(3), of content] by (simp_all add: list_all_iff)
  obtain header where h: "build_http_response (e_dump e) (om_version om) ''file_download'' True
      (JObj [(''file_size'', JInt (int (length content)))]) = Inr header"
    and head: "header = file_header e om content"
    by (simp add: build_http_response_def OTAFileDownloadRes_def is_obj_or_null_def status_line_def j_get_def file_header_def)
  let ?om = "om\<lparr>om_responses := om_responses om @ (fd, header) # map (Pair fd) ?bs\<rparr>"
  have "ota_file_download e t name version fd om = Inr ?om"
    using assms h
    by (simp add: ota_file_download_def send_file_def response_to_server_def send_chunks_run)
  then show ?thesis using chunks head by (intro exI [of _ ?om] exI [of _ header] exI [of _ ?bs]) simp
qed

text \<open>
  A file download for a registered type sends on the requesting connection one header whose
  Content-Length is the printed size of the file, and then, when the file is there and the
  buffer is not empty, exactly the bytes of the file, in order, in pieces no larger than the
  buffer.
\<close>

lemma file_download_sends_file:
  assumes "check_device_type t om" "om_http_server om" "0 < om_buffer_size om"
    and "e_files e (file_path om t name version) = Some content"
  shows "\<exists>om' header bs. ota_file_download e t name version fd om = Inr om'
    \<and> om_responses om' = om_responses om @ (fd, header) # map (Pair fd) bs
    \<and> concat bs = content \<and> (\<forall>b \<in> set bs. b \<noteq> [] \<and> length b \<le> om_buffer_size om)
    \<and> header = file_header e om content"
  by (rule file_download_run [OF assms])

lemma file_download_sends_file_example:
  "\<exists>om' header bs. ota_file_download (demo_env 0) 1 ''cam'' ''v2'' 9 demo_manager = Inr om'
     \<and> om_responses om' = (9, header) # map (Pair 9) bs \<and> concat bs = ''JPEGDATA''"
proof -
  have p: "file_path demo_manager 1 ''cam'' ''v2'' = ''/f/ota_1_v2_cam.jpg''"
    by (simp add: file_path_def) code_simp
  then have "e_files (demo_env 0) (file_path demo_manager 1 ''cam'' ''v2'') = Some ''JPEGDATA''"
    by (simp add: demo_env_def)
  from file_download_sends_file [OF _ _ _ this, of 9] show ?thesis
    by (auto simp: check_device_type_def)
qed

text \<open>
  When the file is missing a download request of a registered type gets no answer at all:
  \<open>send_file\<close> returns false and \<open>ota_file_download\<close> ignores it.
\<close>

lemma missing_file_unanswered:
  assumes "check_device_type t om" "e_files e (file_path om t name version) = None"
  shows "ota_file_download e t name version fd om = Inr om"
  using assms by (simp add: ota_file_download_def send_file_def)

subsection \<open>Queries and their replies\<close>

definition broker_up :: "broker \<Rightarrow> bool" where
  "broker_up bk \<longleftrightarrow> bk_connect bk \<and> bk_publish bk \<and> bk_subscribe bk \<and> bk_unsubscribe bk"

text \<open>A client whose flag agrees with the library, as after the first \<open>connect\<close>.\<close>

definition client_ok :: "'cb mqttclient \<Rightarrow> bool" where
  "client_ok c \<longleftrightarrow> mc_alive c \<and> (m_isconnected c \<longleftrightarrow> mc_connected c)"

lemma ensure_connected_up:
  assumes "broker_up (e_broker e)" "client_ok (cm_heap cm c)"
  shows "\<exists>cm' evs. ensure_connected e c cm = Inr (cm', evs) \<and> mc_alive (cm_heap cm' c)
    \<and> mc_connected (cm_heap cm' c) \<and> m_isconnected (cm_heap cm' c)
    \<and> mc_client_id (cm_heap cm' c) = mc_client_id (cm_heap cm c)
    \<and> evs = (if mc_connected (cm_heap cm c) then [] else [EvConnect (mc_client_id (cm_heap cm c)) True])"
  using assms
  by (auto simp: ensure_connected_def on_client_def mc_connect_def use_client_def client_ok_def broker_up_def)

lemma publish_query_up:
  assumes bk: "broker_up (e_broker e)" and c: "qr_client q = Some c" "client_ok (cm_heap cm c)"
  shows "\<exists>cm' evs. publish_query e action qos retain q cm = Inr (cm', evs) \<and> mc_alive (cm_heap cm' c)
    \<and> mc_connected (cm_heap cm' c) \<and> m_isconnected (cm_heap cm' c)
    \<and> mc_client_id (cm_heap cm' c) = mc_client_id (cm_heap cm c)
    \<and> evs = (if mc_connected (cm_heap cm c) then [] else [EvConnect (mc_client_id (cm_heap cm c)) True]) @
        [EvPublish (mc_client_id (cm_heap cm c)) (FormatOtaPrex (qr_device_type q) (qr_device_no q) @ ''/query/'')
           (format_payload e action) (fix_qos qos) retain]"
proof -
  obtain cm' evs where "ensure_connected e c cm = Inr (cm', evs)" "mc_alive (cm_heap cm' c)"
    "mc_connected (cm_heap cm' c)" "m_isconnected (cm_heap cm' c)"
    "mc_client_id (cm_heap cm' c) = mc_client_id (cm_heap cm c)"
    "evs = (if mc_connected (cm_heap cm c) then [] else [EvConnect (mc_client_id (cm_heap cm c)) True])"
    using ensure_connected_up [OF bk c(2)] by blast
  then show ?thesis using c(1) bk
    by (simp add: publish_query_def on_client_def mc_publish_def use_client_def broker_up_def)
qed

lemma subscribe_responder_up:
  assumes bk: "broker_up (e_broker e)" and c: "qr_client q = Some c" "mc_alive (cm_heap cm c)"
    "mc_connected (cm_heap cm c)" "m_isconnected (cm_heap cm c)"
  shows "\<exists>cm'. subscribe_responder e pub sub qos q cm
      = Inr (cm', [EvSubscribe (mc_client_id (cm_heap cm c)) sub (fix_qos qos)])
    \<and> mc_alive (cm_heap cm' c) \<and> mc_connected (cm_heap cm' c) \<and> m_isconnected (cm_heap cm' c)
    \<and> mc_client_id (cm_heap cm' c) = mc_client_id (cm_heap cm c)"
  using assms
  by (simp add: subscribe_responder_def ensure_connected_def on_client_def mc_subscribe_def use_client_def broker_up_def)

lemma subscribe_on_success_up:
  assumes bk: "broker_up (e_broker e)" and c: "qr_client q = Some c" "mc_alive (cm_heap cm c)"
    "mc_connected (cm_heap cm c)" "m_isconnected (cm_heap cm c)"
  shows "\<exists>cm'. subscribe_on_success e pub sub q cm
      = Inr (cm', [EvUnsubscribe (mc_client_id (cm_heap cm c)) sub,
                   EvPublish (mc_client_id (cm_heap cm c)) pub '''' 1 False])"
  using assms
  by (simp add: subscribe_on_success_def on_client_def mc_unsubscribe_def mc_publish_def fix_qos_def
      use_client_def broker_up_def)

lemma query_reply_obj: "query_reply_ok t n action j \<Longrightarrow> is_obj_or_null j"
  by (auto simp: query_reply_ok_def j_contains_def is_obj_or_null_def split: json.splits if_splits)

text \<open>
  What \<open>ota_query\<close> does when the broker is reachable: the callback of the responder topic is
  registered before the query is published and the topic is subscribed.
\<close>

lemma ota_query_up:
  assumes bk: "broker_up (e_broker e)"
    and client: "\<forall>c. fst (get_client (e_garbage e) (int t) (om_clients om)) = Some c \<longrightarrow>
       client_ok (cm_heap (snd (get_client (e_garbage e) (int t) (om_clients om))) c)"
  shows "\<exists>om' q c evs. ota_query e t n action fd om = Inr om' \<and> qr_client q = Some c
    \<and> om_callbacks om' = (om_callbacks om)(FormatOtaPrex t n @ ''/responder'' \<mapsto>
        QueryCb q (FormatOtaPrex t n @ ''/query'') t n action fd)
    \<and> mc_alive (cm_heap (om_clients om') c) \<and> mc_connected (cm_heap (om_clients om') c)
    \<and> m_isconnected (cm_heap (om_clients om') c)
    \<and> om_responses om' = om_responses om \<and> om_http_server om' = om_http_server om \<and> om_version om' = om_version om
    \<and> om_events om' = om_events om @ evs @
        [EvPublish (mc_client_id (cm_heap (om_clients om') c)) (FormatOtaPrex t n @ ''/query/'')
           (format_payload e action) 1 True,
         EvSubscribe (mc_client_id (cm_heap (om_clients om') c)) (FormatOtaPrex t n @ ''/responder'') 1]"
proof -
  obtain c cm where g: "get_client (e_garbage e) (int t) (om_clients om) = (Some c, cm)"
    by (cases "m_clients (om_clients om) (int t)") (auto simp: get_client_cases)
  define q where "q = \<lparr>qr_device_type = t, qr_device_no = n, qr_has_manager = True, qr_client = Some c\<rparr>"
  have q: "new_OTAQueryResponder e t n (om_clients om) = (q, cm)" "qr_client q = Some c"
    "qr_device_type q = t" "qr_device_no q = n"
    by (simp_all add: new_OTAQueryResponder_def g q_def)
  have ok: "client_ok (cm_heap cm c)" using client g by simp
  obtain cm1 evs where p: "publish_query e action 1 True q cm = Inr (cm1, evs)"
    and up1: "mc_alive (cm_heap cm1 c)" "mc_connected (cm_heap cm1 c)" "m_isconnected (cm_heap cm1 c)"
    and id1: "mc_client_id (cm_heap cm1 c) = mc_client_id (cm_heap cm c)"
    and evs: "evs = (if mc_connected (cm_heap cm c) then [] else [EvConnect (mc_client_id (cm_heap cm c)) True]) @
        [EvPublish (mc_client_id (cm_heap cm c)) (FormatOtaPrex t n @ ''/query/'') (format_payload e action) 1 True]"
    using publish_query_up [OF bk q(2) ok, of action 1 True] q(3,4) by (auto simp: fix_qos_def)
  obtain cm2 where s: "subscribe_responder e (FormatOtaPrex t n @ ''/query'') (FormatOtaPrex t n @ ''/responder'') 1 q cm1
      = Inr (cm2, [EvSubscribe (mc_client_id (cm_heap cm1 c)) (FormatOtaPrex t n @ ''/responder'') 1])"
    and up2: "mc_alive (cm_heap cm2 c)" "mc_connected (cm_heap cm2 c)" "m_isconnected (cm_heap cm2 c)"
    and id2: "mc_client_id (cm_heap cm2 c) = mc_client_id (cm_heap cm1 c)"
    using subscribe_responder_up [OF bk q(2) up1, of "FormatOtaPrex t n @ ''/query''"
        "FormatOtaPrex t n @ ''/responder''" 1] by (auto simp: fix_qos_def)
  let ?cb = "regist_callback (FormatOtaPrex t n @ ''/responder'')
      (QueryCb q (FormatOtaPrex t n @ ''/query'') t n action fd) (om_callbacks om)"
  let ?om = "om\<lparr>om_clients := cm2, om_callbacks := ?cb, om_events := om_events om @ evs @
      [EvSubscribe (mc_client_id (cm_heap cm1 c)) (FormatOtaPrex t n @ ''/responder'') 1]\<rparr>"
  have "ota_query e t n action fd om = Inr ?om"
    using q(1) p s by (simp add: ota_query_def with_events_def Let_def)
  then show ?thesis using q(2) up2 id1 id2 evs
    by (intro exI [of _ ?om] exI [of _ q] exI [of _ c]
          exI [of _ "if mc_connected (cm_heap cm c) then [] else [EvConnect (mc_client_id (cm_heap cm c)) True]"])
      (simp add: regist_callback_def)
qed

text \<open>
  A query reaches its requester: with a reachable broker \<open>ota_query\<close> publishes the query and
  subscribes the responder topic, answering nothing yet, and the first message on that topic
  that carries the queried action, type and number is sent back as one response on the
  connection that asked.
\<close>

lemma query_round_trip:
  assumes "broker_up (e_broker e)" "broker_up (e_broker e')" "om_http_server om"
    and "\<forall>c. fst (get_client (e_garbage e) (int t) (om_clients om)) = Some c \<longrightarrow>
       client_ok (cm_heap (snd (get_client (e_garbage e) (int t) (om_clients om))) c)"
    and "e_parse e' payload = Inr j" "query_reply_ok t n action j"
  shows "\<exists>om1 om2 c evs r. ota_query e t n action fd om = Inr om1 \<and> om_responses om1 = om_responses om
    \<and> om_events om1 = om_events om @ evs @
        [EvPublish c (FormatOtaPrex t n @ ''/query/'') (format_payload e action) 1 True,
         EvSubscribe c (FormatOtaPrex t n @ ''/responder'') 1]
    \<and> ota_message_arrived e' (FormatOtaPrex t n @ ''/responder'') payload om1 = Inr om2
    \<and> om_responses om2 = om_responses om @ [(fd, r)]
    \<and> build_http_response (e_dump e') (om_version om) ''query'' True j = Inr r"
proof -
  let ?sub = "FormatOtaPrex t n @ ''/responder''"
  obtain om1 q c evs where q: "ota_query e t n action fd om = Inr om1" "qr_client q = Some c"
    and cb: "om_callbacks om1 = (om_callbacks om)(?sub \<mapsto> QueryCb q (FormatOtaPrex t n @ ''/query'') t n action fd)"
    and up: "mc_alive (cm_heap (om_clients om1) c)" "mc_connected (cm_heap (om_clients om1) c)"
      "m_isconnected (cm_heap (om_clients om1) c)"
    and same: "om_responses om1 = om_responses om" "om_http_server om1 = om_http_server om" "om_version om1 = om_version om"
    and evs: "om_events om1 = om_events om @ evs @
        [EvPublish (mc_client_id (cm_heap (om_clients om1) c)) (FormatOtaPrex t n @ ''/query/'')
           (format_payload e action) 1 True,
         EvSubscribe (mc_client_id (cm_heap (om_clients om1) c)) ?sub 1]"
    using ota_query_up [OF assms(1,4), of n action fd] by blast
  obtain cm' evs' where s: "subscribe_on_success e' (FormatOtaPrex t n @ ''/query'') ?sub q (om_clients om1) = Inr (cm', evs')"
    using subscribe_on_success_up [OF assms(2) q(2) up] by blast
  let ?om = "om1\<lparr>om_clients := cm', om_events := om_events om1 @ evs'\<rparr>"
  obtain r where r: "response_to_server e' fd True ''query'' j ?om
      = Inr (?om\<lparr>om_responses := om_responses ?om @ [(fd, r)]\<rparr>)"
    "build_http_response (e_dump e') (om_version ?om) ''query'' True j = Inr r"
    using response_ok [of "''query''" j ?om e' fd True] query_reply_obj [OF assms(6)] same(2) assms(3) by auto
  have "ota_message_arrived e' ?sub payload om1 = Inr (?om\<lparr>om_responses := om_responses om @ [(fd, r)]\<rparr>)"
    using cb s r(1) assms(5,6) same(1)
    by (simp add: ota_message_arrived_def on_message_def run_message_cb_def with_events_def)
  then show ?thesis
    using q(1) evs same r(2)
    by (intro exI [of _ om1] exI [of _ "?om\<lparr>om_responses := om_responses om @ [(fd, r)]\<rparr>"]
        exI [of _ "mc_client_id (cm_heap (om_clients om1) c)"] exI [of _ evs] exI [of _ r]) simp
qed

definition demo_reply :: json where
  "demo_reply = JObj [(''query_details'', JObj [(''action'', JStr ''version'')]),
     (''device_type'', JInt 1), (''device_no'', JInt 7)]"

lemma query_round_trip_example:
  "\<exists>om1 om2 r. ota_query (demo_env 0) 1 7 ''version'' 9 demo_manager = Inr om1 \<and> om_responses om1 = []
    \<and> ota_message_arrived ((demo_env 0)\<lparr>e_parse := (\<lambda>_. Inr demo_reply)\<rparr>) (FormatOtaPrex 1 7 @ ''/responder'')
        ''reply'' om1 = Inr om2 \<and> om_responses om2 = [(9, r)]"
proof -
  have "query_reply_ok 1 7 ''version'' demo_reply" by code_simp
  moreover have "broker_up (e_broker (demo_env 0))" by (simp add: broker_up_def demo_env_def)
  moreover have "\<forall>c. fst (get_client (e_garbage (demo_env 0)) (int 1) (om_clients demo_manager)) = Some c \<longrightarrow>
       client_ok (cm_heap (snd (get_client (e_garbage (demo_env 0)) (int 1) (om_clients demo_manager))) c)"
    by (simp add: demo_env_def demo_manager_def add_device_def new_OTAManager_def new_MqttClientManager_def
        get_client_def get_client_lookup_def get_client_create_def Let_def client_ok_def new_MqttClient_def)
  ultimately show ?thesis
    using query_round_trip [of "demo_env 0" "(demo_env 0)\<lparr>e_parse := (\<lambda>_. Inr demo_reply)\<rparr>" demo_manager 1
        "''reply''" demo_reply 7 "''version''" 9] by auto
qed

lemma with_events_keeps:
  "with_events r om = Inr om' \<Longrightarrow> om_devices om' = om_devices om \<and> om_timers om' = om_timers om
     \<and> om_callbacks om' = om_callbacks om \<and> om_responses om' = om_responses om"
  unfolding with_events_def bindR_Inr_iff by (auto split: prod.splits)

lemma response_keeps:
  "response_to_server e fd ok type j om = Inr om' \<Longrightarrow> \<exists>r. om_responses om' = om_responses om @ [(fd, r)]
     \<and> om_devices om' = om_devices om \<and> om_timers om' = om_timers om \<and> om_callbacks om' = om_callbacks om"
  unfolding response_to_server_def bindR_Inr_iff by (auto split: if_splits)

lemma query_reply_names:
  "query_reply_ok t n s j \<Longrightarrow> j_eq_int (j_get ''device_type'' j) (int t) \<and> j_eq_int (j_get ''device_no'' j) (int n)
     \<and> j_get ''action'' (j_get ''query_details'' j) = JStr s"
  by (auto simp: query_reply_ok_def j_eq_str_def split: if_splits)

lemma download_reply_names:
  "download_reply_ok t n s j \<Longrightarrow> j_eq_int (j_get ''device_type'' j) (int t) \<and> j_eq_int (j_get ''device_no'' j) (int n)
     \<and> j_get ''name'' j = JStr s"
  by (auto simp: download_reply_ok_def j_eq_str_def split: if_splits)

text \<open>
  C12. Only matching replies are passed on: an arriving message adds at most one response, and
  only when its topic has a registered callback, its payload parses and names the type, the
  number and the action (or the name) that callback waits for; the response goes to the
  connection of that callback. Registered devices and timers never change.
\<close>

theorem replies_only_when_matching:
  assumes "ota_message_arrived e topic payload om = Inr om'"
  shows "om_devices om' = om_devices om \<and> om_timers om' = om_timers om \<and> om_callbacks om' = om_callbacks om
    \<and> (om_responses om' = om_responses om \<or>
       (\<exists>fd r j t n s. om_responses om' = om_responses om @ [(fd, r)] \<and> e_parse e payload = Inr j
          \<and> j_eq_int (j_get ''device_type'' j) (int t) \<and> j_eq_int (j_get ''device_no'' j) (int n)
          \<and> ((\<exists>q pub. om_callbacks om topic = Some (QueryCb q pub t n s fd)
                \<and> j_get ''action'' (j_get ''query_details'' j) = JStr s)
           \<or> (om_callbacks om topic = Some (DownloadCb t n s fd) \<and> j_get ''name'' j = JStr s))))"
proof (cases "om_callbacks om topic")
  case None
  then show ?thesis using assms by (simp add: ota_message_arrived_def on_message_def)
next
  case (Some cb)
  then have run: "run_message_cb e cb topic payload om = Inr om'"
    using assms by (simp add: ota_message_arrived_def on_message_def)
  show ?thesis
  proof (cases cb)
    case (QueryCb q pub t n s fd)
    then show ?thesis using run Some
      unfolding QueryCb run_message_cb_def message_cb.case bindR_Inr_iff
      by (cases "e_parse e payload") (auto dest!: with_events_keeps response_keeps query_reply_names split: if_splits)
  next
    case (DownloadCb t n s fd)
    then show ?thesis using run Some
      unfolding DownloadCb run_message_cb_def message_cb.case
      by (cases "e_parse e payload") (auto dest!: response_keeps download_reply_names split: if_splits)
  qed
qed

theorem replies_only_when_matching_witness:
  "ota_message_arrived (demo_env 0) ''/ota/1/7/responder'' ''noise'' demo_manager = Inr demo_manager
    \<and> om_responses demo_manager = []"
proof -
  have m: "ota_message_arrived (demo_env 0) ''/ota/1/7/responder'' ''noise'' demo_manager = Inr demo_manager"
    by (simp add: ota_message_arrived_def on_message_def demo_manager_def add_device_def new_OTAManager_def)
  show ?thesis using m replies_only_when_matching [OF m] by simp
qed

text \<open>
  A notifier tick while the broker is unreachable aborts the process: \<open>connect\<close> reports
  nothing, and the publish that follows asserts a connection.
\<close>

lemma tick_aborts_without_broker:
  assumes "om_notifiers om topic = Some n" "n_client n = Some c" "client_ok (cm_heap (om_clients om) c)"
    and "\<not> mc_connected (cm_heap (om_clients om) c)" "\<not> bk_connect (e_broker e)"
  shows "notifier_tick e topic om = Inl AssertFail"
  using assms
  by (simp add: notifier_tick_def n_publish_once_def Let_def ensure_connected_def on_client_def client_ok_def
      mc_connect_def mc_publish_def use_client_def)

definition demo_notifier :: otamanager where
  "demo_notifier = (case new_OTANotifier (demo_env 0) 1 ''/ota/1/a/b/notify'' 1000 (om_clients demo_manager) of
     (n, cm) \<Rightarrow> demo_manager\<lparr>om_notifiers := [''/ota/1/a/b/notify'' \<mapsto> n], om_clients := cm\<rparr>)"

lemma tick_aborts_without_broker_example:
  "notifier_tick ((demo_env 41)\<lparr>e_broker := (e_broker (demo_env 41))\<lparr>bk_connect := False\<rparr>\<rparr>)
     ''/ota/1/a/b/notify'' demo_notifier = Inl AssertFail"
proof -
  let ?n = "fst (new_OTANotifier (demo_env 0) 1 ''/ota/1/a/b/notify'' 1000 (om_clients demo_manager))"
  have "om_notifiers demo_notifier ''/ota/1/a/b/notify'' = Some ?n" "n_client ?n = Some 0"
    "client_ok (cm_heap (om_clients demo_notifier) 0)" "\<not> mc_connected (cm_heap (om_clients demo_notifier) 0)"
    by (simp_all add: demo_notifier_def new_OTANotifier_def demo_env_def demo_manager_def add_device_def
        new_OTAManager_def new_MqttClientManager_def get_client_def get_client_lookup_def get_client_create_def
        Let_def client_ok_def new_MqttClient_def)
  then show ?thesis by (rule tick_aborts_without_broker) simp
qed

end
