(* ===== verification/OtaDispatcher.thy ===== *)
theory OtaDispatcher
  imports OtaCommands
begin

text \<open>
  \<open>sherry/ota_http_command_dispatcher.h\<close>, \<open>sherry/ota_http_command_dispatcher.cc\<close>: from an HTTP
  request to a command of the OTA manager. The six request classes read their arguments from a
  JSON value and call \<open>OTAManager::submit\<close>; the dispatcher checks the URI and picks the class. A
  result \<open>Inr (b, om)\<close> is the returned \<open>bool\<close> with the manager after the call, \<open>Inl\<close> an exception
  that leaves \<open>handle_request\<close>.
\<close>

subsection \<open>Arguments\<close>

text \<open>
  \<open>get_element\<close>: \<open>None\<close> is the result \<open>false\<close>. For the two numeric keys (16 bits for
  \<open>device_type\<close>, 32 for \<open>device_no\<close>) integers and strings are both accepted.
\<close>

definition get_element_num :: "nat \<Rightarrow> string \<Rightarrow> json \<Rightarrow> nat option res" where
  "get_element_num w key j =
     (if \<not> j_contains key j then Inr None
      else case j_get key j of
        JInt i \<Rightarrow> Inr (Some (nat (i mod 2 ^ w)))
      | JStr s \<Rightarrow> bindR (stoul s) (\<lambda>n. Inr (Some (n mod 2 ^ w)))
      | _ \<Rightarrow> Inr None)"

definition get_element_str :: "string \<Rightarrow> json \<Rightarrow> string option res" where
  "get_element_str key j =
     (if \<not> j_contains key j then Inr None
      else case j_get key j of JStr s \<Rightarrow> Inr (Some s) | _ \<Rightarrow> Inl TypeError)"

text \<open>\<open>if(!get_element(...)) return false;\<close> and \<open>submit(...); return true;\<close>.\<close>

definition need :: "'a option res \<Rightarrow> otamanager \<Rightarrow> ('a \<Rightarrow> (bool \<times> otamanager) res) \<Rightarrow> (bool \<times> otamanager) res" where
  "need r om k = bindR r (\<lambda>x. case x of None \<Rightarrow> Inr (False, om) | Some v \<Rightarrow> k v)"

definition submitted :: "otamanager res \<Rightarrow> (bool \<times> otamanager) res" where
  "submitted r = bindR r (\<lambda>om. Inr (True, om))"

text \<open>The device number \<open>-1\<close> as a \<open>uint32_t\<close>, the device type \<open>-1\<close> as a \<open>uint16_t\<close>.\<close>

definition no_device_no :: nat where
  "no_device_no = 2 ^ 32 - 1"

definition no_device_type :: nat where
  "no_device_type = 2 ^ 16 - 1"

subsection \<open>Requests\<close>

definition OTANotifyReq_submit :: "env \<Rightarrow> json \<Rightarrow> int \<Rightarrow> otamanager \<Rightarrow> (bool \<times> otamanager) res" where
  "OTANotifyReq_submit e j connection_id om =
     need (get_element_num 16 ''device_type'' j) om (\<lambda>device_type.
     need (get_element_str ''version'' j) om (\<lambda>version.
     need (get_element_str ''name'' j) om (\<lambda>name.
       submitted (submit e device_type no_device_no ''notify'' connection_id
         [''version'' \<mapsto> version, ''name'' \<mapsto> name] om))))"

definition OTAQueryReq_submit :: "env \<Rightarrow> json \<Rightarrow> int \<Rightarrow> otamanager \<Rightarrow> (bool \<times> otamanager) res" where
  "OTAQueryReq_submit e j connection_id om =
     need (get_element_num 16 ''device_type'' j) om (\<lambda>device_type.
     need (get_element_num 32 ''device_no'' j) om (\<lambda>device_no.
     need (get_element_str ''action'' j) om (\<lambda>action.
       submitted (submit e device_type device_no ''query'' connection_id [''action'' \<mapsto> action] om))))"

definition OTAStopNotifyReq_submit :: "env \<Rightarrow> json \<Rightarrow> int \<Rightarrow> otamanager \<Rightarrow> (bool \<times> otamanager) res" where
  "OTAStopNotifyReq_submit e j connection_id om =
     need (get_element_num 16 ''device_type'' j) om (\<lambda>device_type.
     need (get_element_str ''version'' j) om (\<lambda>version.
     need (get_element_str ''name'' j) om (\<lambda>name.
       submitted (submit e device_type no_device_no ''stop_notify'' connection_id
         [''version'' \<mapsto> version, ''name'' \<mapsto> name] om))))"

definition OTAQueryDownloadReq_submit :: "env \<Rightarrow> json \<Rightarrow> int \<Rightarrow> otamanager \<Rightarrow> (bool \<times> otamanager) res" where
  "OTAQueryDownloadReq_submit e j connection_id om =
     need (get_element_num 16 ''device_type'' j) om (\<lambda>device_type.
     need (get_element_num 32 ''device_no'' j) om (\<lambda>device_no.
     need (get_element_str ''name'' j) om (\<lambda>name.
       submitted (submit e device_type device_no ''query_download'' connection_id [''name'' \<mapsto> name] om))))"

definition OTAFileDownloadReq_submit :: "env \<Rightarrow> json \<Rightarrow> int \<Rightarrow> otamanager \<Rightarrow> (bool \<times> otamanager) res" where
  "OTAFileDownloadReq_submit e j connection_id om =
     need (get_element_num 16 ''device_type'' j) om (\<lambda>device_type.
     need (get_element_str ''version'' j) om (\<lambda>version.
     need (get_element_str ''name'' j) om (\<lambda>name.
       submitted (submit e device_type no_device_no ''file_download'' connection_id
         [''version'' \<mapsto> version, ''name'' \<mapsto> name] om))))"

definition OptionsReq_submit :: "env \<Rightarrow> json \<Rightarrow> int \<Rightarrow> otamanager \<Rightarrow> (bool \<times> otamanager) res" where
  "OptionsReq_submit e j connection_id om =
     submitted (submit e no_device_type no_device_no ''OPTIONS'' connection_id Map.empty om)"

subsection \<open>The dispatcher\<close>

record dispatcher =
  d_http_version :: string
  d_content_type :: string

definition new_OTAHttpCommandDispatcher :: "string \<Rightarrow> string \<Rightarrow> dispatcher" where
  "new_OTAHttpCommandDispatcher http_version content_type =
     \<lparr>d_http_version = http_version, d_content_type = content_type\<rparr>"

text \<open>\<open>m_command_dispatchers\<close>, filled by the constructor and never changed.\<close>

definition m_command_dispatchers ::
  "string \<Rightarrow> (env \<Rightarrow> json \<Rightarrow> int \<Rightarrow> otamanager \<Rightarrow> (bool \<times> otamanager) res) option" where
  "m_command_dispatchers =
     [''notify'' \<mapsto> OTANotifyReq_submit, ''query'' \<mapsto> OTAQueryReq_submit,
      ''stop_notify'' \<mapsto> OTAStopNotifyReq_submit, ''query_download'' \<mapsto> OTAQueryDownloadReq_submit,
      ''file_download'' \<mapsto> OTAFileDownloadReq_submit, ''OPTIONS'' \<mapsto> OptionsReq_submit]"

text \<open>\<open>check_uri\<close> of downloads: \<open>None\<close> is \<open>false\<close>; every exception is caught.\<close>

definition check_uri_get :: "string \<Rightarrow> (nat \<times> string \<times> string \<times> string) option" where
  "check_uri_get uri =
     (if \<not> has_prefix ''/download/ota/'' uri then None
      else
        case getline (CHR ''/'') (istringstream uri) '''' of (tmp, ss) \<Rightarrow>
        case getline (CHR ''/'') ss tmp of (tmp, ss) \<Rightarrow>
        case getline (CHR ''/'') ss tmp of (tmp, ss) \<Rightarrow>
        case getline (CHR ''/'') ss tmp of (tmp, ss) \<Rightarrow>
        case stoul tmp of
          Inl _ \<Rightarrow> None
        | Inr n \<Rightarrow>
            case getline (CHR ''/'') ss '''' of (name, ss) \<Rightarrow>
            case getline (CHR ''/'') ss '''' of (version, ss) \<Rightarrow>
            case read_word ss '''' of (res, ss) \<Rightarrow> Some (n mod 2 ^ 16, name, version, res))"

definition check_uri_post :: "string \<Rightarrow> string option" where
  "check_uri_post uri =
     (if \<not> has_prefix ''/api/ota/'' uri then None
      else
        case getline (CHR ''/'') (istringstream uri) '''' of (tmp, ss) \<Rightarrow>
        case getline (CHR ''/'') ss tmp of (tmp, ss) \<Rightarrow>
        case getline (CHR ''/'') ss tmp of (tmp, ss) \<Rightarrow>
        case read_word ss '''' of (res, ss) \<Rightarrow> Some res)"

definition check_protocol :: "dispatcher \<Rightarrow> string \<Rightarrow> bool" where
  "check_protocol d protocol =
     (if \<not> has_prefix ''HTTP/'' protocol then False
      else if take 3 (drop 5 protocol) \<noteq> d_http_version d then False
      else True)"

text \<open>\<open>request.find("\r\n\r\n")\<close> and the text behind it.\<close>

fun body_of :: "string \<Rightarrow> string option" where
  "body_of [] = None"
| "body_of (c # cs) = (if has_prefix (CRLF @ CRLF) (c # cs) then Some (drop 4 (c # cs)) else body_of cs)"

text \<open>The lookup in the map and the call, and the JSON value of a download URI.\<close>

definition dispatch :: "env \<Rightarrow> string \<Rightarrow> json \<Rightarrow> int \<Rightarrow> otamanager \<Rightarrow> (bool \<times> otamanager) res" where
  "dispatch e res j connect_id om =
     (case m_command_dispatchers res of None \<Rightarrow> Inr (False, om) | Some req \<Rightarrow> req e j connect_id om)"

definition handle_get :: "env \<Rightarrow> string \<Rightarrow> int \<Rightarrow> otamanager \<Rightarrow> (bool \<times> otamanager) res" where
  "handle_get e uri connect_id om =
     (case check_uri_get uri of
        None \<Rightarrow> Inr (False, om)
      | Some (device_type, name, version, res) \<Rightarrow>
          dispatch e res (JObj [(''device_type'', JInt (int device_type)), (''name'', JStr name),
             (''version'', JStr version)]) connect_id om)"

text \<open>\<open>handle_request(std::string&, int)\<close>.\<close>

definition handle_request_raw ::
  "env \<Rightarrow> dispatcher \<Rightarrow> string \<Rightarrow> int \<Rightarrow> otamanager \<Rightarrow> (bool \<times> otamanager) res" where
  "handle_request_raw e d request connect_id om =
     (case read_word (istringstream request) '''' of (cmd, ss) \<Rightarrow>
      case read_word ss '''' of (uri, ss) \<Rightarrow>
      case read_word ss '''' of (protocol, ss) \<Rightarrow>
        if \<not> check_protocol d protocol then Inr (False, om)
        else if cmd = ''POST'' then
          (case check_uri_post uri of
             None \<Rightarrow> Inr (False, om)
           | Some res \<Rightarrow>
               case body_of request of
                 None \<Rightarrow> Inr (False, om)
               | Some body \<Rightarrow> bindR (e_parse e body) (\<lambda>j. dispatch e res j connect_id om))
        else if cmd = ''GET'' then handle_get e uri connect_id om
        else if cmd = ''OPTIONS'' then dispatch e cmd JNull connect_id om
        else Inr (False, om))"

text \<open>\<open>handle_request(const std::string& cmd, int, const std::string uri, const std::string& body)\<close>.\<close>

definition handle_request_parts ::
  "env \<Rightarrow> string \<Rightarrow> int \<Rightarrow> string \<Rightarrow> string \<Rightarrow> otamanager \<Rightarrow> (bool \<times> otamanager) res" where
  "handle_request_parts e cmd connect_id uri body om =
     (if cmd = ''POST'' then
        (case check_uri_post uri of
           None \<Rightarrow> Inr (False, om)
         | Some res \<Rightarrow> bindR (e_parse e body) (\<lambda>j. dispatch e res j connect_id om))
      else if cmd = ''GET'' then handle_get e uri connect_id om
      else if cmd = ''OPTIONS'' then dispatch e cmd JNull connect_id om
      else Inr (False, om))"

text \<open>
  \<open>detail[k]\<close> read as a string from a constant JSON value: a missing key fails the library's
  assertion, a value that is not a string or a \<open>detail\<close> that is not an object throws.
\<close>

definition str_at :: "string \<Rightarrow> json \<Rightarrow> string res" where
  "str_at k j =
     (case j of
        JObj ms \<Rightarrow> (case map_of ms k of None \<Rightarrow> Inl AssertFail | Some (JStr s) \<Rightarrow> Inr s | Some _ \<Rightarrow> Inl TypeError)
      | _ \<Rightarrow> Inl TypeError)"

text \<open>\<open>handle_request(const nlohmann::json&, int)\<close>.\<close>

definition handle_request_json :: "env \<Rightarrow> json \<Rightarrow> int \<Rightarrow> otamanager \<Rightarrow> (bool \<times> otamanager) res" where
  "handle_request_json e detail connect_id om =
     bindR (str_at ''cmd'' detail) (\<lambda>cmd.
       if cmd = ''POST'' then
         bindR (str_at ''uri'' detail) (\<lambda>uri.
           case check_uri_post uri of
             None \<Rightarrow> Inr (False, om)
           | Some res \<Rightarrow>
               bindR (str_at ''body'' detail) (\<lambda>body.
               bindR (e_parse e body) (\<lambda>j. dispatch e res j connect_id om)))
       else if cmd = ''GET'' then bindR (str_at ''uri'' detail) (\<lambda>uri. handle_get e uri connect_id om)
       else if cmd = ''OPTIONS'' then dispatch e cmd JNull connect_id om
       else Inr (False, om))"

subsection \<open>URIs\<close>

lemma dec_no_slash: "CHR ''/'' \<notin> set (dec n)"
  using dec_digits [of n] digit_not_special by (auto simp: list_all_iff)

lemma stoul_dec_only: "n < 2 ^ 64 \<Longrightarrow> stoul (dec n) = Inr n"
  using stoul_dec [of n "[]"] by simp

lemma getline_first:
  "d \<notin> set w \<Longrightarrow> getline d (istringstream (w @ d # r)) old = (w, \<lparr>ss_rest = r, ss_good = True\<rparr>)"
  by (simp add: istringstream_def getline_token)

text \<open>The three segments in front of the arguments.\<close>

lemma getline_prefix:
  assumes "CHR ''/'' \<notin> set a" "CHR ''/'' \<notin> set b" "uri = CHR ''/'' # a @ CHR ''/'' # b @ CHR ''/'' # r"
  shows "getline (CHR ''/'') (istringstream uri) old = ([], \<lparr>ss_rest = a @ CHR ''/'' # b @ CHR ''/'' # r, ss_good = True\<rparr>)"
    "getline (CHR ''/'') \<lparr>ss_rest = a @ CHR ''/'' # b @ CHR ''/'' # r, ss_good = True\<rparr> old
       = (a, \<lparr>ss_rest = b @ CHR ''/'' # r, ss_good = True\<rparr>)"
    "getline (CHR ''/'') \<lparr>ss_rest = b @ CHR ''/'' # r, ss_good = True\<rparr> old = (b, \<lparr>ss_rest = r, ss_good = True\<rparr>)"
  using getline_first [of "CHR ''/''" "[]"] assms by (simp_all add: getline_token)

lemma check_uri_get_run:
  assumes "t < 2 ^ 16" "CHR ''/'' \<notin> set name" "CHR ''/'' \<notin> set version"
    and "cmd \<noteq> []" "list_all (\<lambda>c. \<not> isspace c) cmd"
  shows "check_uri_get (''/download/ota/'' @ dec t @ ''/'' @ name @ ''/'' @ version @ ''/'' @ cmd)
    = Some (t, name, version, cmd)"
proof -
  let ?tail = "dec t @ CHR ''/'' # name @ CHR ''/'' # version @ CHR ''/'' # cmd"
  let ?uri = "''/download/ota/'' @ dec t @ ''/'' @ name @ ''/'' @ version @ ''/'' @ cmd"
  have uri: "?uri = CHR ''/'' # ''download'' @ CHR ''/'' # ''ota'' @ CHR ''/'' # ?tail" by simp
  have "CHR ''/'' \<notin> set ''download''" "CHR ''/'' \<notin> set ''ota''" by simp_all
  note pre = getline_prefix [OF this uri]
  have "getline (CHR ''/'') \<lparr>ss_rest = ?tail, ss_good = True\<rparr> x
      = (dec t, \<lparr>ss_rest = name @ CHR ''/'' # version @ CHR ''/'' # cmd, ss_good = True\<rparr>)" for x
    by (rule getline_token [OF dec_no_slash])
  moreover have "getline (CHR ''/'') \<lparr>ss_rest = name @ CHR ''/'' # version @ CHR ''/'' # cmd, ss_good = True\<rparr> x
      = (name, \<lparr>ss_rest = version @ CHR ''/'' # cmd, ss_good = True\<rparr>)" for x
    by (rule getline_token [OF assms(2)])
  moreover have "getline (CHR ''/'') \<lparr>ss_rest = version @ CHR ''/'' # cmd, ss_good = True\<rparr> x
      = (version, \<lparr>ss_rest = cmd, ss_good = True\<rparr>)" for x
    by (rule getline_token [OF assms(3)])
  moreover have "fst (read_word \<lparr>ss_rest = cmd, ss_good = True\<rparr> '''') = cmd"
    by (rule read_word_all [OF assms(4,5)])
  moreover have "stoul (dec t) = Inr t" using assms(1) by (intro stoul_dec_only) simp
  moreover have "has_prefix ''/download/ota/'' ?uri" by (rule has_prefix_append)
  ultimately show ?thesis
    using assms(1) unfolding check_uri_get_def
    by (simp only: pre case_prod_conv sum.case if_False if_True simp_thms) (simp add: case_prod_unfold)
qed

lemma check_uri_post_run:
  assumes "cmd \<noteq> []" "list_all (\<lambda>c. \<not> isspace c) cmd"
  shows "check_uri_post (''/api/ota/'' @ cmd) = Some cmd"
proof -
  have uri: "''/api/ota/'' @ cmd = CHR ''/'' # ''api'' @ CHR ''/'' # ''ota'' @ CHR ''/'' # cmd" by simp
  have "CHR ''/'' \<notin> set ''api''" "CHR ''/'' \<notin> set ''ota''" by simp_all
  note pre = getline_prefix [OF this uri]
  have "fst (read_word \<lparr>ss_rest = cmd, ss_good = True\<rparr> '''') = cmd" by (rule read_word_all [OF assms])
  moreover have "has_prefix ''/api/ota/'' (''/api/ota/'' @ cmd)" by (rule has_prefix_append)
  ultimately show ?thesis
    unfolding check_uri_post_def
    by (simp only: pre case_prod_conv if_False if_True simp_thms) (simp add: case_prod_unfold)
qed

subsection \<open>What a request can do\<close>

lemma need_cases:
  "need r om k = Inr (b, om') \<longleftrightarrow> (r = Inr None \<and> \<not> b \<and> om' = om) \<or> (\<exists>v. r = Inr (Some v) \<and> k v = Inr (b, om'))"
  by (cases r) (auto simp: need_def split: option.splits)

lemma submitted_iff: "submitted r = Inr (b, om') \<longleftrightarrow> b \<and> r = Inr om'"
  by (cases r) (auto simp: submitted_def)

text \<open>The outcome of a request: refused without a change, or one command submitted.\<close>

definition outcome :: "env \<Rightarrow> int \<Rightarrow> otamanager \<Rightarrow> (bool \<times> otamanager) res \<Rightarrow> bool" where
  "outcome e fd om r \<longleftrightarrow> (\<forall>b om'. r = Inr (b, om') \<longrightarrow>
     (\<not> b \<and> om' = om) \<or> (b \<and> (\<exists>t n cmd detail. cmd \<in> dom m_command_dispatchers
         \<and> t < 2 ^ 16 \<and> n < 2 ^ 32 \<and> submit e t n cmd fd detail om = Inr om')))"

lemma get_element_num_less: "get_element_num w key j = Inr (Some n) \<Longrightarrow> n < 2 ^ w"
proof -
  have "nat (i mod 2 ^ w) < 2 ^ w" for i :: int by (simp add: nat_less_iff)
  then show "get_element_num w key j = Inr (Some n) \<Longrightarrow> n < 2 ^ w"
    by (auto simp: get_element_num_def res_simps split: if_splits json.splits)
qed

lemma need_outcome:
  assumes "\<And>v. r = Inr (Some v) \<Longrightarrow> outcome e fd om (k v)"
  shows "outcome e fd om (need r om k)"
  using assms unfolding outcome_def need_cases by blast

lemma submitted_outcome:
  "cmd \<in> dom m_command_dispatchers \<Longrightarrow> t < 2 ^ 16 \<Longrightarrow> n < 2 ^ 32
     \<Longrightarrow> outcome e fd om (submitted (submit e t n cmd fd detail om))"
  unfolding outcome_def submitted_iff by blast

lemma refused_outcome: "outcome e fd om (Inr (False, om))" "outcome e fd om (Inl err)"
  by (simp_all add: outcome_def)

lemma no_device_less: "no_device_no < 2 ^ 32" "no_device_type < 2 ^ 16"
  by (simp_all add: no_device_no_def no_device_type_def)

lemma known_commands:
  "''notify'' \<in> dom m_command_dispatchers" "''query'' \<in> dom m_command_dispatchers"
  "''stop_notify'' \<in> dom m_command_dispatchers" "''query_download'' \<in> dom m_command_dispatchers"
  "''file_download'' \<in> dom m_command_dispatchers" "''OPTIONS'' \<in> dom m_command_dispatchers"
  by (simp_all add: m_command_dispatchers_def)

lemmas outcome_intros = need_outcome submitted_outcome get_element_num_less no_device_less known_commands

lemma requests_outcome:
  "outcome e fd om (OTANotifyReq_submit e j fd om)"
  "outcome e fd om (OTAQueryReq_submit e j fd om)"
  "outcome e fd om (OTAStopNotifyReq_submit e j fd om)"
  "outcome e fd om (OTAQueryDownloadReq_submit e j fd om)"
  "outcome e fd om (OTAFileDownloadReq_submit e j fd om)"
  "outcome e fd om (OptionsReq_submit e j fd om)"
  unfolding OTANotifyReq_submit_def OTAQueryReq_submit_def OTAStopNotifyReq_submit_def
    OTAQueryDownloadReq_submit_def OTAFileDownloadReq_submit_def OptionsReq_submit_def
  by (intro outcome_intros | assumption)+

lemma dispatch_outcome: "outcome e fd om (dispatch e res j fd om)"
proof (cases "m_command_dispatchers res")
  case None
  then show ?thesis by (simp add: dispatch_def refused_outcome)
next
  case (Some req)
  then have "req \<in> {OTANotifyReq_submit, OTAQueryReq_submit, OTAStopNotifyReq_submit,
      OTAQueryDownloadReq_submit, OTAFileDownloadReq_submit, OptionsReq_submit}"
    unfolding m_command_dispatchers_def fun_upd_apply by (auto split: if_split_asm)
  then show ?thesis using Some requests_outcome by (auto simp: dispatch_def)
qed

lemma handle_get_outcome: "outcome e fd om (handle_get e uri fd om)"
  by (simp add: handle_get_def dispatch_outcome refused_outcome split: option.split prod.split)

lemma bindR_outcome: "(\<And>x. r = Inr x \<Longrightarrow> outcome e fd om (k x)) \<Longrightarrow> outcome e fd om (bindR r k)"
  by (cases r) (simp_all add: refused_outcome)

lemmas handler_outcomes = dispatch_outcome handle_get_outcome bindR_outcome refused_outcome

lemma handlers_outcome:
  "outcome e fd om (handle_request_raw e d request fd om)"
  "outcome e fd om (handle_request_parts e cmd fd uri body om)"
  "outcome e fd om (handle_request_json e detail fd om)"
  unfolding handle_request_raw_def handle_request_parts_def handle_request_json_def
  by (auto simp: handler_outcomes split: prod.split option.split intro!: bindR_outcome)

subsection \<open>The three entry points\<close>

text \<open>A request line, headers and a body as the text of a request.\<close>

definition request_text :: "string \<Rightarrow> string \<Rightarrow> string \<Rightarrow> string list \<Rightarrow> string \<Rightarrow> string" where
  "request_text cmd uri version headers body =
     lines_of (cmd @ '' '' @ uri @ '' HTTP/'' @ version) headers @ CRLF @ CRLF @ body"

text \<open>A line of text without spaces.\<close>

definition word_ok :: "string \<Rightarrow> bool" where
  "word_ok w \<longleftrightarrow> w \<noteq> [] \<and> list_all (\<lambda>c. \<not> isspace c) w"

lemma read_word_step:
  assumes "word_ok w" "isspace c"
  shows "read_word \<lparr>ss_rest = w @ c # r, ss_good = True\<rparr> old = (w, \<lparr>ss_rest = c # r, ss_good = True\<rparr>)"
    "read_word \<lparr>ss_rest = CHR '' '' # w @ c # r, ss_good = True\<rparr> old = (w, \<lparr>ss_rest = c # r, ss_good = True\<rparr>)"
proof -
  have "dropWhile isspace (w @ c # r) = w @ c # r" using assms by (cases w) (auto simp: word_ok_def)
  moreover have "takeWhile (\<lambda>c. \<not> isspace c) (w @ c # r) = w" "dropWhile (\<lambda>c. \<not> isspace c) (w @ c # r) = c # r"
    using assms by (auto simp: word_ok_def list_all_iff takeWhile_append dropWhile_append)
  moreover have "isspace (CHR '' '')" by (simp add: isspace_def)
  ultimately show "read_word \<lparr>ss_rest = w @ c # r, ss_good = True\<rparr> old = (w, \<lparr>ss_rest = c # r, ss_good = True\<rparr>)"
    "read_word \<lparr>ss_rest = CHR '' '' # w @ c # r, ss_good = True\<rparr> old = (w, \<lparr>ss_rest = c # r, ss_good = True\<rparr>)"
    using assms(1) by (simp_all add: read_word_def Let_def word_ok_def)
qed

lemma body_of_no_CR: "no_CR s \<Longrightarrow> body_of (s @ t) = body_of t"
  by (induction s) (auto simp: CRLF_def)

lemma body_of_blank: "body_of (CRLF @ CRLF @ body) = Some body"
  by (simp add: CRLF_def)

lemma body_of_line: "no_CR l \<Longrightarrow> l \<noteq> [] \<Longrightarrow> body_of (CRLF @ l @ t) = body_of t"
proof -
  assume l: "no_CR l" "l \<noteq> []"
  then obtain a s where a: "l = a # s" "a \<noteq> CHR 0x0D" by (cases l) auto
  have "\<not> has_prefix (CRLF @ CRLF) (CHR 0x0D # CHR 0x0A # l @ t)"
    "\<not> has_prefix (CRLF @ CRLF) (CHR 0x0A # l @ t)"
    using a by (simp_all add: CRLF_def)
  then have "body_of (CRLF @ l @ t) = body_of (l @ t)"
    by (simp only: body_of.simps(2) [of "CHR 0x0D"] body_of.simps(2) [of "CHR 0x0A"] CRLF_def append.simps if_False)
  then show ?thesis using body_of_no_CR [OF l(1)] by simp
qed

lemma body_of_lines:
  "list_all (\<lambda>l. no_CR l \<and> l \<noteq> []) ls
     \<Longrightarrow> body_of (concat (map (\<lambda>l. CRLF @ l) ls) @ CRLF @ CRLF @ body) = Some body"
proof (induction ls)
  case (Cons l ls)
  then show ?case
    using body_of_line [of l "concat (map (\<lambda>l. CRLF @ l) ls) @ CRLF @ CRLF @ body"] by simp
qed (simp add: body_of_blank)

lemma word_ok_no_CR: "word_ok w \<Longrightarrow> no_CR w"
proof -
  have "isspace (CHR 0x0D)" by (simp add: isspace_def)
  then show "word_ok w \<Longrightarrow> no_CR w" unfolding word_ok_def no_CR_def list_all_iff by blast
qed

lemma body_of_request:
  assumes "word_ok cmd" "word_ok uri" "word_ok version" "list_all (\<lambda>l. no_CR l \<and> l \<noteq> []) headers"
  shows "body_of (request_text cmd uri version headers body) = Some body"
proof -
  have "no_CR (cmd @ '' '' @ uri @ '' HTTP/'' @ version)" using assms(1-3) by (simp add: word_ok_no_CR)
  from body_of_no_CR [OF this] body_of_lines [OF assms(4)] show ?thesis
    by (simp only: request_text_def lines_of_def append_assoc)
qed

text \<open>The words of the request line.\<close>

lemma request_words:
  assumes "word_ok cmd" "word_ok uri" "word_ok version"
  shows "\<exists>ss1 ss2 ss3. read_word (istringstream (request_text cmd uri version headers body)) '''' = (cmd, ss1)
    \<and> read_word ss1 '''' = (uri, ss2) \<and> read_word ss2 '''' = (''HTTP/'' @ version, ss3)"
proof -
  define rest where "rest = tl (concat (map (\<lambda>l. CRLF @ l) headers) @ CRLF @ CRLF @ body)"
  have rest: "concat (map (\<lambda>l. CRLF @ l) headers) @ CRLF @ CRLF @ body = CHR 0x0D # rest"
    unfolding rest_def by (cases headers) (auto simp: CRLF_def cong: map_cong)
  have req: "request_text cmd uri version headers body =
      cmd @ CHR '' '' # uri @ CHR '' '' # (''HTTP/'' @ version) @ CHR 0x0D # rest"
    unfolding request_text_def lines_of_def rest [symmetric] by simp
  have sp: "isspace (CHR '' '')" "isspace (CHR 0x0D)" by (simp_all add: isspace_def)
  have prot: "word_ok (''HTTP/'' @ version)" using assms(3) by (simp add: word_ok_def isspace_def)
  show ?thesis
    unfolding req istringstream_def
    using read_word_step(1) [OF assms(1) sp(1)] read_word_step(2) [OF assms(2) sp(1)]
      read_word_step(2) [OF prot sp(2)] by blast
qed

lemma check_protocol_ok: "length version = 3 \<Longrightarrow> check_protocol d (''HTTP/'' @ version) \<longleftrightarrow> version = d_http_version d"
  by (simp add: check_protocol_def)

lemma raw_is_parts:
  assumes "word_ok cmd" "word_ok uri" "word_ok version" "length version = 3" "version = d_http_version d"
    and "list_all (\<lambda>l. no_CR l \<and> l \<noteq> []) headers"
  shows "handle_request_raw e d (request_text cmd uri version headers body) fd om
    = handle_request_parts e cmd fd uri body om"
proof -
  obtain ss1 ss2 ss3 where "read_word (istringstream (request_text cmd uri version headers body)) '''' = (cmd, ss1)"
    "read_word ss1 '''' = (uri, ss2)" "read_word ss2 '''' = (''HTTP/'' @ version, ss3)"
    using request_words [OF assms(1-3), of headers body] by blast
  then show ?thesis
    using assms(5) check_protocol_ok [OF assms(4), of d] body_of_request [OF assms(1-3,6), of body]
    unfolding handle_request_raw_def handle_request_parts_def
    by (simp only: case_prod_conv option.case if_False simp_thms)
qed

lemma json_is_parts:
  "handle_request_json e (JObj [(''cmd'', JStr cmd), (''uri'', JStr uri), (''body'', JStr body)]) fd om
    = handle_request_parts e cmd fd uri body om"
proof -
  have "str_at ''cmd'' (JObj [(''cmd'', JStr cmd), (''uri'', JStr uri), (''body'', JStr body)]) = Inr cmd"
    "str_at ''uri'' (JObj [(''cmd'', JStr cmd), (''uri'', JStr uri), (''body'', JStr body)]) = Inr uri"
    "str_at ''body'' (JObj [(''cmd'', JStr cmd), (''uri'', JStr uri), (''body'', JStr body)]) = Inr body"
    by (simp_all add: str_at_def)
  then show ?thesis
    unfolding handle_request_json_def handle_request_parts_def by (simp only: bindR.simps)
qed

subsection \<open>Properties\<close>


text \<open>
  The URI of a download is read back as it was written: type, name, version and command of
  \<open>/download/ota/<type>/<name>/<version>/<command>\<close> are found again for every 16-bit type, every
  name and version without a slash (empty ones too) and every command that is one word.
\<close>

lemma download_uri_roundtrip:
  assumes "t < 2 ^ 16" "CHR ''/'' \<notin> set name" "CHR ''/'' \<notin> set version" "word_ok cmd"
  shows "check_uri_get (''/download/ota/'' @ dec t @ ''/'' @ name @ ''/'' @ version @ ''/'' @ cmd)
    = Some (t, name, version, cmd)"
  using check_uri_get_run [OF assms(1-3)] assms(4) unfolding word_ok_def by blast

lemma download_uri_roundtrip_example:
  "check_uri_get (''/download/ota/'' @ dec 513 @ ''/'' @ ''cam'' @ ''/'' @ '''' @ ''/'' @ ''file_download'')
    = Some (513, ''cam'', '''', ''file_download'')"
  by (rule download_uri_roundtrip) (simp_all add: word_ok_def isspace_def)

text \<open>
  C30. The entry points agree: the text of a well-formed request in the configured protocol
  version, its three parts, and the JSON value with these parts are handled alike, whatever the
  headers are.
\<close>

theorem entry_points_agree:
  assumes "word_ok cmd" "word_ok uri" "word_ok version" "length version = 3" "version = d_http_version d"
    and "list_all (\<lambda>l. no_CR l \<and> l \<noteq> []) headers"
  shows "handle_request_raw e d (request_text cmd uri version headers body) fd om
      = handle_request_parts e cmd fd uri body om
    \<and> handle_request_json e (JObj [(''cmd'', JStr cmd), (''uri'', JStr uri), (''body'', JStr body)]) fd om
      = handle_request_parts e cmd fd uri body om"
  using raw_is_parts [OF assms] json_is_parts by blast

theorem entry_points_agree_witness:
  "map_sum id fst (handle_request_raw (demo_env 0) (new_OTAHttpCommandDispatcher ''1.1'' ''json'')
     (request_text ''PUT'' ''/api/ota/notify'' ''1.1'' [''Host: h''] ''{}'') 4 demo_manager) = Inr False"
proof -
  have "handle_request_raw (demo_env 0) (new_OTAHttpCommandDispatcher ''1.1'' ''json'')
     (request_text ''PUT'' ''/api/ota/notify'' ''1.1'' [''Host: h''] ''{}'') 4 demo_manager
    = handle_request_parts (demo_env 0) ''PUT'' 4 ''/api/ota/notify'' ''{}'' demo_manager"
    by (rule entry_points_agree [THEN conjunct1])
      (simp_all add: word_ok_def isspace_def new_OTAHttpCommandDispatcher_def)
  then show ?thesis by (simp add: handle_request_parts_def)
qed

end
