(* ===== verification/HttpSession.thy ===== *)
theory HttpSession
  imports HttpParser OtaDispatcher "HOL-Library.Sublist"
begin

text \<open>
  \<open>sherry/http/http_session.h\<close>, \<open>sherry/http/http_session.cc\<close>: one connection of the HTTP server. A
  session receives bytes into its read buffer, parses them and hands a complete request to the
  dispatcher; responses are written to its write buffer and sent by a chain of event callbacks
  which a pipe wakes up. The session record holds the callbacks it has registered with the
  server for its socket and for its pipe. An event fires when it is registered and its file
  descriptor is ready; firing takes the registration out, as the server does for events that
  are not persistent.
\<close>

subsection \<open>State\<close>

text \<open>
  The callbacks: the one that receives, the one \<open>regist_event\<close> registers for writing, the one
  \<open>send\<close> registers, and \<open>onPipeReadable\<close>. The pointer to the data is the text it points to,
  \<open>None\<close> for the null pointer.
\<close>

datatype session_cb =
    RecvCb
  | ArmedCb "string option" nat
  | SendCb "string option" nat
  | PipeCb

record session =
  hs_fd :: int
  hs_open :: bool
  m_isClose :: bool
  m_parser :: httpparser
  m_read_buffer :: httpbuffer
  m_write_buffer :: httpbuffer
  m_send_flag :: bool
  m_write_fiber :: bool       \<comment> \<open>a writer is suspended\<close>
  hs_pipe :: nat              \<comment> \<open>unread bytes in the pipe\<close>
  hs_reset :: bool            \<comment> \<open>the context is in \<open>m_reset_fdCtx_queue\<close>\<close>
  hs_waiting :: bool          \<comment> \<open>\<open>onPipeReadable\<close> waits for \<open>m_send_flag\<close>\<close>
  ev_read :: "session_cb option"
  ev_write :: "session_cb option"
  ev_pipe :: "session_cb option"

definition session_buffer_size :: nat where
  "session_buffer_size = 4096"

text \<open>\<open>addEvent\<close> refuses an event that is registered already; the callers ignore its result.\<close>

definition add_read :: "session_cb \<Rightarrow> session \<Rightarrow> session" where
  "add_read cb s = (if ev_read s \<noteq> None then s else s\<lparr>ev_read := Some cb\<rparr>)"

definition add_write :: "session_cb \<Rightarrow> session \<Rightarrow> session" where
  "add_write cb s = (if ev_write s \<noteq> None then s else s\<lparr>ev_write := Some cb\<rparr>)"

definition add_pipe :: "session_cb \<Rightarrow> session \<Rightarrow> session" where
  "add_pipe cb s = (if ev_pipe s \<noteq> None then s else s\<lparr>ev_pipe := Some cb\<rparr>)"

definition new_HttpSession :: "int \<Rightarrow> session" where
  "new_HttpSession fd = add_pipe PipeCb
     \<lparr>hs_fd = fd, hs_open = True, m_isClose = False, m_parser = new_HttpParser session_buffer_size,
      m_read_buffer = new_HttpBuffer session_buffer_size, m_write_buffer = new_HttpBuffer session_buffer_size,
      m_send_flag = True, m_write_fiber = False, hs_pipe = 0, hs_reset = False, hs_waiting = False,
      ev_read = None, ev_write = None, ev_pipe = None\<rparr>"

subsection \<open>Receiving\<close>

definition regist_event_read :: "session \<Rightarrow> session" where
  "regist_event_read s = add_read RecvCb s"

text \<open>
  A round of \<open>process_read\<close> that goes on consumes a line end or ends in the next round, so the
  size of the buffer bounds their number.
\<close>

definition session_fuel :: "session \<Rightarrow> nat" where
  "session_fuel s = length (m_buffer (m_read_buffer s)) + 3"

definition session_update_buffer_size ::
  "env \<Rightarrow> nat \<Rightarrow> session \<Rightarrow> otamanager \<Rightarrow> (session \<times> otamanager) res" where
  "session_update_buffer_size e len s om =
     bindR (process_read (session_fuel s) (hp_update_buffer_size len (m_parser s)) (m_read_buffer s))
       (\<lambda>(status, p, hb).
         let s = s\<lparr>m_parser := p, m_read_buffer := hb\<rparr> in
         if status = GET_REQUEST then
           bindR (handle_request_json e (JObj [(''cmd'', JStr (get_method p)), (''uri'', JStr (get_uri p)),
               (''body'', JStr (get_body p))]) (hs_fd s) om) (\<lambda>(_, om).
             Inr (regist_event_read s, om))
         else Inr (regist_event_read s, om))"

text \<open>
  The callback of a readable socket; \<open>recv n\<close> is what \<open>m_socket->recv(buffer, n)\<close> returns with the
  bytes it stored. The result goes into a \<open>size_t\<close>, so an error becomes a huge length and the
  test \<open>len < 0\<close> never holds.
\<close>

definition recv_cb ::
  "env \<Rightarrow> (nat \<Rightarrow> int \<times> string) \<Rightarrow> session \<Rightarrow> otamanager \<Rightarrow> (session \<times> otamanager) res" where
  "recv_cb e recv s om =
     (let n = get_available_size (m_read_buffer s) in
      case recv n of (r, stored) \<Rightarrow>
        let len = (if r < 0 then nat (2 ^ 64 + r) else nat r);
            buffer = stored @ replicate (n - length stored) NUL
        in
        if len = 0 then
          Inr (if hs_fd s < 0 then s\<lparr>hs_open := False\<rparr>
               else s\<lparr>hs_open := False, m_isClose := True, hs_reset := True\<rparr>, om)
        else
          bindR (hb_write buffer len (m_read_buffer s)) (\<lambda>(ok, hb).
            session_update_buffer_size e len (s\<lparr>m_read_buffer := hb\<rparr>) om))"

subsection \<open>Sending\<close>

text \<open>A suspended writer is scheduled again.\<close>

definition wake_writer :: "session \<Rightarrow> session" where
  "wake_writer s = (if m_write_fiber s then s\<lparr>m_write_fiber := False\<rparr> else s)"

definition regist_event_write :: "session \<Rightarrow> session res" where
  "regist_event_write s =
     (let n = get_data_size (m_write_buffer s) in
      if n = 0 then Inr (add_pipe PipeCb (wake_writer s))
      else bindR (read_by_size n (m_write_buffer s)) (\<lambda>(data, wb).
        let s = wake_writer (s\<lparr>m_write_buffer := wb, m_send_flag := False\<rparr>) in
        Inr (add_write (ArmedCb data n) s)))"

definition session_send :: "string option \<Rightarrow> nat \<Rightarrow> session \<Rightarrow> session" where
  "session_send data n s = (if n = 0 then s else add_write (SendCb data n) s)"

text \<open>The callback \<open>send\<close> registers, for the result \<open>len\<close> of \<open>m_socket->send(p_data, size)\<close>.\<close>

definition send_cb :: "string option \<Rightarrow> nat \<Rightarrow> int \<Rightarrow> session \<Rightarrow> session" where
  "send_cb data n len s =
     (if len = -1 then s
      else if nat len < n then session_send (map_option (drop (nat len)) data) (n - nat len) s
      else add_pipe PipeCb (s\<lparr>m_send_flag := True\<rparr>))"

text \<open>
  \<open>write_buffer\<close>: \<open>None\<close> when the data does not fit and the writer suspends itself; it tries
  again when it is scheduled.
\<close>

definition session_write_buffer :: "string \<Rightarrow> session \<Rightarrow> ((bool \<times> session) option \<times> session) res" where
  "session_write_buffer buffer s =
     (if length buffer = 0 then Inr (Some (False, s), s)
      else bindR (hb_write buffer (length buffer) (m_write_buffer s)) (\<lambda>(ok, wb).
        if \<not> ok then Inr (None, s\<lparr>m_write_fiber := True\<rparr>)
        else
          let s = s\<lparr>m_write_buffer := wb\<rparr>;
              s = (if m_send_flag s then s\<lparr>hs_pipe := hs_pipe s + 1\<rparr> else s)
          in Inr (Some (True, s), s)))"

text \<open>The two parts of \<open>onPipeReadable\<close>: emptying the pipe, and what follows the wait.\<close>

definition onPipeReadable_drain :: "session \<Rightarrow> session" where
  "onPipeReadable_drain s = s\<lparr>hs_pipe := 0, hs_waiting := True\<rparr>"

definition onPipeReadable_go :: "session \<Rightarrow> session res" where
  "onPipeReadable_go s = regist_event_write (s\<lparr>hs_waiting := False\<rparr>)"

subsection \<open>Steps of the sending side\<close>

text \<open>
  A configuration is a session, the bytes the socket has accepted, and the bytes that were
  handed to \<open>write_buffer\<close>.
\<close>

type_synonym sconf = "session \<times> string \<times> string"

inductive send_step :: "sconf \<Rightarrow> sconf \<Rightarrow> bool" where
  Write: "data \<noteq> [] \<Longrightarrow> session_write_buffer data s = Inr (Some (True, s'), s'') \<Longrightarrow>
     send_step (s, out, wrote) (s', out, wrote @ data)"
| Suspend: "session_write_buffer data s = Inr (None, s') \<Longrightarrow> send_step (s, out, wrote) (s', out, wrote)"
| PipeReady: "ev_pipe s = Some PipeCb \<Longrightarrow> 0 < hs_pipe s \<Longrightarrow>
     send_step (s, out, wrote) (onPipeReadable_drain (s\<lparr>ev_pipe := None\<rparr>), out, wrote)"
| PipeGo: "hs_waiting s \<Longrightarrow> m_send_flag s \<Longrightarrow> onPipeReadable_go s = Inr s' \<Longrightarrow>
     send_step (s, out, wrote) (s', out, wrote)"
| Armed: "ev_write s = Some (ArmedCb data n) \<Longrightarrow>
     send_step (s, out, wrote) (session_send data n (s\<lparr>ev_write := None\<rparr>), out, wrote)"
| Sent: "ev_write s = Some (SendCb (Some data) n) \<Longrightarrow> len \<le> n \<Longrightarrow>
     send_step (s, out, wrote) (send_cb (Some data) n (int len) (s\<lparr>ev_write := None\<rparr>), out @ take len data, wrote)"
| SendError: "ev_write s = Some (SendCb data n) \<Longrightarrow>
     send_step (s, out, wrote) (send_cb data n (-1) (s\<lparr>ev_write := None\<rparr>), out, wrote)"

inductive send_reach :: "session \<Rightarrow> sconf \<Rightarrow> bool" for s0 where
  start: "send_reach s0 (s0, [], [])"
| step: "send_reach s0 c \<Longrightarrow> send_step c c' \<Longrightarrow> send_reach s0 c'"

inductive_cases send_stepE: "send_step (s, out, wrote) c"

subsection \<open>Bytes leave in order\<close>

text \<open>The bytes a registered write callback still has to send.\<close>

fun flight :: "session_cb option \<Rightarrow> bool \<Rightarrow> string option" where
  "flight None flag = (if flag then Some [] else None)"
| "flight (Some (ArmedCb (Some d) n)) flag = (if n = length d \<and> n \<noteq> 0 \<and> \<not> flag then Some d else None)"
| "flight (Some (SendCb (Some d) n)) flag = (if n = length d \<and> n \<noteq> 0 \<and> \<not> flag then Some d else None)"
| "flight _ _ = None"

fun_cases flightE: "flight w flag = Some d"

definition in_flight :: "session \<Rightarrow> string option" where
  "in_flight s = flight (ev_write s) (m_send_flag s)"

text \<open>
  Either everything written is out, in flight or in the buffer, in this order, or a send has
  failed and nothing will be sent any more.
\<close>

definition send_inv :: "nat \<Rightarrow> sconf \<Rightarrow> bool" where
  "send_inv cap = (\<lambda>(s, out, wrote).
     hb_lin (m_write_buffer s) \<and> hb_capacity (m_write_buffer s) = cap
     \<and> m_end_idx (m_write_buffer s) = length wrote
     \<and> ((\<exists>d. in_flight s = Some d \<and> out @ d @ pending (m_write_buffer s) = wrote)
        \<or> (ev_write s = None \<and> \<not> m_send_flag s \<and> prefix out wrote)))"

lemma in_flight_cong:
  "ev_write s = ev_write s' \<Longrightarrow> m_send_flag s = m_send_flag s' \<Longrightarrow> in_flight s = in_flight s'"
  by (simp add: in_flight_def)

lemma send_inv_cong:
  assumes "ev_write s = ev_write s'" "m_send_flag s = m_send_flag s'" "m_write_buffer s = m_write_buffer s'"
  shows "send_inv cap (s, out, wrote) = send_inv cap (s', out, wrote)"
  using assms in_flight_cong [OF assms(1,2)] by (simp add: send_inv_def)

lemma add_pipe_fields [simp]:
  "ev_write (add_pipe cb s) = ev_write s" "m_send_flag (add_pipe cb s) = m_send_flag s"
  "m_write_buffer (add_pipe cb s) = m_write_buffer s" "hs_waiting (add_pipe cb s) = hs_waiting s"
  "hs_pipe (add_pipe cb s) = hs_pipe s"
  by (simp_all add: add_pipe_def)

lemma wake_writer_fields [simp]:
  "ev_write (wake_writer s) = ev_write s" "m_send_flag (wake_writer s) = m_send_flag s"
  "m_write_buffer (wake_writer s) = m_write_buffer s" "hs_waiting (wake_writer s) = hs_waiting s"
  "hs_pipe (wake_writer s) = hs_pipe s" "ev_pipe (wake_writer s) = ev_pipe s"
  by (simp_all add: wake_writer_def)

lemma write_buffer_run:
  assumes "hb_lin (m_write_buffer s)" "buffer \<noteq> []"
    and "m_end_idx (m_write_buffer s) + length buffer < hb_capacity (m_write_buffer s)"
  shows "\<exists>wb s'. session_write_buffer buffer s = Inr (Some (True, s'), s') \<and> hb_lin wb
    \<and> s' = s\<lparr>m_write_buffer := wb, hs_pipe := (if m_send_flag s then hs_pipe s + 1 else hs_pipe s)\<rparr>
    \<and> pending wb = pending (m_write_buffer s) @ buffer \<and> hb_capacity wb = hb_capacity (m_write_buffer s)
    \<and> m_end_idx wb = m_end_idx (m_write_buffer s) + length buffer"
  using hb_write_linear [OF assms(1) order.refl assms(3)] assms(2)
  by (auto simp: session_write_buffer_def Let_def)

lemma Write_inv:
  assumes inv: "send_inv cap (s, out, wrote)" and len: "length (wrote @ data) < cap" and data: "data \<noteq> []"
    and run: "session_write_buffer data s = Inr (Some (True, s'), s'')"
  shows "send_inv cap (s', out, wrote @ data)"
proof -
  have room: "m_end_idx (m_write_buffer s) + length data < hb_capacity (m_write_buffer s)"
    "hb_lin (m_write_buffer s)"
    using inv len by (auto simp: send_inv_def)
  then obtain wb where s': "s' = s\<lparr>m_write_buffer := wb, hs_pipe := (if m_send_flag s then hs_pipe s + 1 else hs_pipe s)\<rparr>"
    and wb: "hb_lin wb" "pending wb = pending (m_write_buffer s) @ data" "hb_capacity wb = hb_capacity (m_write_buffer s)"
      "m_end_idx wb = m_end_idx (m_write_buffer s) + length data"
    using write_buffer_run [OF room(2) data room(1)] run by auto
  have "in_flight s' = in_flight s" unfolding s' by (rule in_flight_cong) simp_all
  then show ?thesis using inv wb unfolding s' by (auto simp: send_inv_def)
qed

lemma PipeGo_inv:
  assumes inv: "send_inv cap (s, out, wrote)" and flag: "m_send_flag s" and run: "onPipeReadable_go s = Inr s'"
  shows "send_inv cap (s', out, wrote)"
proof -
  let ?wb = "m_write_buffer s"
  have lin: "hb_lin ?wb" and w: "ev_write s = None" and all: "out @ pending ?wb = wrote"
    using inv flag by (auto simp: send_inv_def in_flight_def split: if_splits elim!: flightE)
  have n: "get_data_size ?wb = length (pending ?wb)"
    using lin length_pending [OF lin] by (simp add: get_data_size_def hb_lin_def)
  show ?thesis
  proof (cases "pending ?wb = []")
    case True
    then have "s' = add_pipe PipeCb (wake_writer (s\<lparr>hs_waiting := False\<rparr>))"
      using run n by (simp add: onPipeReadable_go_def regist_event_write_def)
    then show ?thesis using inv send_inv_cong [of s' s] by simp
  next
    case False
    obtain wb where wb: "read_by_size (length (pending ?wb)) ?wb = Inr (Some (pending ?wb), wb)" "hb_lin wb"
      "pending wb = []" "m_end_idx wb = m_end_idx ?wb" "hb_capacity wb = hb_capacity ?wb"
      using read_by_size_linear [OF lin, of "length (pending ?wb)"] hb_consume_linear [OF lin order.refl]
      by (auto simp: hb_consume_def)
    then have "s' = add_write (ArmedCb (Some (pending ?wb)) (length (pending ?wb)))
        (wake_writer (s\<lparr>hs_waiting := False, m_write_buffer := wb, m_send_flag := False\<rparr>))"
      using run n False by (simp add: onPipeReadable_go_def regist_event_write_def Let_def)
    then show ?thesis
      using inv wb w all False by (auto simp: send_inv_def add_write_def in_flight_def)
  qed
qed

lemma Armed_inv:
  assumes inv: "send_inv cap (s, out, wrote)" and w: "ev_write s = Some (ArmedCb data n)"
  shows "send_inv cap (session_send data n (s\<lparr>ev_write := None\<rparr>), out, wrote)"
  using inv w
  by (cases data) (auto simp: send_inv_def in_flight_def session_send_def add_write_def split: if_splits)

lemma Sent_inv:
  assumes inv: "send_inv cap (s, out, wrote)" and w: "ev_write s = Some (SendCb (Some data) n)" and len: "len \<le> n"
  shows "send_inv cap (send_cb (Some data) n (int len) (s\<lparr>ev_write := None\<rparr>), out @ take len data, wrote)"
proof -
  have d: "n = length data" "n \<noteq> 0" "\<not> m_send_flag s" "out @ data @ pending (m_write_buffer s) = wrote"
    using inv w by (auto simp: send_inv_def in_flight_def split: if_splits)
  show ?thesis
  proof (cases "len < n")
    case True
    then have "send_cb (Some data) n (int len) (s\<lparr>ev_write := None\<rparr>)
        = s\<lparr>ev_write := Some (SendCb (Some (drop len data)) (n - len))\<rparr>"
      by (simp add: send_cb_def session_send_def add_write_def)
    moreover have "out @ take len data @ drop len data @ pending (m_write_buffer s) = wrote"
      using d(4) by (metis append_assoc append_take_drop_id)
    ultimately show ?thesis using inv d True by (simp add: send_inv_def in_flight_def)
  next
    case False
    then have "send_cb (Some data) n (int len) (s\<lparr>ev_write := None\<rparr>)
        = add_pipe PipeCb (s\<lparr>ev_write := None, m_send_flag := True\<rparr>)"
      by (simp add: send_cb_def)
    moreover have "take len data = data" using False len d(1) by simp
    ultimately show ?thesis using inv d by (simp add: send_inv_def in_flight_def)
  qed
qed

lemma SendError_inv:
  assumes inv: "send_inv cap (s, out, wrote)" and w: "ev_write s = Some (SendCb data n)"
  shows "send_inv cap (send_cb data n (-1) (s\<lparr>ev_write := None\<rparr>), out, wrote)"
proof -
  have "\<not> m_send_flag s" "prefix out wrote"
    using inv w by (auto simp: send_inv_def in_flight_def prefix_def split: if_splits elim!: flightE)
  then show ?thesis using inv by (simp add: send_inv_def send_cb_def)
qed

lemma send_step_inv:
  assumes "send_step (s, out, wrote) (s', out', wrote')" "send_inv cap (s, out, wrote)" "length wrote' < cap"
  shows "send_inv cap (s', out', wrote')"
  using assms(1)
proof (cases rule: send_step.cases)
  case (Suspend data)
  then have "s' = s\<lparr>m_write_fiber := True\<rparr>"
    by (auto simp: session_write_buffer_def res_simps Let_def split: if_splits)
  then show ?thesis using assms(2) Suspend send_inv_cong [of s' s] by simp
next
  case PipeReady
  then show ?thesis using assms(2) send_inv_cong [of s' s] by (simp add: onPipeReadable_drain_def)
qed (use assms Write_inv PipeGo_inv Armed_inv Sent_inv SendError_inv in \<open>auto\<close>)

lemma wrote_grows: "send_step (s, out, wrote) (s', out', wrote') \<Longrightarrow> length wrote \<le> length wrote'"
  by (auto elim: send_stepE)

lemma send_reach_inv:
  assumes "send_reach s0 c" "send_inv cap (s0, [], [])" "length (snd (snd c)) < cap"
  shows "send_inv cap c"
  using assms
proof (induction rule: send_reach.induct)
  case (step c c')
  then show ?case
    using wrote_grows send_step_inv by (cases c; cases c') (fastforce dest: wrote_grows)
qed simp

subsection \<open>Runs of the sending side\<close>

abbreviation send_steps :: "sconf \<Rightarrow> sconf \<Rightarrow> bool" where
  "send_steps \<equiv> send_step\<^sup>*\<^sup>*"

text \<open>Nothing is under way: no data in flight, no wake-up in the pipe.\<close>

definition idle :: "session \<Rightarrow> bool" where
  "idle s \<longleftrightarrow> m_send_flag s \<and> ev_pipe s = Some PipeCb \<and> hs_pipe s = 0 \<and> \<not> hs_waiting s \<and> ev_write s = None"

text \<open>The data \<open>d\<close> has been taken from the buffer and waits for the socket.\<close>

definition armed :: "string \<Rightarrow> session \<Rightarrow> bool" where
  "armed d s \<longleftrightarrow> ev_write s = Some (ArmedCb (Some d) (length d)) \<and> d \<noteq> [] \<and> \<not> m_send_flag s
     \<and> ev_pipe s = None \<and> hs_pipe s = 0 \<and> \<not> hs_waiting s"

lemma reach_steps: "send_reach s0 c \<Longrightarrow> send_steps c c' \<Longrightarrow> send_reach s0 c'"
  by (rotate_tac, induction rule: rtranclp_induct) (auto intro: send_reach.step)

lemma steps_to_armed:
  assumes idle: "idle s" and lin: "hb_lin (m_write_buffer s)" "pending (m_write_buffer s) = []" and d: "d \<noteq> []"
    and room: "m_end_idx (m_write_buffer s) + length d < hb_capacity (m_write_buffer s)"
  shows "\<exists>s'. send_steps (s, out, wrote) (s', out, wrote @ d) \<and> armed d s' \<and> hb_lin (m_write_buffer s')
    \<and> pending (m_write_buffer s') = [] \<and> hb_capacity (m_write_buffer s') = hb_capacity (m_write_buffer s)
    \<and> m_end_idx (m_write_buffer s') = m_end_idx (m_write_buffer s) + length d"
proof -
  obtain wb where run: "session_write_buffer d s = Inr (Some (True, s\<lparr>m_write_buffer := wb, hs_pipe := 1\<rparr>),
      s\<lparr>m_write_buffer := wb, hs_pipe := 1\<rparr>)"
    and wb: "hb_lin wb" "pending wb = d" "hb_capacity wb = hb_capacity (m_write_buffer s)"
      "m_end_idx wb = m_end_idx (m_write_buffer s) + length d"
    using write_buffer_run [OF lin(1) d room] idle lin(2) by (auto simp: idle_def)
  let ?s1 = "s\<lparr>m_write_buffer := wb, hs_pipe := 1\<rparr>"
  let ?s2 = "onPipeReadable_drain (?s1\<lparr>ev_pipe := None\<rparr>)"
  have 1: "send_step (s, out, wrote) (?s1, out, wrote @ d)" by (rule send_step.Write [OF d run])
  have 2: "send_step (?s1, out, wrote @ d) (?s2, out, wrote @ d)"
    by (rule send_step.PipeReady) (use idle in \<open>simp_all add: idle_def\<close>)
  obtain wb' where wb': "read_by_size (length d) wb = Inr (Some d, wb')" "hb_lin wb'" "pending wb' = []"
      "m_end_idx wb' = m_end_idx wb" "hb_capacity wb' = hb_capacity wb"
    using read_by_size_linear [OF wb(1), of "length d"] hb_consume_linear [OF wb(1) order.refl] wb(2)
    by (auto simp: hb_consume_def)
  have "get_data_size wb = length d"
    using wb length_pending [OF wb(1)] by (simp add: get_data_size_def hb_lin_def)
  then have go: "onPipeReadable_go ?s2 = Inr (add_write (ArmedCb (Some d) (length d))
      (wake_writer (?s2\<lparr>hs_waiting := False, m_write_buffer := wb', m_send_flag := False\<rparr>)))"
    using wb'(1) d by (simp add: onPipeReadable_go_def regist_event_write_def Let_def onPipeReadable_drain_def)
  have 3: "send_step (?s2, out, wrote @ d) (add_write (ArmedCb (Some d) (length d))
      (wake_writer (?s2\<lparr>hs_waiting := False, m_write_buffer := wb', m_send_flag := False\<rparr>)), out, wrote @ d)"
    by (rule send_step.PipeGo [OF _ _ go]) (use idle in \<open>simp_all add: idle_def onPipeReadable_drain_def\<close>)
  have steps: "send_steps (s, out, wrote) (add_write (ArmedCb (Some d) (length d))
      (wake_writer (?s2\<lparr>hs_waiting := False, m_write_buffer := wb', m_send_flag := False\<rparr>)), out, wrote @ d)"
    using 1 2 3 by (meson converse_rtranclp_into_rtranclp r_into_rtranclp)
  show ?thesis
    by (rule exI, rule conjI, rule steps)
      (use idle d wb wb' in \<open>simp add: armed_def idle_def add_write_def onPipeReadable_drain_def\<close>)
qed

lemma steps_to_sent:
  assumes "ev_write s = Some (SendCb (Some d) (length d))" "d \<noteq> []" "ev_pipe s = None" "hs_pipe s = 0" "\<not> hs_waiting s"
    and "sum_list lens = length d" "0 \<notin> set lens"
  shows "\<exists>s'. send_steps (s, out, wrote) (s', out @ d, wrote) \<and> idle s' \<and> m_write_buffer s' = m_write_buffer s"
  using assms
proof (induction lens arbitrary: s d out)
  case (Cons k ks)
  let ?s = "send_cb (Some d) (length d) (int k) (s\<lparr>ev_write := None\<rparr>)"
  have k: "k \<le> length d" "0 < k" using Cons.prems(6,7) by auto
  have st: "send_step (s, out, wrote) (?s, out @ take k d, wrote)"
    by (rule send_step.Sent [OF Cons.prems(1) k(1)])
  show ?case
  proof (cases "k < length d")
    case True
    then have "?s = s\<lparr>ev_write := Some (SendCb (Some (drop k d)) (length (drop k d)))\<rparr>"
      by (simp add: send_cb_def session_send_def add_write_def)
    moreover have "sum_list ks = length (drop k d)" using Cons.prems(6) by simp
    ultimately obtain s' where "send_steps (?s, out @ take k d, wrote) (s', (out @ take k d) @ drop k d, wrote)"
      "idle s'" "m_write_buffer s' = m_write_buffer s"
      using Cons.IH [of ?s "drop k d" "out @ take k d"] Cons.prems True by auto
    then show ?thesis using st by (auto intro: converse_rtranclp_into_rtranclp)
  next
    case False
    then have "?s = s\<lparr>ev_write := None, m_send_flag := True, ev_pipe := Some PipeCb\<rparr>" "take k d = d"
      using Cons.prems(3) k by (simp_all add: send_cb_def add_pipe_def)
    then show ?thesis using st Cons.prems by (intro exI [of _ ?s]) (auto simp: idle_def)
  qed
qed simp

lemma armed_to_sent:
  assumes "armed d s" "sum_list lens = length d" "0 \<notin> set lens"
  shows "\<exists>s'. send_steps (s, out, wrote) (s', out @ d, wrote) \<and> idle s' \<and> m_write_buffer s' = m_write_buffer s"
proof -
  let ?s = "session_send (Some d) (length d) (s\<lparr>ev_write := None\<rparr>)"
  have "send_step (s, out, wrote) (?s, out, wrote)"
    by (rule send_step.Armed) (use assms(1) in \<open>simp add: armed_def\<close>)
  moreover have "?s = s\<lparr>ev_write := Some (SendCb (Some d) (length d))\<rparr>"
    using assms(1) by (simp add: session_send_def add_write_def armed_def)
  moreover from this obtain s' where "send_steps (?s, out, wrote) (s', out @ d, wrote)" "idle s'"
    "m_write_buffer s' = m_write_buffer s"
    using steps_to_sent [of ?s d lens out wrote] assms by (auto simp: armed_def)
  ultimately show ?thesis by (auto intro: converse_rtranclp_into_rtranclp)
qed

lemma new_session_idle:
  "idle (new_HttpSession fd)" "hb_lin (m_write_buffer (new_HttpSession fd))"
  "pending (m_write_buffer (new_HttpSession fd)) = []" "hb_capacity (m_write_buffer (new_HttpSession fd)) = 4096"
  "m_end_idx (m_write_buffer (new_HttpSession fd)) = 0"
  by (simp_all add: idle_def new_HttpSession_def add_pipe_def session_buffer_size_def hb_lin_new)
    (simp_all add: new_HttpBuffer_def)

subsection \<open>Properties\<close>

text \<open>
  C6. Responses leave in order: in every state a session can reach by writing responses, by
  its pipe and write callbacks in any order, by partial sends and by a failing send, as long as
  less than the buffer size has been written, the bytes the socket has accepted are a prefix of
  the bytes written: none is lost in between, duplicated or reordered. When no send has failed
  and none is under way, the rest is still in the write buffer.
\<close>

theorem responses_in_order:
  assumes "send_reach (new_HttpSession fd) (s, out, wrote)" "length wrote < 4096"
  shows "prefix out wrote \<and> (m_send_flag s \<longrightarrow> ev_write s = None \<and> out @ pending (m_write_buffer s) = wrote)"
proof -
  have "send_inv 4096 (new_HttpSession fd, [], [])"
    using new_session_idle [of fd] by (simp add: send_inv_def in_flight_def idle_def)
  then have "send_inv 4096 (s, out, wrote)" using send_reach_inv [OF assms(1)] assms(2) by simp
  then show ?thesis
    by (auto simp: send_inv_def in_flight_def prefix_def split: if_splits elim!: flightE)
qed

theorem responses_in_order_witness:
  "\<exists>s. send_reach (new_HttpSession 5) (s, ''ab'', ''ab'') \<and> prefix ''ab'' ''ab'' \<and> m_send_flag s
    \<and> ''ab'' @ pending (m_write_buffer s) = ''ab''"
proof -
  obtain s1 where 1: "send_steps (new_HttpSession 5, '''', '''') (s1, '''', '''' @ ''ab'')" "armed ''ab'' s1"
    using steps_to_armed [OF new_session_idle(1-3), of "''ab''" 5 "''''" "''''"] new_session_idle(4,5) [of 5] by auto
  obtain s2 where 2: "send_steps (s1, '''', ''ab'') (s2, ''ab'', ''ab'')" "idle s2"
    using armed_to_sent [OF 1(2), of "[2]" "''''" "''ab''"] by auto
  have "send_reach (new_HttpSession 5) (s2, ''ab'', ''ab'')"
    using reach_steps [OF reach_steps [OF send_reach.start 1(1)]] 2(1) by simp
  moreover have "m_send_flag s2" using 2(2) by (simp add: idle_def)
  ultimately show ?thesis using responses_in_order [of 5 s2 "''ab''" "''ab''"] by auto
qed

text \<open>
  A response to an idle session is sent: from any idle session whose buffer is empty and has
  room, writing a response leads, for every way the socket cuts it into partial sends, to a
  state in which the socket has accepted all of it and the session is idle again.
\<close>

lemma idle_response_sent:
  assumes "idle s" "hb_lin (m_write_buffer s)" "pending (m_write_buffer s) = []" "d \<noteq> []"
    and "m_end_idx (m_write_buffer s) + length d < hb_capacity (m_write_buffer s)"
    and "sum_list lens = length d" "0 \<notin> set lens"
  shows "\<exists>s'. send_steps (s, out, wrote) (s', out @ d, wrote @ d) \<and> idle s'
    \<and> pending (m_write_buffer s') = [] \<and> m_end_idx (m_write_buffer s') = m_end_idx (m_write_buffer s) + length d"
proof -
  obtain s1 where 1: "send_steps (s, out, wrote) (s1, out, wrote @ d)" "armed d s1"
    "pending (m_write_buffer s1) = []" "m_end_idx (m_write_buffer s1) = m_end_idx (m_write_buffer s) + length d"
    using steps_to_armed [OF assms(1-5)] by blast
  obtain s2 where "send_steps (s1, out, wrote @ d) (s2, out @ d, wrote @ d)" "idle s2" "m_write_buffer s2 = m_write_buffer s1"
    using armed_to_sent [OF 1(2) assms(6,7)] by blast
  then show ?thesis using 1 by (metis rtranclp_trans)
qed

lemma idle_response_sent_example:
  "\<exists>s. send_steps (new_HttpSession 5, '''', '''') (s, ''HTTP'', ''HTTP'') \<and> idle s"
  using idle_response_sent [OF new_session_idle(1-3), of "''HTTP''" 5 "[1, 3]" "''''" "''''"] new_session_idle(4,5) [of 5]
  by auto

text \<open>
  A wake-up is lost: a response written while another one is being sent does not write to the
  pipe, and the end of that send only registers the pipe again. Whatever the two responses are,
  the session reaches a state in which the second one is in the write buffer, nothing is under
  way and no registered event can fire, so it stays there until a third response is written.
\<close>

lemma second_response_stuck:
  assumes "d1 \<noteq> []" "d2 \<noteq> []" "length d1 + length d2 < 4096"
  shows "\<exists>s. send_reach (new_HttpSession fd) (s, d1, d1 @ d2) \<and> idle s \<and> pending (m_write_buffer s) = d2"
proof -
  obtain s1 where 1: "send_steps (new_HttpSession fd, [], []) (s1, [], d1)" "armed d1 s1"
    "hb_lin (m_write_buffer s1)" "pending (m_write_buffer s1) = []" "hb_capacity (m_write_buffer s1) = 4096"
    "m_end_idx (m_write_buffer s1) = length d1"
    using steps_to_armed [OF new_session_idle(1-3) assms(1), of fd "[]" "[]"] new_session_idle(4,5) [of fd] assms(3)
    by auto
  have flag: "\<not> m_send_flag s1" using 1(2) by (simp add: armed_def)
  obtain wb where w: "session_write_buffer d2 s1 = Inr (Some (True, s1\<lparr>m_write_buffer := wb\<rparr>), s1\<lparr>m_write_buffer := wb\<rparr>)"
    and wb: "pending wb = d2"
    using write_buffer_run [OF 1(3) assms(2)] 1(4-6) assms(3) flag by auto
  let ?s2 = "s1\<lparr>m_write_buffer := wb\<rparr>"
  have 2: "send_step (s1, [], d1) (?s2, [], d1 @ d2)" by (rule send_step.Write [OF assms(2) w])
  have "armed d1 ?s2" using 1(2) by (simp add: armed_def)
  then obtain s3 where 3: "send_steps (?s2, [], d1 @ d2) (s3, d1, d1 @ d2)" "idle s3" "m_write_buffer s3 = wb"
    using armed_to_sent [of d1 ?s2 "[length d1]" "[]" "d1 @ d2"] assms(1) by auto
  have "send_reach (new_HttpSession fd) (s1, [], d1)" using reach_steps [OF send_reach.start 1(1)] .
  then have "send_reach (new_HttpSession fd) (s3, d1, d1 @ d2)"
    using 2 3(1) by (meson reach_steps send_reach.step)
  then show ?thesis using 3 wb by blast
qed

lemma second_response_stuck_example:
  "\<exists>s. send_reach (new_HttpSession 5) (s, ''ab'', ''abcd'') \<and> idle s \<and> pending (m_write_buffer s) = ''cd''"
  using second_response_stuck [of "''ab''" "''cd''" 5] by simp

text \<open>
  A response longer than the whole block never fits, however much is read in between: its writer
  waits for ever.
\<close>

lemma long_response_never_fits:
  assumes "hb_lin (m_write_buffer s)" "hb_capacity (m_write_buffer s) + 1 < length d"
  shows "session_write_buffer d s = Inr (None, s\<lparr>m_write_fiber := True\<rparr>)"
  using assms by (auto simp: session_write_buffer_def hb_write_def hb_lin_def Let_def)

subsection \<open>Receiving a request\<close>

lemma length_crlf_lines: "length ls \<le> length (crlf_lines ls)"
  by (induction ls) (simp_all add: crlf_lines_def)

lemma session_request:
  assumes recv: "recv (get_available_size (m_read_buffer (new_HttpSession fd))) = (int (length req), req)"
    and req: "req = crlf_lines (request_line mt uri # hs @ ['''']) @ body" "length req < 4096"
    and parts: "mt \<noteq> NONE" "token uri" "list_all header_ok hs" "NUL \<notin> set body"
      "announced_length hs = int (length body)"
  shows "\<exists>s. ev_read s = Some RecvCb \<and> m_write_buffer s = m_write_buffer (new_HttpSession fd) \<and> idle s \<and>
    recv_cb e recv (new_HttpSession fd) om =
      bindR (handle_request_parts e (method_name mt) fd uri body om) (\<lambda>(_, om). Inr (s, om))"
proof -
  let ?s = "new_HttpSession fd" and ?hb = "new_HttpBuffer 4096"
  have s: "m_read_buffer ?s = ?hb" "m_parser ?s = new_HttpParser 4096" "hs_fd ?s = fd" "ev_read ?s = None"
    by (simp_all add: new_HttpSession_def add_pipe_def session_buffer_size_def)
  define buffer where "buffer = req @ replicate (get_available_size ?hb - length req) NUL"
  have len: "length req \<noteq> 0" using req(1) by (simp add: crlf_lines_def)
  have new: "hb_lin ?hb" "m_start_idx ?hb = 0" "m_end_idx ?hb = 0" "hb_capacity ?hb = 4096"
    by (simp_all add: hb_lin_new) (simp_all add: new_HttpBuffer_def)
  obtain hb where w: "hb_write buffer (length req) ?hb = Inr (True, hb)" and lin: "hb_lin hb"
    and hb: "pending hb = req" "m_start_idx hb = 0" "m_end_idx hb = length req" "hb_capacity hb = 4096"
    using hb_write_linear [of ?hb "length req" buffer] req(2) new by (auto simp: buffer_def)
  let ?p = "hp_update_buffer_size (length req) (new_HttpParser 4096)"
  have p: "m_check_state ?p = CHECK_STATE_REQUESTLINE" "m_content_length ?p = 0" "m_read_idx ?p = int (m_end_idx hb)"
    "m_checked_idx ?p = 0" "get_body ?p = ''''"
    using req(2) hb(3) by (simp_all add: hp_update_buffer_size_def new_HttpParser_def int32_ok_def get_body_def)
  have "length hs + 2 \<le> length req"
    using length_crlf_lines [of "request_line mt uri # hs @ ['''']"] req(1) by simp
  then obtain f where f: "session_fuel (?s\<lparr>m_read_buffer := hb\<rparr>) = length hs + 3 + f"
    using lin hb(4) req(2) le_Suc_ex [of "length hs + 3" "4097 + 3"] by (auto simp: session_fuel_def hb_lin_def)
  have at: "at_line ?p hb" using lin hb(2) p(4) by (simp add: at_line_def)
  have small: "m_end_idx hb < 2 ^ 31" using hb(3) req(2) by simp
  have pend: "pending hb = crlf_lines (request_line mt uri # hs @ ['''']) @ body" using hb(1) req(1) by simp
  obtain p' hb' where run: "process_read (length hs + 3 + f) ?p hb = Inr (GET_REQUEST, p', hb')"
    and m: "get_method p' = method_name mt" "get_uri p' = uri" "get_body p' = (if body = [] then get_body ?p else body)"
    using request_process [OF at p(1,2,3) small parts pend, of f] by blast
  have out: "get_method p' = method_name mt" "get_uri p' = uri" "get_body p' = body" using m p(5) by auto
  let ?s' = "regist_event_read (?s\<lparr>m_parser := p', m_read_buffer := hb'\<rparr>)"
  have "recv_cb e recv ?s om = session_update_buffer_size e (length req) (?s\<lparr>m_read_buffer := hb\<rparr>) om"
    using recv w len by (simp add: recv_cb_def s(1) buffer_def Let_def)
  also have "\<dots> = bindR (handle_request_parts e (method_name mt) fd uri body om) (\<lambda>(_, om). Inr (?s', om))"
    using run out s by (simp add: session_update_buffer_size_def f json_is_parts)
  finally show ?thesis
    using s(4) new_session_idle(1) [of fd] by (intro exI [of _ ?s']) (simp add: regist_event_read_def add_read_def idle_def)
qed

end
