(* ===== verification/Epoll.thy ===== *)
theory Epoll
  imports Prelude
begin

text \<open>
  What \<open>sherry/iomanager.cc\<close> and \<open>sherry/http/http_server.cc\<close> share: event masks, the interest
  list the kernel keeps for an epoll descriptor, the table of contexts by file descriptor, the
  cap on the time \<open>epoll_wait\<close> may sleep, and the contract between a table of registered events
  and the interest list, as a locale.
\<close>

named_theorems mask_defs \<open>the bits of event masks\<close>

type_synonym mask = u32

definition READ :: mask where [mask_defs]: "READ = 1"
definition WRITE :: mask where [mask_defs]: "WRITE = 4"
definition EPOLLIN :: mask where [mask_defs]: "EPOLLIN = 1"
definition EPOLLOUT :: mask where [mask_defs]: "EPOLLOUT = 4"
definition EPOLLERR :: mask where [mask_defs]: "EPOLLERR = 8"
definition EPOLLHUP :: mask where [mask_defs]: "EPOLLHUP = 16"
definition EPOLLET :: mask where [mask_defs]: "EPOLLET = 0x80000000"

subsection \<open>The interest list\<close>

text \<open>
  \<open>epoll_ctl\<close> as documented: adding a watched descriptor and changing or removing one that is
  not watched fail; \<open>ok\<close> tells whether the kernel has no other objection (a bad descriptor, no
  memory). The result is whether 0 was returned.
\<close>

datatype epoll_op = EPOLL_CTL_ADD | EPOLL_CTL_MOD | EPOLL_CTL_DEL

type_synonym interest = "nat \<Rightarrow> mask option"

fun epoll_ctl :: "bool \<Rightarrow> epoll_op \<Rightarrow> nat \<Rightarrow> mask \<Rightarrow> interest \<Rightarrow> bool \<times> interest" where
  "epoll_ctl ok EPOLL_CTL_ADD fd ev ep = (if ok \<and> ep fd = None then (True, ep(fd := Some ev)) else (False, ep))"
| "epoll_ctl ok EPOLL_CTL_MOD fd ev ep = (if ok \<and> ep fd \<noteq> None then (True, ep(fd := Some ev)) else (False, ep))"
| "epoll_ctl ok EPOLL_CTL_DEL fd ev ep = (if ok \<and> ep fd \<noteq> None then (True, ep(fd := None)) else (False, ep))"

subsection \<open>Contexts\<close>

text \<open>\<open>FdContext\<close> for a type of event contexts; its descriptor is its index in the table.\<close>

record 'e fdctx =
  fc_read :: 'e
  fc_write :: 'e
  fc_events :: mask

definition getContext :: "mask \<Rightarrow> ('e, 'z) fdctx_scheme \<Rightarrow> 'e res" where
  "getContext event fc =
     (if event = READ then Inr (fc_read fc) else if event = WRITE then Inr (fc_write fc) else Inl AssertFail)"

definition setContext :: "mask \<Rightarrow> 'e \<Rightarrow> ('e, 'z) fdctx_scheme \<Rightarrow> ('e, 'z) fdctx_scheme" where
  "setContext event ctx fc = (if event = READ then fc\<lparr>fc_read := ctx\<rparr> else fc\<lparr>fc_write := ctx\<rparr>)"

text \<open>\<open>contextResize\<close>: \<open>resize\<close>, then a new context for every null pointer.\<close>

definition contextResize :: "'f \<Rightarrow> nat \<Rightarrow> 'f list \<Rightarrow> 'f list" where
  "contextResize new n ctxs = take n ctxs @ replicate (n - length ctxs) new"

text \<open>
  The context of a descriptor in \<open>addEvent\<close>: the table grows to \<open>fd * 1.5\<close> when it is too short.
  A negative descriptor is converted to an index far outside.
\<close>

definition grow_for :: "'f \<Rightarrow> int \<Rightarrow> 'f list \<Rightarrow> 'f list res" where
  "grow_for new fd ctxs =
     (if fd < 0 then Inl OutOfBounds
      else if int (length ctxs) > fd then Inr ctxs
      else let ctxs = contextResize new (nat fd * 3 div 2) ctxs in
        if nat fd < length ctxs then Inr ctxs else Inl OutOfBounds)"

text \<open>The events \<open>idle\<close> takes from what \<open>epoll_wait\<close> reports.\<close>

definition real_events :: "mask \<Rightarrow> mask" where
  "real_events ev =
     (let ev = (if ev AND (EPOLLERR OR EPOLLHUP) \<noteq> 0 then ev OR (EPOLLIN OR EPOLLOUT) else ev) in
      (if ev AND EPOLLIN \<noteq> 0 then READ else 0) OR (if ev AND EPOLLOUT \<noteq> 0 then WRITE else 0))"

text \<open>One element of the array \<open>epoll_wait\<close> fills: the tickle pipe, or a context with its mask.\<close>

datatype epoll_event = Tickled | Ready nat mask

text \<open>
  The last argument of \<open>epoll_wait\<close>, as an \<open>int\<close>, for the result of \<open>getNextTimer\<close>: the
  conversion to \<open>int\<close> comes before the comparison with \<open>MAX_TIMEOUT\<close>.
\<close>

definition wait_timeout :: "u64 \<Rightarrow> int" where
  "wait_timeout next_timeout =
     (let t = (if next_timeout \<noteq> - 1
               then if sint (ucast next_timeout :: u32) > 3000 then 3000 else next_timeout
               else 3000)
      in sint (ucast t :: u32))"

subsection \<open>Facts about masks and contexts\<close>

text \<open>The sets of registered events.\<close>

definition mask_ok :: "mask \<Rightarrow> bool" where
  "mask_ok w \<longleftrightarrow> w \<in> {0, READ, WRITE, READ OR WRITE}"

definition event_ok :: "mask \<Rightarrow> bool" where
  "event_ok e \<longleftrightarrow> e = READ \<or> e = WRITE"

definition has_event :: "mask \<Rightarrow> mask \<Rightarrow> bool" where
  "has_event w e \<longleftrightarrow> w AND e \<noteq> 0"

text \<open>How many events a mask registers.\<close>

definition event_count :: "mask \<Rightarrow> nat" where
  "event_count w = of_bool (has_event w READ) + of_bool (has_event w WRITE)"

lemma mask_cases:
  assumes "mask_ok w" "w = 0 \<Longrightarrow> P" "w = 1 \<Longrightarrow> P" "w = 4 \<Longrightarrow> P" "w = 5 \<Longrightarrow> P"
  shows P
proof -
  have "READ OR WRITE = 5" by (simp add: mask_defs)
  then show P using assms unfolding mask_ok_def mask_defs by blast
qed

lemma event_cases:
  assumes "event_ok e" "e = 1 \<Longrightarrow> P" "e = 4 \<Longrightarrow> P"
  shows P
  using assms unfolding event_ok_def mask_defs by blast

lemmas mask_eval = mask_defs mask_ok_def event_count_def has_event_def

lemma mask_add_all:
  assumes "mask_ok w" "event_ok e" "\<not> has_event w e"
  shows "mask_ok (w OR e) \<and> event_count (w OR e) = event_count w + 1 \<and> w OR e \<noteq> 0"
  by (rule mask_cases [OF assms(1)]; rule event_cases [OF assms(2)]; use assms(3) in \<open>simp add: mask_eval\<close>)

lemma mask_del_all:
  assumes "mask_ok w" "event_ok e" "has_event w e"
  shows "mask_ok (w AND NOT e) \<and> event_count (w AND NOT e) + 1 = event_count w \<and> \<not> has_event (w AND NOT e) e"
  by (rule mask_cases [OF assms(1)]; rule event_cases [OF assms(2)]; use assms(3) in \<open>simp add: mask_eval\<close>)

lemma mask_other:
  assumes "mask_ok w" "event_ok e" "event_ok e'" "e \<noteq> e'"
  shows "has_event (w AND NOT e) e' = has_event w e' \<and> has_event (w OR e) e' = has_event w e'
    \<and> has_event (w OR e) e"
  by (rule mask_cases [OF assms(1)]; rule event_cases [OF assms(2)]; rule event_cases [OF assms(3)];
      use assms(4) in \<open>simp add: mask_eval\<close>)

lemma event_count_0: "mask_ok w \<Longrightarrow> event_count w = 0 \<longleftrightarrow> w = 0"
  by (erule mask_cases) (simp_all add: mask_eval)

lemma has_event_0 [simp]: "\<not> has_event 0 e"
  by (simp add: has_event_def)

lemma event_ok_simps [simp]: "event_ok READ" "event_ok WRITE" "READ \<noteq> WRITE" "WRITE \<noteq> READ" "mask_ok 0"
  by (simp_all add: event_ok_def mask_ok_def mask_defs)

lemma real_events_ok: "mask_ok (real_events ev)"
  by (auto simp: real_events_def mask_ok_def Let_def)

lemma grow_for_run:
  assumes "0 \<le> fd" "2 \<le> length ctxs"
  shows "\<exists>ctxs'. grow_for new fd ctxs = Inr ctxs' \<and> nat fd < length ctxs' \<and> length ctxs \<le> length ctxs'
    \<and> (\<forall>i < length ctxs'. ctxs' ! i = (if i < length ctxs then ctxs ! i else new))"
proof (cases "int (length ctxs) > fd")
  case True
  then show ?thesis using assms by (auto simp: grow_for_def)
next
  case False
  then have "length ctxs \<le> nat fd" "nat fd < nat fd * 3 div 2" using assms by linarith+
  then show ?thesis using assms False
    by (auto simp: grow_for_def contextResize_def nth_append Let_def intro!: nth_replicate diff_less_mono)
qed

text \<open>
  The sleep of \<open>idle\<close> is between 0 and 3 seconds when the next timer is due within \<open>2 ^ 31\<close>
  milliseconds; for one a little later it is negative, which makes \<open>epoll_wait\<close> sleep without
  limit.
\<close>

lemma wait_timeout_short:
  assumes "next_timeout < 2 ^ 31"
  shows "wait_timeout next_timeout = min 3000 (int (unat next_timeout))"
proof -
  have n: "uint next_timeout < 2 ^ 31" using assms by (simp add: word_less_def)
  have conv: "sint (ucast w :: u32) = uint w" if "uint w < 2 ^ 31" for w :: u64
  proof -
    have "take_bit 32 (uint w) = uint w" using that by (intro take_bit_int_eq_self) simp_all
    moreover have "signed_take_bit 31 (uint w) = uint w"
      using that by (intro signed_take_bit_int_eq_self) (simp_all add: order.trans [OF _ unsigned_greater_eq])
    ultimately show ?thesis by (simp add: signed_ucast_eq unsigned_take_bit_eq)
  qed
  show ?thesis using n conv [OF n] assms by (auto simp: wait_timeout_def Let_def)
qed

lemma wait_timeout_forever: "wait_timeout (2 ^ 31) = - (2 ^ 31)"
  by code_simp

subsection \<open>Registered and watched events\<close>

definition ctx_of :: "mask \<Rightarrow> ('e, 'z) fdctx_scheme \<Rightarrow> 'e" where
  "ctx_of event fc = (if event = READ then fc_read fc else fc_write fc)"

definition events_at :: "('e, 'z) fdctx_scheme list \<Rightarrow> nat \<Rightarrow> mask" where
  "events_at ctxs fd = (if fd < length ctxs then fc_events (ctxs ! fd) else 0)"

definition watch :: "mask \<Rightarrow> mask option" where
  "watch w = (if w = 0 then None else Some (EPOLLET OR w))"

definition watch_inv :: "('e, 'z) fdctx_scheme list \<Rightarrow> interest \<Rightarrow> bool" where
  "watch_inv ctxs ep \<longleftrightarrow> (\<forall>fd. ep fd = watch (events_at ctxs fd))"

lemma getContext_ok: "event_ok e \<Longrightarrow> getContext e fc = Inr (ctx_of e fc)"
  by (auto simp: event_ok_def getContext_def ctx_of_def)

lemma ctx_of_setContext [simp]:
  "event_ok e \<Longrightarrow> event_ok e' \<Longrightarrow> ctx_of e' (setContext e ctx fc) = (if e = e' then ctx else ctx_of e' fc)"
  "fc_events (setContext e ctx fc) = fc_events fc"
  "ctx_of e (fc\<lparr>fc_events := w\<rparr>) = ctx_of e fc"
  by (auto simp: event_ok_def setContext_def ctx_of_def)

lemma watch_inv_update:
  assumes "watch_inv ctxs ep" "fd < length ctxs"
  shows "watch_inv (ctxs[fd := fc]) (ep(fd := watch (fc_events fc)))"
  using assms by (auto simp: watch_inv_def events_at_def nth_list_update)

text \<open>A table that differs at one descriptor, and an interest list changed to match.\<close>

lemma watch_inv_at:
  assumes "watch_inv ctxs ep" "length ctxs' = length ctxs" "\<forall>i. i \<noteq> fd \<longrightarrow> ctxs' ! i = ctxs ! i" "fd < length ctxs"
  shows "watch_inv ctxs' (ep(fd := watch (fc_events (ctxs' ! fd))))"
  using assms by (auto simp: watch_inv_def events_at_def)

lemma watch_at: "watch_inv ctxs ep \<Longrightarrow> fd < length ctxs \<Longrightarrow> ep fd = watch (fc_events (ctxs ! fd))"
  by (simp add: watch_inv_def events_at_def)

lemma ctl_watch:
  assumes "watch_inv ctxs ep" "fd < length ctxs" "fc_events (ctxs ! fd) \<noteq> 0"
  shows "epoll_ctl ok (if w \<noteq> 0 then EPOLL_CTL_MOD else EPOLL_CTL_DEL) fd (EPOLLET OR w) ep
    = (if ok then (True, ep(fd := watch w)) else (False, ep))"
  using watch_at [OF assms(1,2)] assms(3) by (auto simp: watch_def)

lemma ctl_add:
  assumes "watch_inv ctxs ep" "fd < length ctxs" "w \<noteq> 0"
  shows "epoll_ctl ok (if fc_events (ctxs ! fd) \<noteq> 0 then EPOLL_CTL_MOD else EPOLL_CTL_ADD) fd (EPOLLET OR w) ep
    = (if ok then (True, ep(fd := watch w)) else (False, ep))"
  using watch_at [OF assms(1,2)] assms(3) by (auto simp: watch_def)

lemma has_event_nonzero: "has_event w e \<Longrightarrow> w \<noteq> 0"
  by auto

lemma events_at_update: "fd < length ctxs \<Longrightarrow> events_at (ctxs[fd := fc]) = (events_at ctxs)(fd := fc_events fc)"
  by (auto simp: events_at_def fun_eq_iff nth_list_update)

lemma has_event_own: "mask_ok w \<Longrightarrow> event_ok e \<Longrightarrow> has_event (w OR e) e"
  by (erule mask_cases; erule event_cases; simp add: mask_eval)

subsection \<open>The contract with the kernel\<close>

text \<open>
  A manager of registered events: in its good states the kernel watches exactly the descriptors
  with registered events, for these events, and edge-triggered; every operation keeps a state
  good.
\<close>

locale event_table =
  fixes good :: "'m \<Rightarrow> bool" and registered :: "'m \<Rightarrow> nat \<Rightarrow> mask" and watched :: "'m \<Rightarrow> interest"
    and step :: "'m \<Rightarrow> 'm \<Rightarrow> bool"
  assumes step_good: "good m \<Longrightarrow> step m m' \<Longrightarrow> good m'"
    and good_watch: "good m \<Longrightarrow>
      watched m fd = (if registered m fd = 0 then None else Some (EPOLLET OR registered m fd))"
    and good_mask: "good m \<Longrightarrow> mask_ok (registered m fd)"
begin

lemma steps_good: "step\<^sup>*\<^sup>* m m' \<Longrightarrow> good m \<Longrightarrow> good m'"
  by (induction rule: rtranclp_induct) (auto intro: step_good)

text \<open>The kernel reports an event of a descriptor only when it is registered.\<close>

lemma steps_watched:
  assumes "step\<^sup>*\<^sup>* m m'" "good m"
  shows "watched m' fd = (if registered m' fd = 0 then None else Some (EPOLLET OR registered m' fd))"
  using good_watch [OF steps_good [OF assms]] .

text \<open>The choice between adding and changing is always the one the kernel accepts.\<close>

lemma steps_ctl:
  assumes "step\<^sup>*\<^sup>* m m'" "good m"
  shows "fst (epoll_ctl True (if registered m' fd \<noteq> 0 then EPOLL_CTL_MOD else EPOLL_CTL_ADD) fd ev (watched m'))"
    and "registered m' fd \<noteq> 0 \<Longrightarrow> fst (epoll_ctl True (if x then EPOLL_CTL_MOD else EPOLL_CTL_DEL) fd ev (watched m'))"
  using steps_watched [OF assms, of fd] by simp_all

end

end
