(* ===== verification/IOManager.thy ===== *)
theory IOManager
  imports Epoll Scheduler Timer
begin

text \<open>
  \<open>sherry/iomanager.h\<close>, \<open>sherry/iomanager.cc\<close>: a scheduler that waits for file descriptors and
  timers. Its state holds the scheduler, the timers, the table of contexts, the kernel's
  interest list and the bytes in the tickle pipe. An event context remembers the scheduler that
  registered it: the manager itself or another one, whose new tasks are collected in
  \<open>io_other\<close>. What the kernel decides (\<open>ok\<close>, the ready events), the clock and the calling fiber
  are arguments.
\<close>

subsection \<open>State\<close>

datatype sref = Self | Other nat

record 'cb evctx =
  ec_scheduler :: "sref option"
  ec_fiber :: "nat option"
  ec_cb :: "'cb option"

definition no_ctx :: "'cb evctx" where
  "no_ctx = \<lparr>ec_scheduler = None, ec_fiber = None, ec_cb = None\<rparr>"

definition new_FdContext :: "'cb evctx fdctx" where
  "new_FdContext = \<lparr>fc_read = no_ctx, fc_write = no_ctx, fc_events = 0\<rparr>"

record 'cb iomanager =
  io_sched :: "'cb scheduler"
  io_timers :: "'cb timermanager"
  io_epoll :: interest
  io_pipe :: nat
  io_pending :: nat
  io_ctxs :: "'cb evctx fdctx list"
  io_other :: "(nat \<times> 'cb task) list"

text \<open>The constructor, for a scheduler and timers that have just been created.\<close>

definition new_IOManager :: "'cb scheduler \<Rightarrow> 'cb timermanager \<Rightarrow> int list \<Rightarrow> 'cb iomanager res" where
  "new_IOManager s tm ids =
     bindR (sched_start ids s) (\<lambda>s.
       Inr \<lparr>io_sched = s, io_timers = tm, io_epoll = Map.empty, io_pipe = 0, io_pending = 0,
            io_ctxs = contextResize new_FdContext 32 [], io_other = []\<rparr>)"

definition resetContext :: "mask \<Rightarrow> 'cb evctx fdctx \<Rightarrow> 'cb evctx fdctx" where
  "resetContext event fc = setContext event no_ctx fc"

subsection \<open>Waking threads\<close>

text \<open>\<open>tickle\<close> writes to the pipe unless a thread is idle.\<close>

definition io_tickle :: "'cb iomanager \<Rightarrow> 'cb iomanager" where
  "io_tickle io = (if m_idleThreadCount (io_sched io) > 0 then io else io\<lparr>io_pipe := io_pipe io + 1\<rparr>)"

definition io_schedule :: "'cb task \<Rightarrow> 'cb iomanager \<Rightarrow> 'cb iomanager" where
  "io_schedule ft io =
     (case scheduleNoLock ft (io_sched io) of (need_tickle, s) \<Rightarrow>
        let io = io\<lparr>io_sched := s\<rparr> in if need_tickle then io_tickle io else io)"

definition io_schedule_range :: "'cb task list \<Rightarrow> 'cb iomanager \<Rightarrow> 'cb iomanager" where
  "io_schedule_range fts io =
     (case schedule_range_loop fts False (io_sched io) of (need_tickle, s) \<Rightarrow>
        let io = io\<lparr>io_sched := s\<rparr> in if need_tickle then io_tickle io else io)"

text \<open>\<open>ctx.scheduler->schedule(...)\<close>.\<close>

fun post :: "sref option \<Rightarrow> 'cb task \<Rightarrow> 'cb iomanager \<Rightarrow> 'cb iomanager res" where
  "post None ft io = Inl NullDeref"
| "post (Some Self) ft io = Inr (io_schedule ft io)"
| "post (Some (Other n)) ft io = Inr (io\<lparr>io_other := io_other io @ [(n, ft)]\<rparr>)"

subsection \<open>Events\<close>

definition set_fd :: "nat \<Rightarrow> 'cb evctx fdctx \<Rightarrow> 'cb iomanager \<Rightarrow> 'cb iomanager" where
  "set_fd fd fc io = io\<lparr>io_ctxs := (io_ctxs io)[fd := fc]\<rparr>"

text \<open>\<open>triggerEvent\<close>: the callback or the fiber moves from the context into the task.\<close>

definition triggerEvent :: "nat \<Rightarrow> mask \<Rightarrow> 'cb iomanager \<Rightarrow> 'cb iomanager res" where
  "triggerEvent fd event io =
     (let fc = io_ctxs io ! fd in
      if fc_events fc AND event = 0 then Inl AssertFail
      else
        let fc = fc\<lparr>fc_events := fc_events fc AND NOT event\<rparr> in
        bindR (getContext event fc) (\<lambda>ctx.
          let ft = (if ec_cb ctx \<noteq> None then cb_task (ec_cb ctx) (-1) else fiber_task (ec_fiber ctx) (-1));
              left = (if ec_cb ctx \<noteq> None then ctx\<lparr>ec_cb := None, ec_scheduler := None\<rparr>
                      else ctx\<lparr>ec_fiber := None, ec_scheduler := None\<rparr>)
          in post (ec_scheduler ctx) ft (set_fd fd (setContext event left fc) io)))"

definition pending_dec :: "'cb iomanager \<Rightarrow> 'cb iomanager" where
  "pending_dec io = io\<lparr>io_pending := size_sub (io_pending io) 1\<rparr>"

text \<open>
  \<open>addEvent\<close>: \<open>this\<close> is \<open>Scheduler::GetThis()\<close>, \<open>fiber\<close> the calling fiber with its state, \<open>cb\<close> the
  callback if there is one. The result is the returned number.
\<close>

definition addEvent ::
  "bool \<Rightarrow> sref option \<Rightarrow> nat \<times> fiber_state \<Rightarrow> int \<Rightarrow> mask \<Rightarrow> 'cb option \<Rightarrow> 'cb iomanager \<Rightarrow> (int \<times> 'cb iomanager) res" where
  "addEvent ok this fiber fd event cb io =
     bindR (grow_for new_FdContext fd (io_ctxs io)) (\<lambda>ctxs.
       let io = io\<lparr>io_ctxs := ctxs\<rparr>; fd = nat fd; fc = ctxs ! fd in
       if fc_events fc AND event \<noteq> 0 then Inl AssertFail
       else
         case epoll_ctl ok (if fc_events fc \<noteq> 0 then EPOLL_CTL_MOD else EPOLL_CTL_ADD) fd
                (EPOLLET OR fc_events fc OR event) (io_epoll io) of (success, ep) \<Rightarrow>
         if \<not> success then Inr (-1, io)
         else
           bindR (getContext event fc) (\<lambda>ctx.
             if ec_scheduler ctx \<noteq> None \<or> ec_fiber ctx \<noteq> None \<or> ec_cb ctx \<noteq> None then Inl AssertFail
             else if cb = None \<and> snd fiber \<noteq> EXEC then Inl AssertFail
             else
               let ctx = (case cb of Some c \<Rightarrow> ctx\<lparr>ec_scheduler := this, ec_cb := Some c\<rparr>
                          | None \<Rightarrow> ctx\<lparr>ec_scheduler := this, ec_fiber := Some (fst fiber)\<rparr>)
               in Inr (0, set_fd fd (setContext event ctx (fc\<lparr>fc_events := fc_events fc OR event\<rparr>))
                     (io\<lparr>io_epoll := ep, io_pending := io_pending io + 1\<rparr>))))"

text \<open>
  The start of \<open>delEvent\<close>, \<open>cancelEvent\<close> and \<open>cancelAll\<close>: they return false for a descriptor
  beyond the table or without the event.
\<close>

definition no_event :: "int \<Rightarrow> mask \<Rightarrow> 'cb iomanager \<Rightarrow> bool res" where
  "no_event fd event io =
     (if int (length (io_ctxs io)) \<le> fd then Inr True
      else if fd < 0 then Inl OutOfBounds
      else Inr (fc_events (io_ctxs io ! nat fd) AND event = 0))"

text \<open>The change of the interest list when \<open>event\<close> goes away.\<close>

definition ctl_without :: "bool \<Rightarrow> nat \<Rightarrow> mask \<Rightarrow> 'cb iomanager \<Rightarrow> bool \<times> interest" where
  "ctl_without ok fd event io =
     (let new_events = fc_events (io_ctxs io ! fd) AND NOT event in
      epoll_ctl ok (if new_events \<noteq> 0 then EPOLL_CTL_MOD else EPOLL_CTL_DEL) fd (EPOLLET OR new_events) (io_epoll io))"

definition delEvent :: "bool \<Rightarrow> int \<Rightarrow> mask \<Rightarrow> 'cb iomanager \<Rightarrow> (bool \<times> 'cb iomanager) res" where
  "delEvent ok fd event io =
     bindR (no_event fd event io) (\<lambda>none.
       if none then Inr (False, io)
       else case ctl_without ok (nat fd) event io of (success, ep) \<Rightarrow>
         if \<not> success then Inr (False, io)
         else
           let fc = io_ctxs io ! nat fd; fc = fc\<lparr>fc_events := fc_events fc AND NOT event\<rparr> in
           bindR (getContext event fc) (\<lambda>_.
             Inr (True, set_fd (nat fd) (resetContext event fc) (pending_dec (io\<lparr>io_epoll := ep\<rparr>)))))"

definition cancelEvent :: "bool \<Rightarrow> int \<Rightarrow> mask \<Rightarrow> 'cb iomanager \<Rightarrow> (bool \<times> 'cb iomanager) res" where
  "cancelEvent ok fd event io =
     bindR (no_event fd event io) (\<lambda>none.
       if none then Inr (False, io)
       else case ctl_without ok (nat fd) event io of (success, ep) \<Rightarrow>
         if \<not> success then Inr (False, io)
         else bindR (triggerEvent (nat fd) event (io\<lparr>io_epoll := ep\<rparr>)) (\<lambda>io. Inr (True, pending_dec io)))"

text \<open>\<open>if(fd_ctx->events & event) { triggerEvent(event); --m_pendingEventCount; }\<close>.\<close>

definition trigger_if :: "bool \<Rightarrow> nat \<Rightarrow> mask \<Rightarrow> 'cb iomanager \<Rightarrow> 'cb iomanager res" where
  "trigger_if b fd event io = (if b then bindR (triggerEvent fd event io) (\<lambda>io. Inr (pending_dec io)) else Inr io)"

definition cancelAll :: "bool \<Rightarrow> int \<Rightarrow> 'cb iomanager \<Rightarrow> (bool \<times> 'cb iomanager) res" where
  "cancelAll ok fd io =
     (if int (length (io_ctxs io)) \<le> fd then Inr (False, io)
      else if fd < 0 then Inl OutOfBounds
      else if fc_events (io_ctxs io ! nat fd) = 0 then Inr (False, io)
      else case epoll_ctl ok EPOLL_CTL_DEL (nat fd) 0 (io_epoll io) of (success, ep) \<Rightarrow>
        if \<not> success then Inr (False, io)
        else
          let io = io\<lparr>io_epoll := ep\<rparr> in
          bindR (trigger_if (fc_events (io_ctxs io ! nat fd) AND READ \<noteq> 0) (nat fd) READ io) (\<lambda>io.
          bindR (trigger_if (fc_events (io_ctxs io ! nat fd) AND WRITE \<noteq> 0) (nat fd) WRITE io) (\<lambda>io.
            if fc_events (io_ctxs io ! nat fd) \<noteq> 0 then Inl AssertFail else Inr (True, io))))"

subsection \<open>The idle loop\<close>

text \<open>\<open>stopping\<close> with the time until the next timer.\<close>

definition io_stopping :: "u64 \<Rightarrow> 'cb iomanager \<Rightarrow> (bool \<times> u64) \<times> 'cb iomanager" where
  "io_stopping now io =
     (case getNextTimer now (io_timers io) of (timeout, tm) \<Rightarrow>
        ((timeout = - 1 \<and> io_pending io = 0 \<and> sched_stopping (io_sched io), timeout), io\<lparr>io_timers := tm\<rparr>))"

text \<open>One element of the array; an empty pipe ends the reading of the pipe.\<close>

definition idle_event :: "bool \<Rightarrow> epoll_event \<Rightarrow> 'cb iomanager \<Rightarrow> 'cb iomanager res" where
  "idle_event ok ev io =
     (case ev of
        Tickled \<Rightarrow> Inr (io\<lparr>io_pipe := 0\<rparr>)
      | Ready fd evs \<Rightarrow>
          if length (io_ctxs io) \<le> fd then Inl OutOfBounds
          else
            let fc = io_ctxs io ! fd; real = real_events evs in
            if fc_events fc AND real = 0 then Inr io
            else
              let left_events = fc_events fc AND NOT real in
              case epoll_ctl ok (if left_events \<noteq> 0 then EPOLL_CTL_MOD else EPOLL_CTL_DEL) fd
                     (EPOLLET OR left_events) (io_epoll io) of (success, ep) \<Rightarrow>
              if \<not> success then Inr io
              else
                bindR (trigger_if (real AND READ \<noteq> 0) fd READ (io\<lparr>io_epoll := ep\<rparr>)) (\<lambda>io.
                trigger_if (real AND WRITE \<noteq> 0) fd WRITE io))"

fun idle_events :: "(bool \<times> epoll_event) list \<Rightarrow> 'cb iomanager \<Rightarrow> 'cb iomanager res" where
  "idle_events [] io = Inr io"
| "idle_events ((ok, ev) # evs) io = bindR (idle_event ok ev io) (idle_events evs)"

text \<open>
  One round of \<open>idle\<close>; \<open>None\<close> is leaving the loop. \<open>wait\<close> is what \<open>epoll_wait\<close> returns for a
  timeout: the ready events, with what \<open>epoll_ctl\<close> will say about each. The expired timers are
  scheduled as callbacks.
\<close>

definition idle_round ::
  "nat \<Rightarrow> u64 \<Rightarrow> u64 \<Rightarrow> (int \<Rightarrow> (bool \<times> epoll_event) list) \<Rightarrow> 'cb iomanager \<Rightarrow> ('cb iomanager option \<times> 'cb iomanager) res" where
  "idle_round a0 now now' wait io =
     (case io_stopping now io of ((stop, next_timeout), io) \<Rightarrow>
        if stop \<and> next_timeout = - 1 then Inr (None, io)
        else
          let evs = wait (wait_timeout next_timeout) in
          bindR (listExpiredCb a0 now' [] (io_timers io)) (\<lambda>(cbs, tm).
            let io = io\<lparr>io_timers := tm\<rparr>;
                io = (if cbs \<noteq> [] then io_schedule_range (map (\<lambda>cb. cb_task cb (-1)) cbs) io else io)
            in bindR (idle_events evs io) (\<lambda>io. Inr (Some io, io))))"

definition onTimerInsertedAtFront :: "'cb iomanager \<Rightarrow> 'cb iomanager" where
  "onTimerInsertedAtFront io = io_tickle io"

subsection \<open>The invariant\<close>

definition armed :: "'cb evctx \<Rightarrow> bool" where
  "armed ctx \<longleftrightarrow> ec_scheduler ctx \<noteq> None \<and> (ec_cb ctx = None) \<noteq> (ec_fiber ctx = None)"

text \<open>A context carries work exactly for the registered events.\<close>

definition fc_inv :: "'cb evctx fdctx \<Rightarrow> bool" where
  "fc_inv fc \<longleftrightarrow> mask_ok (fc_events fc) \<and>
     (\<forall>e \<in> {READ, WRITE}. if has_event (fc_events fc) e then armed (ctx_of e fc) else ctx_of e fc = no_ctx)"

definition tab_inv :: "'cb evctx fdctx list \<Rightarrow> nat \<Rightarrow> bool" where
  "tab_inv ctxs pending \<longleftrightarrow> 2 \<le> length ctxs \<and> list_all fc_inv ctxs
     \<and> pending = (\<Sum>fc\<leftarrow>ctxs. event_count (fc_events fc))"

definition io_inv :: "'cb iomanager \<Rightarrow> bool" where
  "io_inv io \<longleftrightarrow> tab_inv (io_ctxs io) (io_pending io) \<and> watch_inv (io_ctxs io) (io_epoll io)"

lemma fc_inv_new: "fc_inv new_FdContext"
  by (simp add: fc_inv_def new_FdContext_def ctx_of_def)

lemma fc_inv_ctx:
  "fc_inv fc \<Longrightarrow> event_ok e \<Longrightarrow>
     if has_event (fc_events fc) e then armed (ctx_of e fc) else ctx_of e fc = no_ctx"
  unfolding fc_inv_def event_ok_def by blast

lemma fc_invI:
  "mask_ok (fc_events fc) \<Longrightarrow>
     (\<And>e. event_ok e \<Longrightarrow> if has_event (fc_events fc) e then armed (ctx_of e fc) else ctx_of e fc = no_ctx)
     \<Longrightarrow> fc_inv fc"
  unfolding fc_inv_def by simp

lemma fc_inv_set:
  assumes "fc_inv fc" "event_ok e" "armed ctx"
  shows "fc_inv (setContext e ctx (fc\<lparr>fc_events := fc_events fc OR e\<rparr>))"
    and "fc_inv (setContext e no_ctx (fc\<lparr>fc_events := fc_events fc AND NOT e\<rparr>))"
proof -
  have w: "mask_ok (fc_events fc)" using assms(1) by (simp add: fc_inv_def)
  have ok: "mask_ok (fc_events fc OR e)" "mask_ok (fc_events fc AND NOT e)" "has_event (fc_events fc OR e) e"
    "\<not> has_event (fc_events fc AND NOT e) e"
    by (rule mask_cases [OF w]; rule event_cases [OF assms(2)]; simp add: mask_eval)+
  show "fc_inv (setContext e ctx (fc\<lparr>fc_events := fc_events fc OR e\<rparr>))"
    "fc_inv (setContext e no_ctx (fc\<lparr>fc_events := fc_events fc AND NOT e\<rparr>))"
    using ok assms(3) mask_other [OF w assms(2)] fc_inv_ctx [OF assms(1)] assms(2)
    by (auto intro!: fc_invI)
qed

text \<open>Replacing one context changes the number of registered events by its own.\<close>

lemma tab_inv_update:
  assumes "tab_inv ctxs n" "fd < length ctxs" "fc_inv fc"
    and "n' + event_count (fc_events (ctxs ! fd)) = n + event_count (fc_events fc)"
  shows "tab_inv (ctxs[fd := fc]) n'"
proof -
  let ?f = "\<lambda>fc. event_count (fc_events fc)"
  have "sum_list (map ?f (ctxs[fd := fc])) = sum_list (map ?f ctxs) + ?f fc - ?f (ctxs ! fd)"
    using assms(2) by (simp add: map_update sum_list_update)
  moreover have "?f (ctxs ! fd) \<le> sum_list (map ?f ctxs)"
    using assms(2) member_le_sum_list [of "?f (ctxs ! fd)" "map ?f ctxs"] by simp
  ultimately show ?thesis
    using assms by (auto simp: tab_inv_def list_all_length nth_list_update)
qed

lemma tab_fc: "tab_inv ctxs n \<Longrightarrow> fd < length ctxs \<Longrightarrow> fc_inv (ctxs ! fd)"
  by (simp add: tab_inv_def list_all_length)

lemma fc_mask: "fc_inv fc \<Longrightarrow> mask_ok (fc_events fc)"
  by (simp add: fc_inv_def)

lemma io_inv_new:
  assumes "new_IOManager s tm ids = Inr io"
  shows "io_inv io"
proof -
  have "io_ctxs io = replicate 32 new_FdContext" "io_pending io = 0" "io_epoll io = Map.empty"
    using assms by (auto simp: new_IOManager_def contextResize_def res_simps)
  moreover have "tab_inv (replicate 32 new_FdContext) 0"
    by (simp add: tab_inv_def list_all_length fc_inv_new sum_list_replicate)
      (simp add: new_FdContext_def event_count_def)
  moreover have "watch_inv (replicate 32 new_FdContext) Map.empty"
    by (simp add: watch_inv_def events_at_def watch_def) (simp add: new_FdContext_def)
  ultimately show ?thesis by (simp add: io_inv_def)
qed

subsection \<open>Operations keep the invariant\<close>

named_theorems io_simps \<open>the parts of a manager that scheduling leaves alone\<close>

lemma io_tickle_fields [io_simps]:
  "io_ctxs (io_tickle io) = io_ctxs io" "io_pending (io_tickle io) = io_pending io"
  "io_epoll (io_tickle io) = io_epoll io"
  by (simp_all add: io_tickle_def)

lemma io_schedule_fields [io_simps]:
  "io_ctxs (io_schedule ft io) = io_ctxs io" "io_pending (io_schedule ft io) = io_pending io"
  "io_epoll (io_schedule ft io) = io_epoll io"
  by (simp_all add: io_schedule_def scheduleNoLock_def Let_def io_simps)

lemma io_schedule_range_fields [io_simps]:
  "io_ctxs (io_schedule_range fts io) = io_ctxs io" "io_pending (io_schedule_range fts io) = io_pending io"
  "io_epoll (io_schedule_range fts io) = io_epoll io"
  by (simp_all add: io_schedule_range_def Let_def io_simps split: prod.split)

lemma post_run:
  assumes "r \<noteq> None"
  shows "\<exists>io'. post r ft io = Inr io' \<and> io_ctxs io' = io_ctxs io \<and> io_pending io' = io_pending io
    \<and> io_epoll io' = io_epoll io"
proof -
  from assms obtain s where "r = Some s" by blast
  then show ?thesis by (cases s) (simp_all add: io_simps)
qed

text \<open>\<open>triggerEvent\<close> of a registered event succeeds and empties its context.\<close>

lemma trigger_run:
  assumes fc: "fc_inv (io_ctxs io ! fd)" and fd: "fd < length (io_ctxs io)" and e: "event_ok e"
    and reg: "has_event (fc_events (io_ctxs io ! fd)) e"
  defines "left \<equiv> setContext e no_ctx ((io_ctxs io ! fd)\<lparr>fc_events := fc_events (io_ctxs io ! fd) AND NOT e\<rparr>)"
  shows "\<exists>io'. triggerEvent fd e io = Inr io' \<and> io_ctxs io' = (io_ctxs io)[fd := left]
    \<and> io_pending io' = io_pending io \<and> io_epoll io' = io_epoll io"
proof -
  let ?fc = "(io_ctxs io ! fd)\<lparr>fc_events := fc_events (io_ctxs io ! fd) AND NOT e\<rparr>"
  let ?ctx = "ctx_of e (io_ctxs io ! fd)"
  have armed: "armed ?ctx" using fc_inv_ctx [OF fc e] reg by simp
  have clr: "ec_cb ?ctx \<noteq> None \<Longrightarrow> ?ctx\<lparr>ec_cb := None, ec_scheduler := None\<rparr> = no_ctx"
    "ec_cb ?ctx = None \<Longrightarrow> ?ctx\<lparr>ec_fiber := None, ec_scheduler := None\<rparr> = no_ctx"
    using armed by (cases ?ctx; auto simp: armed_def no_ctx_def)+
  define ft where "ft = (if ec_cb ?ctx \<noteq> None then cb_task (ec_cb ?ctx) (-1) else fiber_task (ec_fiber ?ctx) (-1))"
  have "triggerEvent fd e io = post (ec_scheduler ?ctx) ft (set_fd fd left io)"
    using reg clr by (simp add: triggerEvent_def Let_def getContext_ok [OF e] has_event_def left_def ft_def)
  moreover have "ec_scheduler ?ctx \<noteq> None" using armed by (simp add: armed_def)
  ultimately show ?thesis using post_run [of "ec_scheduler ?ctx" ft "set_fd fd left io"] by (auto simp: set_fd_def)
qed

lemma trigger_if_run:
  assumes tab: "tab_inv (io_ctxs io) (io_pending io)" and fd: "fd < length (io_ctxs io)" and e: "event_ok e"
    and reg: "b \<Longrightarrow> has_event (fc_events (io_ctxs io ! fd)) e"
  shows "\<exists>io'. trigger_if b fd e io = Inr io' \<and> tab_inv (io_ctxs io') (io_pending io')
    \<and> io_epoll io' = io_epoll io \<and> length (io_ctxs io') = length (io_ctxs io)
    \<and> (\<forall>i. i \<noteq> fd \<longrightarrow> io_ctxs io' ! i = io_ctxs io ! i)
    \<and> fc_events (io_ctxs io' ! fd) = (if b then fc_events (io_ctxs io ! fd) AND NOT e else fc_events (io_ctxs io ! fd))"
proof (cases b)
  case True
  let ?fc = "io_ctxs io ! fd"
  let ?left = "setContext e no_ctx (?fc\<lparr>fc_events := fc_events ?fc AND NOT e\<rparr>)"
  note fc = tab_fc [OF tab fd] and r = reg [OF True]
  obtain io' where run: "triggerEvent fd e io = Inr io'" "io_ctxs io' = (io_ctxs io)[fd := ?left]"
    "io_pending io' = io_pending io" "io_epoll io' = io_epoll io"
    using trigger_run [OF fc fd e r] by blast
  have "fc_inv ?left" using fc_inv_ctx [OF fc e] r fc_inv_set(2) [OF fc e] by simp
  moreover have "0 < io_pending io"
    using tab fd mask_del_all [OF fc_mask [OF fc] e r]
      member_le_sum_list [of "event_count (fc_events ?fc)" "map (\<lambda>fc. event_count (fc_events fc)) (io_ctxs io)"]
    by (simp add: tab_inv_def)
  ultimately have "tab_inv ((io_ctxs io)[fd := ?left]) (io_pending io - 1)"
    using mask_del_all [OF fc_mask [OF fc] e r] by (intro tab_inv_update [OF tab fd]) auto
  then show ?thesis using run True fd \<open>0 < io_pending io\<close> by (simp add: trigger_if_def pending_dec_def)
qed (use tab in \<open>simp add: trigger_if_def\<close>)

subsection \<open>Each operation\<close>

definition io_events :: "'cb iomanager \<Rightarrow> nat \<Rightarrow> mask" where
  "io_events io = events_at (io_ctxs io)"

text \<open>A grown table holds the same events.\<close>

lemma grow_inv:
  assumes "io_inv io" "0 \<le> fd"
  shows "\<exists>ctxs. grow_for new_FdContext fd (io_ctxs io) = Inr ctxs \<and> nat fd < length ctxs
    \<and> io_inv (io\<lparr>io_ctxs := ctxs\<rparr>) \<and> events_at ctxs = events_at (io_ctxs io)"
proof -
  have tab: "2 \<le> length (io_ctxs io)" "list_all fc_inv (io_ctxs io)"
    "io_pending io = (\<Sum>fc\<leftarrow>io_ctxs io. event_count (fc_events fc))"
    using assms(1) by (simp_all add: io_inv_def tab_inv_def)
  obtain ctxs where g: "grow_for new_FdContext fd (io_ctxs io) = Inr ctxs" "nat fd < length ctxs"
    "length (io_ctxs io) \<le> length ctxs"
    "\<forall>i < length ctxs. ctxs ! i = (if i < length (io_ctxs io) then io_ctxs io ! i else new_FdContext)"
    using grow_for_run [OF assms(2) tab(1), of new_FdContext] by blast
  have split: "ctxs = io_ctxs io @ replicate (length ctxs - length (io_ctxs io)) new_FdContext"
    using g(3,4) by (intro nth_equalityI) (simp_all add: nth_append)
  have e: "fc_events new_FdContext = 0" "event_count 0 = 0" by (simp_all add: new_FdContext_def event_count_def)
  have "tab_inv ctxs (io_pending io)"
    using tab by (subst split, subst tab_inv_def)
      (auto simp: sum_list_replicate e fc_inv_new list_all_iff)
  moreover have ev: "events_at ctxs = events_at (io_ctxs io)"
    using g(3,4) e by (auto simp: events_at_def)
  ultimately show ?thesis using g(1,2) assms(1) by (auto simp: io_inv_def watch_inv_def)
qed

lemma add_run:
  assumes inv: "io_inv io" and fd: "0 \<le> fd" and e: "event_ok e" and sch: "this \<noteq> None"
    and free: "\<not> has_event (io_events io (nat fd)) e" and fib: "cb = None \<Longrightarrow> snd fiber = EXEC"
  shows "\<exists>io'. addEvent ok this fiber fd e cb io = Inr (if ok then 0 else -1, io') \<and> io_inv io'
    \<and> io_events io' = (if ok then (io_events io)(nat fd := io_events io (nat fd) OR e) else io_events io)"
proof -
  obtain ctxs where g: "grow_for new_FdContext fd (io_ctxs io) = Inr ctxs" "nat fd < length ctxs"
    and inv': "io_inv (io\<lparr>io_ctxs := ctxs\<rparr>)" and ev: "events_at ctxs = events_at (io_ctxs io)"
    using grow_inv [OF inv fd] by blast
  let ?fc = "ctxs ! nat fd"
  have tab: "tab_inv ctxs (io_pending io)" and w: "watch_inv ctxs (io_epoll io)"
    using inv' by (simp_all add: io_inv_def)
  note fc = tab_fc [OF tab g(2)]
  have at: "io_events io (nat fd) = fc_events ?fc"
    using g(2) ev [symmetric] by (simp add: io_events_def) (simp add: events_at_def)
  have free': "\<not> has_event (fc_events ?fc) e" using free at by simp
  note add = mask_add_all [OF fc_mask [OF fc] e free']
  have ctl: "epoll_ctl ok (if fc_events ?fc \<noteq> 0 then EPOLL_CTL_MOD else EPOLL_CTL_ADD) (nat fd)
      (EPOLLET OR fc_events ?fc OR e) (io_epoll io) = (if ok then (True, (io_epoll io)(nat fd := watch (fc_events ?fc OR e))) else (False, io_epoll io))"
    by (rule ctl_add [OF w g(2)]) (use add in blast)
  show ?thesis
  proof (cases ok)
    case False
    then show ?thesis using g(1) ctl free' inv' ev
      by (auto simp: addEvent_def Let_def has_event_def io_events_def)
  next
    case True
    have ctx: "ctx_of e ?fc = no_ctx" using fc_inv_ctx [OF fc e] free' by simp
    define ctx' where "ctx' = (case cb of Some c \<Rightarrow> (no_ctx :: 'a evctx)\<lparr>ec_scheduler := this, ec_cb := Some c\<rparr>
        | None \<Rightarrow> no_ctx\<lparr>ec_scheduler := this, ec_fiber := Some (fst fiber)\<rparr>)"
    let ?new = "setContext e ctx' (?fc\<lparr>fc_events := fc_events ?fc OR e\<rparr>)"
    let ?io = "set_fd (nat fd) ?new (io\<lparr>io_ctxs := ctxs, io_epoll := (io_epoll io)(nat fd := watch (fc_events ?fc OR e)),
        io_pending := io_pending io + 1\<rparr>)"
    have "addEvent ok this fiber fd e cb io = Inr (0, ?io)"
      using True g(1) ctl free' fib ctx
      by (auto simp: addEvent_def Let_def has_event_def getContext_ok [OF e] no_ctx_def ctx'_def split: option.splits)
    moreover have "armed ctx'" using sch by (auto simp: ctx'_def armed_def no_ctx_def split: option.split)
    then have "tab_inv (ctxs[nat fd := ?new]) (io_pending io + 1)"
      using add fc_inv_set(1) [OF fc e] by (intro tab_inv_update [OF tab g(2)]) simp_all
    then have "io_inv ?io" using watch_inv_update [OF w g(2), of ?new] by (simp add: io_inv_def set_fd_def)
    moreover have "io_events ?io = (io_events io)(nat fd := io_events io (nat fd) OR e)"
      using at events_at_update [OF g(2)] ev by (simp add: io_events_def set_fd_def)
    ultimately show ?thesis using True by auto
  qed
qed

lemma no_event_run:
  assumes "0 \<le> fd"
  shows "no_event fd e io = Inr (\<not> has_event (io_events io (nat fd)) e)"
  using assms by (auto simp: no_event_def io_events_def events_at_def has_event_def)

lemma io_events_at: "has_event (io_events io fd) e \<Longrightarrow> fd < length (io_ctxs io) \<and> io_events io fd = fc_events (io_ctxs io ! fd)"
  by (simp add: io_events_def events_at_def split: if_splits)

lemma del_run:
  assumes inv: "io_inv io" and fd: "0 \<le> fd" and e: "event_ok e" and reg: "has_event (io_events io (nat fd)) e"
  shows "\<exists>io'. delEvent ok fd e io = Inr (ok, io') \<and> io_inv io'
    \<and> io_events io' = (if ok then (io_events io)(nat fd := io_events io (nat fd) AND NOT e) else io_events io)"
proof -
  let ?fc = "io_ctxs io ! nat fd"
  have at: "nat fd < length (io_ctxs io)" "io_events io (nat fd) = fc_events ?fc" using io_events_at [OF reg] by auto
  have tab: "tab_inv (io_ctxs io) (io_pending io)" and w: "watch_inv (io_ctxs io) (io_epoll io)"
    using inv by (simp_all add: io_inv_def)
  note fc = tab_fc [OF tab at(1)]
  have reg': "has_event (fc_events ?fc) e" using reg at(2) by simp
  note del = mask_del_all [OF fc_mask [OF fc] e reg']
  have ctl: "ctl_without ok (nat fd) e io = (if ok then (True, (io_epoll io)(nat fd := watch (fc_events ?fc AND NOT e))) else (False, io_epoll io))"
    unfolding ctl_without_def Let_def by (rule ctl_watch [OF w at(1)]) (use reg' in auto)
  let ?left = "setContext e no_ctx (?fc\<lparr>fc_events := fc_events ?fc AND NOT e\<rparr>)"
  have pos: "0 < io_pending io"
    using tab at(1) del member_le_sum_list [of "event_count (fc_events ?fc)" "map (\<lambda>fc. event_count (fc_events fc)) (io_ctxs io)"]
    by (auto simp: tab_inv_def)
  have "fc_inv ?left" using fc_inv_ctx [OF fc e] reg' fc_inv_set(2) [OF fc e] by simp
  then have tab': "tab_inv ((io_ctxs io)[nat fd := ?left]) (io_pending io - 1)"
    using del pos by (intro tab_inv_update [OF tab at(1)]) auto
  show ?thesis
  proof (cases ok)
    case True
    let ?io = "set_fd (nat fd) ?left (pending_dec (io\<lparr>io_epoll := (io_epoll io)(nat fd := watch (fc_events ?fc AND NOT e))\<rparr>))"
    have "delEvent ok fd e io = Inr (True, ?io)"
      using True ctl reg by (simp add: delEvent_def no_event_run [OF fd] Let_def getContext_ok [OF e] resetContext_def)
    moreover have "io_inv ?io" using tab' pos watch_inv_update [OF w at(1), of ?left]
      by (simp add: io_inv_def set_fd_def pending_dec_def)
    moreover have "io_events ?io = (io_events io)(nat fd := io_events io (nat fd) AND NOT e)"
      using at events_at_update [OF at(1)] by (simp add: io_events_def set_fd_def pending_dec_def)
    ultimately show ?thesis using True by auto
  next
    case False
    then show ?thesis using ctl reg inv by (simp add: delEvent_def no_event_run [OF fd])
  qed
qed

subsection \<open>Triggering operations\<close>

text \<open>The end of an operation that has changed the interest list first and one context after it.\<close>

lemma settle:
  assumes "watch_inv (io_ctxs io) ep" "fd < length (io_ctxs io)" "tab_inv (io_ctxs io') (io_pending io')"
    and "length (io_ctxs io') = length (io_ctxs io)" "\<forall>i. i \<noteq> fd \<longrightarrow> io_ctxs io' ! i = io_ctxs io ! i"
    and "io_epoll io' = ep(fd := watch w)" "fc_events (io_ctxs io' ! fd) = w"
  shows "io_inv io' \<and> io_events io' = (io_events io)(fd := w)"
proof -
  have "watch_inv (io_ctxs io') (io_epoll io')"
    using watch_inv_at [OF assms(1,4,5,2)] unfolding assms(6,7) .
  moreover have "io_events io' = (io_events io)(fd := w)"
    using assms(2,4,5,7) by (auto simp: io_events_def events_at_def fun_eq_iff)
  ultimately show ?thesis using assms(3) by (simp add: io_inv_def)
qed

lemma cancel_run:
  assumes inv: "io_inv io" and fd: "0 \<le> fd" and e: "event_ok e" and reg: "has_event (io_events io (nat fd)) e"
  shows "\<exists>io'. cancelEvent ok fd e io = Inr (ok, io') \<and> io_inv io'
    \<and> io_events io' = (if ok then (io_events io)(nat fd := io_events io (nat fd) AND NOT e) else io_events io)"
proof (cases ok)
  case True
  let ?fc = "io_ctxs io ! nat fd" let ?w = "fc_events ?fc AND NOT e"
  let ?io = "io\<lparr>io_epoll := (io_epoll io)(nat fd := watch ?w)\<rparr>"
  have at: "nat fd < length (io_ctxs io)" "io_events io (nat fd) = fc_events ?fc" using io_events_at [OF reg] by auto
  have tab: "tab_inv (io_ctxs io) (io_pending io)" and w: "watch_inv (io_ctxs io) (io_epoll io)"
    using inv by (simp_all add: io_inv_def)
  have reg': "has_event (fc_events ?fc) e" using reg at(2) by simp
  have ctl: "ctl_without ok (nat fd) e io = (True, (io_epoll io)(nat fd := watch ?w))"
    unfolding ctl_without_def Let_def ctl_watch [OF w at(1) has_event_nonzero [OF reg']] using True by simp
  obtain io' where t: "trigger_if True (nat fd) e ?io = Inr io'" "tab_inv (io_ctxs io') (io_pending io')"
    "io_epoll io' = (io_epoll io)(nat fd := watch ?w)" "length (io_ctxs io') = length (io_ctxs io)"
    "\<forall>i. i \<noteq> nat fd \<longrightarrow> io_ctxs io' ! i = io_ctxs io ! i" "fc_events (io_ctxs io' ! nat fd) = ?w"
    using trigger_if_run [of ?io "nat fd" e True] tab at(1) e reg' by auto
  have "cancelEvent ok fd e io = Inr (True, io')"
    using t(1) ctl reg True by (auto simp: cancelEvent_def no_event_run [OF fd] trigger_if_def res_simps)
  then show ?thesis using settle [OF w at(1) t(2,4,5,3,6)] at True by simp
next
  case False
  have "ctl_without False (nat fd) e io = (False, io_epoll io)"
    unfolding ctl_without_def Let_def by simp
  then show ?thesis using False reg inv by (simp add: cancelEvent_def no_event_run [OF fd])
qed

lemma triggers_run:
  assumes tab: "tab_inv (io_ctxs io) (io_pending io)" and fd: "fd < length (io_ctxs io)"
    and reg: "b1 \<Longrightarrow> has_event (fc_events (io_ctxs io ! fd)) READ" "b2 \<Longrightarrow> has_event (fc_events (io_ctxs io ! fd)) WRITE"
  shows "\<exists>io1 io'. trigger_if b1 fd READ io = Inr io1 \<and> trigger_if b2 fd WRITE io1 = Inr io'
    \<and> tab_inv (io_ctxs io') (io_pending io') \<and> io_epoll io' = io_epoll io
    \<and> length (io_ctxs io') = length (io_ctxs io) \<and> (\<forall>i. i \<noteq> fd \<longrightarrow> io_ctxs io' ! i = io_ctxs io ! i)
    \<and> has_event (fc_events (io_ctxs io1 ! fd)) WRITE = has_event (fc_events (io_ctxs io ! fd)) WRITE
    \<and> fc_events (io_ctxs io' ! fd) =
       fc_events (io_ctxs io ! fd) AND NOT ((if b1 then READ else 0) OR (if b2 then WRITE else 0))"
proof -
  obtain io1 where 1: "trigger_if b1 fd READ io = Inr io1" "tab_inv (io_ctxs io1) (io_pending io1)"
    "io_epoll io1 = io_epoll io" "length (io_ctxs io1) = length (io_ctxs io)"
    "\<forall>i. i \<noteq> fd \<longrightarrow> io_ctxs io1 ! i = io_ctxs io ! i"
    "fc_events (io_ctxs io1 ! fd) = (if b1 then fc_events (io_ctxs io ! fd) AND NOT READ else fc_events (io_ctxs io ! fd))"
    using trigger_if_run [OF tab fd _ reg(1)] by auto
  have h: "has_event (fc_events (io_ctxs io1 ! fd)) WRITE = has_event (fc_events (io_ctxs io ! fd)) WRITE"
    using 1(6) mask_other [OF fc_mask [OF tab_fc [OF tab fd]], of READ WRITE] by simp
  obtain io' where 2: "trigger_if b2 fd WRITE io1 = Inr io'" "tab_inv (io_ctxs io') (io_pending io')"
    "io_epoll io' = io_epoll io1" "length (io_ctxs io') = length (io_ctxs io1)"
    "\<forall>i. i \<noteq> fd \<longrightarrow> io_ctxs io' ! i = io_ctxs io1 ! i"
    "fc_events (io_ctxs io' ! fd) = (if b2 then fc_events (io_ctxs io1 ! fd) AND NOT WRITE else fc_events (io_ctxs io1 ! fd))"
    using trigger_if_run [OF 1(2), of fd WRITE b2] fd 1(4) h reg(2) by auto
  have "fc_events (io_ctxs io' ! fd) = fc_events (io_ctxs io ! fd) AND NOT ((if b1 then READ else 0) OR (if b2 then WRITE else 0))"
    using 2(6) 1(6) by (simp add: and.assoc flip: bit.de_Morgan_disj)
  then show ?thesis using 1 2 h by auto
qed

lemma cancelAll_run:
  assumes inv: "io_inv io" and fd: "0 \<le> fd" and reg: "io_events io (nat fd) \<noteq> 0"
  shows "\<exists>io'. cancelAll ok fd io = Inr (ok, io') \<and> io_inv io'
    \<and> io_events io' = (if ok then (io_events io)(nat fd := 0) else io_events io)"
proof -
  let ?fc = "io_ctxs io ! nat fd"
  have at: "nat fd < length (io_ctxs io)" "io_events io (nat fd) = fc_events ?fc"
    using reg by (auto simp: io_events_def events_at_def split: if_splits)
  have tab: "tab_inv (io_ctxs io) (io_pending io)" and w: "watch_inv (io_ctxs io) (io_epoll io)"
    using inv by (simp_all add: io_inv_def)
  note ok = fc_mask [OF tab_fc [OF tab at(1)]]
  have pre: "\<not> int (length (io_ctxs io)) \<le> fd" "\<not> fd < 0" "fc_events ?fc \<noteq> 0" using at reg fd by auto
  have ep: "io_epoll io (nat fd) \<noteq> None" using watch_at [OF w at(1)] pre(3) by (simp add: watch_def)
  show ?thesis
  proof (cases ok)
    case True
    let ?io = "io\<lparr>io_epoll := (io_epoll io)(nat fd := None)\<rparr>"
    obtain io1 io' where t: "trigger_if (has_event (fc_events ?fc) READ) (nat fd) READ ?io = Inr io1"
      "trigger_if (has_event (fc_events ?fc) WRITE) (nat fd) WRITE io1 = Inr io'"
      "tab_inv (io_ctxs io') (io_pending io')" "io_epoll io' = (io_epoll io)(nat fd := None)"
      "length (io_ctxs io') = length (io_ctxs io)" "\<forall>i. i \<noteq> nat fd \<longrightarrow> io_ctxs io' ! i = io_ctxs io ! i"
      "has_event (fc_events (io_ctxs io1 ! nat fd)) WRITE = has_event (fc_events ?fc) WRITE"
      "fc_events (io_ctxs io' ! nat fd) = fc_events ?fc AND NOT ((if has_event (fc_events ?fc) READ then READ else 0)
          OR (if has_event (fc_events ?fc) WRITE then WRITE else 0))"
      using triggers_run [of ?io "nat fd" "has_event (fc_events ?fc) READ" "has_event (fc_events ?fc) WRITE"] tab at(1)
      by auto
    have zero: "fc_events (io_ctxs io' ! nat fd) = 0"
      unfolding t(8) by (rule mask_cases [OF ok]) (simp_all add: mask_eval)
    have "cancelAll ok fd io = Inr (True, io')"
      using True pre ep t(1,2,7) zero by (simp add: cancelAll_def Let_def flip: has_event_def)
    moreover have "io_epoll io' = (io_epoll io)(nat fd := watch 0)" using t(4) by (simp add: watch_def)
    ultimately show ?thesis using settle [OF w at(1) t(3,5,6) _ zero] True by simp
  next
    case False
    then show ?thesis using pre inv by (simp add: cancelAll_def)
  qed
qed

subsection \<open>Ready events\<close>

lemma real_split:
  assumes "mask_ok r"
  shows "(if has_event r READ then READ else 0) OR (if has_event r WRITE then WRITE else 0) = r"
  by (rule mask_cases [OF assms]) (simp_all add: mask_eval)

text \<open>All reported events are registered.\<close>

definition all_registered :: "mask \<Rightarrow> mask \<Rightarrow> bool" where
  "all_registered r w \<longleftrightarrow> (\<forall>e \<in> {READ, WRITE}. has_event r e \<longrightarrow> has_event w e)"

lemma idle_event_run:
  assumes "io_inv io" and fd: "fd < length (io_ctxs io)" and some: "fc_events (io_ctxs io ! fd) AND real_events evs \<noteq> 0"
  shows "idle_event True (Ready fd evs) io =
    bindR (trigger_if (has_event (real_events evs) READ) fd READ
        (io\<lparr>io_epoll := (io_epoll io)(fd := watch (fc_events (io_ctxs io ! fd) AND NOT (real_events evs)))\<rparr>))
      (trigger_if (has_event (real_events evs) WRITE) fd WRITE)"
proof -
  have w: "watch_inv (io_ctxs io) (io_epoll io)" using assms(1) by (simp add: io_inv_def)
  have nz: "fc_events (io_ctxs io ! fd) \<noteq> 0" using some by auto
  show ?thesis using fd some by (simp add: idle_event_def Let_def ctl_watch [OF w fd nz] has_event_def)
qed

lemma idle_event_registered:
  assumes inv: "io_inv io" and fd: "fd < length (io_ctxs io)" and real: "real_events evs \<noteq> 0"
    and reg: "all_registered (real_events evs) (io_events io fd)"
  shows "\<exists>io'. idle_event True (Ready fd evs) io = Inr io' \<and> io_inv io'
    \<and> io_events io' = (io_events io)(fd := io_events io fd AND NOT (real_events evs))"
proof -
  let ?fc = "io_ctxs io ! fd" and ?r = "real_events evs"
  have at: "io_events io fd = fc_events ?fc" using fd by (simp add: io_events_def events_at_def)
  have tab: "tab_inv (io_ctxs io) (io_pending io)" and w: "watch_inv (io_ctxs io) (io_epoll io)"
    using inv by (simp_all add: io_inv_def)
  have m: "mask_ok (fc_events ?fc)" by (rule fc_mask [OF tab_fc [OF tab fd]])
  have reg': "has_event ?r READ \<Longrightarrow> has_event (fc_events ?fc) READ" "has_event ?r WRITE \<Longrightarrow> has_event (fc_events ?fc) WRITE"
    using reg at by (simp_all add: all_registered_def)
  have some: "fc_events ?fc AND ?r \<noteq> 0"
    using reg' real by (rule_tac mask_cases [OF m]; rule_tac mask_cases [OF real_events_ok [of evs]]; simp add: mask_eval)
  let ?io = "io\<lparr>io_epoll := (io_epoll io)(fd := watch (fc_events ?fc AND NOT ?r))\<rparr>"
  obtain io1 io' where t: "trigger_if (has_event ?r READ) fd READ ?io = Inr io1"
    "trigger_if (has_event ?r WRITE) fd WRITE io1 = Inr io'" "tab_inv (io_ctxs io') (io_pending io')"
    "io_epoll io' = (io_epoll io)(fd := watch (fc_events ?fc AND NOT ?r))"
    "length (io_ctxs io') = length (io_ctxs io)" "\<forall>i. i \<noteq> fd \<longrightarrow> io_ctxs io' ! i = io_ctxs io ! i"
    "fc_events (io_ctxs io' ! fd) = fc_events ?fc AND NOT ?r"
    using triggers_run [of ?io fd "has_event ?r READ" "has_event ?r WRITE"] tab fd reg'
    unfolding real_split [OF real_events_ok] by auto
  have "idle_event True (Ready fd evs) io = Inr io'"
    using idle_event_run [OF inv fd some] t(1,2) by simp
  then show ?thesis using settle [OF w fd t(3,5,6,4,7)] at by simp
qed

text \<open>
  One reported event is registered and another one is not: the assertion of \<open>triggerEvent\<close> fails.
\<close>

lemma trigger_unregistered: "\<not> has_event (fc_events (io_ctxs io ! fd)) e \<Longrightarrow> triggerEvent fd e io = Inl AssertFail"
  by (simp add: triggerEvent_def has_event_def)

lemma idle_event_stray:
  assumes inv: "io_inv io" and fd: "fd < length (io_ctxs io)"
    and some: "io_events io fd AND real_events evs \<noteq> 0" and stray: "\<not> all_registered (real_events evs) (io_events io fd)"
  shows "idle_event True (Ready fd evs) io = Inl AssertFail"
proof -
  let ?fc = "io_ctxs io ! fd" and ?r = "real_events evs"
  let ?io = "io\<lparr>io_epoll := (io_epoll io)(fd := watch (fc_events ?fc AND NOT ?r))\<rparr>"
  have at: "io_events io fd = fc_events ?fc" using fd by (simp add: io_events_def events_at_def)
  have tab: "tab_inv (io_ctxs io) (io_pending io)" and w: "watch_inv (io_ctxs io) (io_epoll io)"
    using inv by (simp_all add: io_inv_def)
  have run: "idle_event True (Ready fd evs) io =
      bindR (trigger_if (has_event ?r READ) fd READ ?io) (trigger_if (has_event ?r WRITE) fd WRITE)"
    by (rule idle_event_run [OF inv fd]) (use some at in simp)
  show ?thesis
  proof (cases "has_event ?r READ \<longrightarrow> has_event (fc_events ?fc) READ")
    case False
    then show ?thesis using run trigger_unregistered [of ?io fd READ] by (simp add: trigger_if_def)
  next
    case True
    then have wr: "has_event ?r WRITE" "\<not> has_event (fc_events ?fc) WRITE" using stray at by (auto simp: all_registered_def)
    obtain io1 where t: "trigger_if (has_event ?r READ) fd READ ?io = Inr io1"
      "has_event (fc_events (io_ctxs io1 ! fd)) WRITE = has_event (fc_events ?fc) WRITE"
      using triggers_run [of ?io fd "has_event ?r READ" False] tab fd True by auto
    then show ?thesis using run wr trigger_unregistered [of io1 fd WRITE] by (simp add: trigger_if_def)
  qed
qed

lemma idle_event_inv:
  assumes inv: "io_inv io" and run: "idle_event ok ev io = Inr io'"
  shows "io_inv io'"
proof (cases ev)
  case Tickled
  then show ?thesis using inv run by (auto simp: idle_event_def io_inv_def)
next
  case (Ready fd evs)
  have fd: "fd < length (io_ctxs io)" using run Ready by (auto simp: idle_event_def split: if_splits)
  have at: "io_events io fd = fc_events (io_ctxs io ! fd)" using fd by (simp add: io_events_def events_at_def)
  consider "fc_events (io_ctxs io ! fd) AND real_events evs = 0" | "\<not> ok"
    | "fc_events (io_ctxs io ! fd) AND real_events evs \<noteq> 0" ok by blast
  then show ?thesis
  proof cases
    case 1
    then show ?thesis using run Ready fd inv by (simp add: idle_event_def Let_def)
  next
    case 2
    then show ?thesis using run Ready fd inv by (auto simp: idle_event_def Let_def split: if_splits)
  next
    case 3
    then have "all_registered (real_events evs) (io_events io fd)"
      using idle_event_stray [OF inv fd, of evs] run Ready at by auto
    moreover have "real_events evs \<noteq> 0" using 3(1) by auto
    ultimately show ?thesis using idle_event_registered [OF inv fd, of evs] run Ready 3(2) by auto
  qed
qed

subsection \<open>Steps\<close>

text \<open>
  The operations that return, called by threads that run under some scheduler, in any order;
  \<open>Sched\<close> is anything the threads do to the scheduler, the timers and the pipe.
\<close>

inductive io_step :: "'cb iomanager \<Rightarrow> 'cb iomanager \<Rightarrow> bool" where
  Add: "0 \<le> fd \<Longrightarrow> event_ok e \<Longrightarrow> this \<noteq> None \<Longrightarrow> addEvent ok this fiber fd e cb io = Inr (r, io') \<Longrightarrow> io_step io io'"
| Del: "0 \<le> fd \<Longrightarrow> event_ok e \<Longrightarrow> delEvent ok fd e io = Inr (b, io') \<Longrightarrow> io_step io io'"
| Cancel: "0 \<le> fd \<Longrightarrow> event_ok e \<Longrightarrow> cancelEvent ok fd e io = Inr (b, io') \<Longrightarrow> io_step io io'"
| CancelAll: "0 \<le> fd \<Longrightarrow> cancelAll ok fd io = Inr (b, io') \<Longrightarrow> io_step io io'"
| Ready: "idle_event ok ev io = Inr io' \<Longrightarrow> io_step io io'"
| Sched: "io_step io (io\<lparr>io_sched := s, io_timers := tm, io_pipe := n\<rparr>)"

inductive_cases io_stepE: "io_step io io'"

lemma add_inv:
  assumes "io_inv io" "0 \<le> fd" "event_ok e" "this \<noteq> None" "addEvent ok this fiber fd e cb io = Inr (r, io')"
  shows "io_inv io'"
proof -
  obtain ctxs where g: "grow_for new_FdContext fd (io_ctxs io) = Inr ctxs" "nat fd < length ctxs"
    and inv: "io_inv (io\<lparr>io_ctxs := ctxs\<rparr>)" and ev: "events_at ctxs = events_at (io_ctxs io)"
    using grow_inv [OF assms(1,2)] by blast
  have "io_events io (nat fd) = fc_events (ctxs ! nat fd)"
    using g(2) ev [symmetric] by (simp add: io_events_def) (simp add: events_at_def)
  then have free: "\<not> has_event (io_events io (nat fd)) e"
    using assms(5) g(1) unfolding has_event_def addEvent_def Let_def by (simp split: if_split_asm)
  show ?thesis
  proof (cases "cb = None \<and> snd fiber \<noteq> EXEC")
    case True
    then have "io' = io\<lparr>io_ctxs := ctxs\<rparr>"
      using assms(5) g(1) getContext_ok [OF assms(3)]
      by (auto simp: addEvent_def Let_def res_simps split: if_splits prod.splits)
    then show ?thesis using inv by simp
  next
    case False
    then show ?thesis using add_run [OF assms(1-4) free, of cb fiber ok] assms(5) by auto
  qed
qed

lemma io_step_inv: "io_step io io' \<Longrightarrow> io_inv io \<Longrightarrow> io_inv io'"
proof (induction rule: io_step.induct)
  case (Add fd e this ok fiber cb io r io')
  then show ?case using add_inv by blast
next
  case (Del fd e ok io b io')
  then show ?case using del_run [OF Del(4,1,2), of ok]
    by (cases "has_event (io_events io (nat fd)) e") (auto simp: delEvent_def no_event_run)
next
  case (Cancel fd e ok io b io')
  then show ?case using cancel_run [OF Cancel(4,1,2), of ok]
    by (cases "has_event (io_events io (nat fd)) e") (auto simp: cancelEvent_def no_event_run)
next
  case (CancelAll fd ok io b io')
  show ?case
  proof (cases "io_events io (nat fd) = 0")
    case True
    then show ?thesis using CancelAll
      by (auto simp: cancelAll_def io_events_def events_at_def split: if_splits)
  next
    case False
    then show ?thesis using cancelAll_run [OF CancelAll(3,1) False, of ok] CancelAll(2) by auto
  qed
next
  case (Ready ok ev io io')
  then show ?case using idle_event_inv by blast
qed (simp add: io_inv_def)

interpretation io: event_table io_inv io_events io_epoll io_step
proof
  fix m :: "'a iomanager" and m' fd
  show "io_inv m \<Longrightarrow> io_step m m' \<Longrightarrow> io_inv m'" by (rule io_step_inv)
  show "io_inv m \<Longrightarrow> io_epoll m fd = (if io_events m fd = 0 then None else Some (EPOLLET OR io_events m fd))"
    by (simp add: io_inv_def watch_inv_def watch_def io_events_def)
  show "io_inv m \<Longrightarrow> mask_ok (io_events m fd)"
    by (simp add: io_inv_def io_events_def events_at_def tab_inv_def list_all_length fc_inv_def)
qed

subsection \<open>Properties\<close>

lemma schedule_range_queue:
  "m_fibers (snd (schedule_range_loop fts b s)) = m_fibers s @ filter has_work fts"
  by (induction fts arbitrary: b s) (simp_all add: scheduleNoLock_def)

lemma io_schedule_range_queue:
  "m_fibers (io_sched (io_schedule_range fts io)) = m_fibers (io_sched io) @ filter has_work fts"
  using schedule_range_queue [of fts False "io_sched io"]
  by (auto simp: io_schedule_range_def Let_def io_tickle_def split: prod.split)

definition demo_scheduler :: "nat scheduler" where
  "demo_scheduler = \<lparr>m_fibers = [], m_rootFiber = False, m_threads = 0, m_threadIds = [], m_threadCount = 1,
     m_activeThreadCount = 0, m_idleThreadCount = 1, m_stopping = True, m_autoStop = False, m_rootThread = -1\<rparr>"

definition demo_io :: "nat iomanager" where
  "demo_io = projr (new_IOManager demo_scheduler two_timers [1])"

lemma demo_io_new: "new_IOManager demo_scheduler two_timers [1] = Inr demo_io"
  by (simp add: demo_io_def new_IOManager_def sched_start_def demo_scheduler_def)



text \<open>
  A hang-up or an error on a descriptor that is registered for one of the two events only
  aborts the process: \<open>idle\<close> adds both events to what was reported and \<open>triggerEvent\<close> asserts that
  they are registered.
\<close>

lemma hangup_aborts:
  assumes "new_IOManager s tm ids = Inr io0" "io_step\<^sup>*\<^sup>* io0 io" "fd < length (io_ctxs io)"
    and "io_events io fd = READ \<or> io_events io fd = WRITE" "evs AND (EPOLLERR OR EPOLLHUP) \<noteq> 0"
  shows "idle_event True (Ready fd evs) io = Inl AssertFail"
proof -
  have inv: "io_inv io" using io.steps_good [OF assms(2) io_inv_new [OF assms(1)]] .
  have "bit ((evs OR (EPOLLIN OR EPOLLOUT)) AND EPOLLIN) 0" "bit ((evs OR (EPOLLIN OR EPOLLOUT)) AND EPOLLOUT) 2"
    by (simp_all add: mask_defs bit_simps)
  then have "(evs OR (EPOLLIN OR EPOLLOUT)) AND EPOLLIN \<noteq> 0" "(evs OR (EPOLLIN OR EPOLLOUT)) AND EPOLLOUT \<noteq> 0"
    by (metis bit_0_eq bot_apply bot_bool_def)+
  then have "real_events evs = READ OR WRITE" using assms(5) by (simp add: real_events_def)
  then show ?thesis
    using assms(4) by (intro idle_event_stray [OF inv assms(3)]) (auto simp: all_registered_def mask_eval)
qed


lemma hangup_aborts_example:
  "\<exists>io. addEvent True (Some Self) (0, EXEC) 7 READ (Some 5) demo_io = Inr (0, io)
    \<and> idle_event True (Ready 7 EPOLLHUP) io = Inl AssertFail"
proof -
  have free: "\<not> has_event (io_events demo_io (nat 7)) READ" "io_events demo_io 7 = 0" by code_simp+
  obtain io where io: "addEvent True (Some Self) (0, EXEC) 7 READ (Some 5) demo_io = Inr (0, io)"
    "io_events io = (io_events demo_io)(7 := READ)"
    using add_run [OF io_inv_new [OF demo_io_new], of 7 READ "Some Self" "Some 5" "(0, EXEC)" True] free by auto
  have "io_step demo_io io" using io(1) by (intro Add [of 7 READ "Some Self"]) simp_all
  moreover have "7 < length (io_ctxs io)"
    using io(2) by (auto simp: io_events_def events_at_def fun_eq_iff mask_defs dest: spec [of _ 7] split: if_splits)
  ultimately have "idle_event True (Ready 7 EPOLLHUP) io = Inl AssertFail"
    using io(2) by (intro hangup_aborts [OF demo_io_new r_into_rtranclp]) (simp_all add: mask_defs)
  then show ?thesis using io(1) by blast
qed

text \<open>
  \<open>tickle\<close> wakes nobody who sleeps: a task that is scheduled while a thread waits in
  \<open>epoll_wait\<close> is queued and nothing is written to the pipe, so the thread sleeps on until its
  timeout or another event; when no thread is idle a byte is written for the first task.
\<close>

lemma idle_threads_not_woken:
  assumes "has_work ft"
  shows "m_fibers (io_sched (io_schedule ft io)) = m_fibers (io_sched io) @ [ft]
    \<and> io_pipe (io_schedule ft io) =
        (if m_idleThreadCount (io_sched io) = 0 \<and> m_fibers (io_sched io) = [] then io_pipe io + 1 else io_pipe io)"
  using assms by (simp add: io_schedule_def scheduleNoLock_def io_tickle_def Let_def)

lemma idle_threads_not_woken_example:
  "m_fibers (io_sched (io_schedule (fiber_task (Some 3) (-1)) demo_io)) = [fiber_task (Some 3) (-1)]
    \<and> io_pipe (io_schedule (fiber_task (Some 3) (-1)) demo_io) = 0"
proof -
  have "m_fibers (io_sched demo_io) = []" "io_pipe demo_io = 0" "m_idleThreadCount (io_sched demo_io) = 1"
    by (simp_all add: demo_io_def new_IOManager_def sched_start_def demo_scheduler_def)
  then show ?thesis using idle_threads_not_woken [of "fiber_task (Some 3) (-1)" demo_io] by simp
qed

text \<open>
  A round of \<open>idle\<close> in a running manager that finds no ready descriptor schedules exactly the
  callbacks of the timers that are due, in the order of their times, behind what is queued, and
  stays in the loop.
\<close>

lemma due_timers_scheduled:
  assumes "tm_reach (io_timers io)" "a0 \<notin> set (m_timers (io_timers io))" "m_previouseTime (io_timers io) \<le> now'"
    and "\<not> m_stopping (io_sched io)" "\<And>t. wait t = []"
  shows "\<exists>io'. idle_round a0 now now' wait io = Inr (Some io', io')
    \<and> m_fibers (io_sched io') = m_fibers (io_sched io) @ filter has_work
        (map (\<lambda>t. cb_task (m_cb (t_heap (io_timers io) t)) (-1))
          (filter (\<lambda>t. m_next (t_heap (io_timers io) t) \<le> now') (m_timers (io_timers io))))"
proof -
  let ?tm = "(io_timers io)\<lparr>m_tickled := False\<rparr>"
  let ?due = "filter (\<lambda>t. m_next (t_heap (io_timers io) t) \<le> now') (m_timers (io_timers io))"
  let ?io = "io\<lparr>io_timers := ?tm\<rparr>"
  have stop: "\<exists>t. io_stopping now io = ((False, t), ?io)"
    using assms(4) by (auto simp: io_stopping_def getNextTimer_def sched_stopping_def Let_def split: list.split)
  have inv: "timer_inv ?tm" using tm_reach_inv [OF assms(1)] by (simp add: timer_inv_def)
  have e: "(now' < m_previouseTime ?tm \<and> now' < m_previouseTime ?tm - 60 * 60 * 1000) = False"
  proof -
    have "m_previouseTime ?tm = m_previouseTime (io_timers io)" by simp
    then show ?thesis using assms(3) by (simp only: not_less [symmetric] simp_thms)
  qed
  obtain tm' where l: "listExpiredCb a0 now' [] ?tm = Inr (map (\<lambda>t. m_cb (t_heap (io_timers io) t)) ?due, tm')"
    using listExpiredCb_correct [OF inv, of a0 now' "[]", unfolded e] assms(2) by auto
  let ?fts = "map (\<lambda>cb. cb_task cb (-1)) (map (\<lambda>t. m_cb (t_heap (io_timers io) t)) ?due)"
  define io' where "io' = (if ?fts \<noteq> [] then io_schedule_range ?fts (io\<lparr>io_timers := tm'\<rparr>) else io\<lparr>io_timers := tm'\<rparr>)"
  have "idle_round a0 now now' wait io = Inr (Some io', io')"
    using stop l assms(5) by (auto simp: idle_round_def Let_def io'_def)
  moreover have "m_fibers (io_sched io') = m_fibers (io_sched io) @ filter has_work ?fts"
    by (simp add: io'_def io_schedule_range_queue)
  ultimately show ?thesis by (simp add: comp_def)
qed

lemma due_timers_scheduled_example:
  "\<exists>io'. idle_round 9 160 160 (\<lambda>_. []) demo_io = Inr (Some io', io') \<and> m_fibers (io_sched io') = [cb_task (Some 22) (-1)]"
proof -
  have d: "io_timers demo_io = two_timers" "m_fibers (io_sched demo_io) = []" "\<not> m_stopping (io_sched demo_io)"
    by (simp_all add: demo_io_def new_IOManager_def sched_start_def demo_scheduler_def)
  have h: "9 \<notin> set (m_timers two_timers)" "m_previouseTime two_timers \<le> 160"
    "filter (\<lambda>t. m_next (t_heap two_timers t) \<le> 160) (m_timers two_timers) = [2]"
    "m_cb (t_heap two_timers 2) = Some 22" by code_simp+
  then show ?thesis
    using due_timers_scheduled [of demo_io 9 160 "\<lambda>_. []" 160] d two_timers_reach by (simp add: has_work_def cb_task_def)
qed

end
