(* ===== verification/HttpServer.thy ===== *)
theory HttpServer
  imports HttpSession IOManager
begin

text \<open>
  \<open>sherry/http/http_server.h\<close>, \<open>sherry/http/http_server.cc\<close>: the server is a scheduler with its own
  table of events, whose contexts can be persistent and hold the socket, a queue of contexts to
  reset and the sessions by descriptor. As in \<open>IOManager\<close> the kernel's answers (\<open>ok\<close>), the ready
  events, the clock, the calling scheduler and the calling fiber are arguments. A socket is
  named by its descriptor.
\<close>

subsection \<open>State\<close>

text \<open>The callbacks that are handed to \<open>addEvent\<close> by the server, its sessions and the send buffer, and timers.\<close>

datatype server_cb = AcceptCb | ClientCb int | SessCb int session_cb | TimerCb nat | BufferCb "int option" string

record hctx =
  hc_scheduler :: "sref option"
  hc_fiber :: "nat option"
  hc_cb :: "server_cb option"
  hc_persistent :: bool

record hfd = "hctx fdctx" +
  fc_sock :: "int option"

text \<open>\<open>persistent\<close> has no initial value in the code; \<open>junk\<close> is what the memory holds.\<close>

definition new_hctx :: "bool \<Rightarrow> hctx" where
  "new_hctx junk = \<lparr>hc_scheduler = None, hc_fiber = None, hc_cb = None, hc_persistent = junk\<rparr>"

definition new_hfd :: "bool \<Rightarrow> hfd" where
  "new_hfd junk = \<lparr>fc_read = new_hctx junk, fc_write = new_hctx junk, fc_events = 0, fc_sock = None\<rparr>"

record httpserver =
  sv_sched :: "server_cb scheduler"
  sv_timers :: "server_cb timermanager"
  sv_epoll :: interest
  sv_pipe :: nat
  sv_pending :: nat
  sv_ctxs :: "hfd list"
  sv_reset :: "nat list"
  sv_sessions :: "int \<rightharpoonup> session"
  sv_running :: bool
  sv_listen :: "int option"
  sv_other :: "(nat \<times> server_cb task) list"

definition new_HttpServer :: "bool \<Rightarrow> server_cb scheduler \<Rightarrow> server_cb timermanager \<Rightarrow> int list \<Rightarrow> httpserver res" where
  "new_HttpServer junk s tm ids =
     bindR (sched_start ids s) (\<lambda>s.
       Inr \<lparr>sv_sched = s, sv_timers = tm, sv_epoll = Map.empty, sv_pipe = 0, sv_pending = 0,
            sv_ctxs = contextResize (new_hfd junk) 32 [], sv_reset = [], sv_sessions = Map.empty,
            sv_running = False, sv_listen = None, sv_other = []\<rparr>)"

subsection \<open>Contexts\<close>

definition hs_resetContext :: "hctx \<Rightarrow> hctx" where
  "hs_resetContext ctx = ctx\<lparr>hc_scheduler := None, hc_fiber := None, hc_cb := None\<rparr>"

definition hs_reset_ctx :: "hfd \<Rightarrow> hfd" where
  "hs_reset_ctx fc = fc\<lparr>fc_read := hs_resetContext (fc_read fc), fc_write := hs_resetContext (fc_write fc),
     fc_sock := None, fc_events := 0\<rparr>"

definition sv_set :: "nat \<Rightarrow> hfd \<Rightarrow> httpserver \<Rightarrow> httpserver" where
  "sv_set fd fc sv = sv\<lparr>sv_ctxs := (sv_ctxs sv)[fd := fc]\<rparr>"

definition sv_tickle :: "httpserver \<Rightarrow> httpserver" where
  "sv_tickle sv = (if m_idleThreadCount (sv_sched sv) > 0 then sv else sv\<lparr>sv_pipe := sv_pipe sv + 1\<rparr>)"

definition sv_schedule :: "server_cb task \<Rightarrow> httpserver \<Rightarrow> httpserver" where
  "sv_schedule ft sv =
     (case scheduleNoLock ft (sv_sched sv) of (need_tickle, s) \<Rightarrow>
        let sv = sv\<lparr>sv_sched := s\<rparr> in if need_tickle then sv_tickle sv else sv)"

definition sv_schedule_range :: "server_cb task list \<Rightarrow> httpserver \<Rightarrow> httpserver" where
  "sv_schedule_range fts sv =
     (case schedule_range_loop fts False (sv_sched sv) of (need_tickle, s) \<Rightarrow>
        let sv = sv\<lparr>sv_sched := s\<rparr> in if need_tickle then sv_tickle sv else sv)"

fun sv_post :: "sref option \<Rightarrow> server_cb task \<Rightarrow> httpserver \<Rightarrow> httpserver res" where
  "sv_post None ft sv = Inl NullDeref"
| "sv_post (Some Self) ft sv = Inr (sv_schedule ft sv)"
| "sv_post (Some (Other n)) ft sv = Inr (sv\<lparr>sv_other := sv_other sv @ [(n, ft)]\<rparr>)"

text \<open>
  \<open>triggerEvent\<close>: the callback is copied into the task and stays in the context, the fiber is
  moved. \<open>this\<close> is \<open>Scheduler::GetThis()\<close> for a context without a scheduler.
\<close>

definition hs_triggerEvent :: "sref option \<Rightarrow> nat \<Rightarrow> mask \<Rightarrow> httpserver \<Rightarrow> httpserver res" where
  "hs_triggerEvent this fd event sv =
     (let fc = sv_ctxs sv ! fd in
      if fc_events fc AND event = 0 then Inr sv
      else
        bindR (getContext event fc) (\<lambda>ctx.
          let fc = (if hc_persistent ctx then fc else fc\<lparr>fc_events := fc_events fc AND NOT event\<rparr>);
              sch = (if hc_scheduler ctx = None then this else hc_scheduler ctx);
              ft = (if hc_cb ctx \<noteq> None then cb_task (hc_cb ctx) (-1) else fiber_task (hc_fiber ctx) (-1));
              ctx = (if hc_cb ctx \<noteq> None then ctx else ctx\<lparr>hc_fiber := None\<rparr>);
              ctx = ctx\<lparr>hc_scheduler := (if hc_persistent ctx then sch else None)\<rparr>
          in sv_post sch ft (sv_set fd (setContext event ctx fc) sv)))"

definition sv_pending_dec :: "httpserver \<Rightarrow> httpserver" where
  "sv_pending_dec sv = sv\<lparr>sv_pending := size_sub (sv_pending sv) 1\<rparr>"

subsection \<open>Events\<close>

definition hs_addEvent ::
  "bool \<Rightarrow> bool \<Rightarrow> sref option \<Rightarrow> nat \<times> fiber_state \<Rightarrow> int \<Rightarrow> mask \<Rightarrow> int option \<Rightarrow> server_cb option \<Rightarrow> bool
     \<Rightarrow> httpserver \<Rightarrow> (int \<times> httpserver) res" where
  "hs_addEvent ok junk this fiber fd event sock cb persistent sv =
     bindR (grow_for (new_hfd junk) fd (sv_ctxs sv)) (\<lambda>ctxs.
       let sv = sv\<lparr>sv_ctxs := ctxs\<rparr>; fd = nat fd; fc = ctxs ! fd in
       if fc_events fc AND event \<noteq> 0 then Inr (-1, sv)
       else
         case epoll_ctl ok (if fc_events fc \<noteq> 0 then EPOLL_CTL_MOD else EPOLL_CTL_ADD) fd
                (EPOLLET OR fc_events fc OR event) (sv_epoll sv) of (success, ep) \<Rightarrow>
         if \<not> success then Inr (-1, sv)
         else
           bindR (getContext event fc) (\<lambda>ctx.
             if cb = None \<and> snd fiber \<noteq> EXEC then Inl AssertFail
             else
               let ctx = ctx\<lparr>hc_scheduler := this, hc_persistent := persistent\<rparr>;
                   ctx = (case cb of Some c \<Rightarrow> ctx\<lparr>hc_cb := Some c\<rparr> | None \<Rightarrow> ctx\<lparr>hc_fiber := Some (fst fiber)\<rparr>)
               in Inr (0, sv_set fd ((setContext event ctx fc)\<lparr>fc_events := fc_events fc OR event, fc_sock := sock\<rparr>)
                     (sv\<lparr>sv_epoll := ep, sv_pending := sv_pending sv + 1\<rparr>))))"

definition hs_no_event :: "int \<Rightarrow> mask \<Rightarrow> httpserver \<Rightarrow> bool res" where
  "hs_no_event fd event sv =
     (if int (length (sv_ctxs sv)) \<le> fd then Inr True
      else if fd < 0 then Inl OutOfBounds
      else Inr (fc_events (sv_ctxs sv ! nat fd) AND event = 0))"

definition hs_ctl_without :: "bool \<Rightarrow> nat \<Rightarrow> mask \<Rightarrow> httpserver \<Rightarrow> bool \<times> interest" where
  "hs_ctl_without ok fd event sv =
     (let new_events = fc_events (sv_ctxs sv ! fd) AND NOT event in
      epoll_ctl ok (if new_events \<noteq> 0 then EPOLL_CTL_MOD else EPOLL_CTL_DEL) fd (EPOLLET OR new_events) (sv_epoll sv))"

text \<open>\<open>getContext(event).persistent = false\<close>.\<close>

definition make_transient :: "nat \<Rightarrow> mask \<Rightarrow> httpserver \<Rightarrow> httpserver res" where
  "make_transient fd event sv =
     bindR (getContext event (sv_ctxs sv ! fd)) (\<lambda>ctx.
       Inr (sv_set fd (setContext event (ctx\<lparr>hc_persistent := False\<rparr>) (sv_ctxs sv ! fd)) sv))"

definition hs_delEvent :: "bool \<Rightarrow> int \<Rightarrow> mask \<Rightarrow> httpserver \<Rightarrow> (bool \<times> httpserver) res" where
  "hs_delEvent ok fd event sv =
     bindR (hs_no_event fd event sv) (\<lambda>none.
       if none then Inr (False, sv)
       else case hs_ctl_without ok (nat fd) event sv of (success, ep) \<Rightarrow>
         if \<not> success then Inr (False, sv)
         else
           bindR (make_transient (nat fd) event (sv\<lparr>sv_epoll := ep\<rparr>)) (\<lambda>sv.
           let sv = sv_pending_dec sv; fc = sv_ctxs sv ! nat fd;
               fc = fc\<lparr>fc_events := fc_events fc AND NOT event\<rparr> in
           bindR (getContext event fc) (\<lambda>ctx.
             Inr (True, sv_set (nat fd) (setContext event (hs_resetContext ctx) fc) sv))))"

definition hs_cancelEvent :: "bool \<Rightarrow> sref option \<Rightarrow> int \<Rightarrow> mask \<Rightarrow> httpserver \<Rightarrow> (bool \<times> httpserver) res" where
  "hs_cancelEvent ok this fd event sv =
     bindR (hs_no_event fd event sv) (\<lambda>none.
       if none then Inr (False, sv)
       else case hs_ctl_without ok (nat fd) event sv of (success, ep) \<Rightarrow>
         if \<not> success then Inr (False, sv)
         else
           bindR (make_transient (nat fd) event (sv\<lparr>sv_epoll := ep\<rparr>)) (\<lambda>sv.
           bindR (hs_triggerEvent this (nat fd) event sv) (\<lambda>sv. Inr (True, sv_pending_dec sv))))"

definition cancel_if :: "sref option \<Rightarrow> nat \<Rightarrow> mask \<Rightarrow> httpserver \<Rightarrow> httpserver res" where
  "cancel_if this fd event sv =
     (if fc_events (sv_ctxs sv ! fd) AND event \<noteq> 0 then
        bindR (make_transient fd event sv) (\<lambda>sv.
        bindR (hs_triggerEvent this fd event sv) (\<lambda>sv. Inr (sv_pending_dec sv)))
      else Inr sv)"

definition hs_cancelAll :: "bool \<Rightarrow> sref option \<Rightarrow> int \<Rightarrow> httpserver \<Rightarrow> (bool \<times> httpserver) res" where
  "hs_cancelAll ok this fd sv =
     (if int (length (sv_ctxs sv)) \<le> fd then Inr (False, sv)
      else if fd < 0 then Inl OutOfBounds
      else if fc_events (sv_ctxs sv ! nat fd) = 0 then Inr (False, sv)
      else case epoll_ctl ok EPOLL_CTL_DEL (nat fd) 0 (sv_epoll sv) of (success, ep) \<Rightarrow>
        if \<not> success then Inr (False, sv)
        else
          bindR (cancel_if this (nat fd) READ (sv\<lparr>sv_epoll := ep\<rparr>)) (\<lambda>sv.
          bindR (cancel_if this (nat fd) WRITE sv) (\<lambda>sv.
            if fc_events (sv_ctxs sv ! nat fd) \<noteq> 0 then Inl AssertFail else Inr (True, sv))))"

subsection \<open>The idle loop\<close>

definition mask_events :: "mask \<Rightarrow> hfd \<Rightarrow> mask" where
  "mask_events real_ev fc =
     (if real_ev AND READ \<noteq> 0 \<and> \<not> hc_persistent (fc_read fc) then READ else 0) OR
     (if real_ev AND WRITE \<noteq> 0 \<and> \<not> hc_persistent (fc_write fc) then WRITE else 0)"

definition hs_trigger_if :: "bool \<Rightarrow> sref option \<Rightarrow> nat \<Rightarrow> mask \<Rightarrow> httpserver \<Rightarrow> httpserver res" where
  "hs_trigger_if b this fd event sv =
     (if b then bindR (hs_triggerEvent this fd event sv) (\<lambda>sv. Inr (sv_pending_dec sv)) else Inr sv)"

definition hs_idle_event :: "bool \<Rightarrow> sref option \<Rightarrow> epoll_event \<Rightarrow> httpserver \<Rightarrow> httpserver res" where
  "hs_idle_event ok this ev sv =
     (case ev of
        Tickled \<Rightarrow> Inr (sv\<lparr>sv_pipe := 0\<rparr>)
      | Ready fd evs \<Rightarrow>
          if length (sv_ctxs sv) \<le> fd then Inl OutOfBounds
          else
            let fc = sv_ctxs sv ! fd; real_ev = real_events evs in
            if fc_events fc AND real_ev = 0 then Inr sv
            else
              let left_events = fc_events fc AND NOT (mask_events real_ev fc) in
              case epoll_ctl ok (if left_events \<noteq> 0 then EPOLL_CTL_MOD else EPOLL_CTL_DEL) fd
                     (EPOLLET OR left_events) (sv_epoll sv) of (success, ep) \<Rightarrow>
              if \<not> success then Inr sv
              else
                bindR (hs_trigger_if (real_ev AND READ \<noteq> 0) this fd READ (sv\<lparr>sv_epoll := ep\<rparr>)) (\<lambda>sv.
                hs_trigger_if (real_ev AND WRITE \<noteq> 0) this fd WRITE sv))"

fun hs_idle_events :: "sref option \<Rightarrow> (bool \<times> epoll_event) list \<Rightarrow> httpserver \<Rightarrow> httpserver res" where
  "hs_idle_events this [] sv = Inr sv"
| "hs_idle_events this ((ok, ev) # evs) sv = bindR (hs_idle_event ok this ev sv) (hs_idle_events this evs)"

text \<open>Emptying \<open>m_reset_fdCtx_queue\<close>, and erasing the closed sessions.\<close>

definition drain_resets :: "httpserver \<Rightarrow> httpserver" where
  "drain_resets sv = sv\<lparr>sv_ctxs := fold (\<lambda>fd ctxs. ctxs[fd := hs_reset_ctx (ctxs ! fd)]) (sv_reset sv) (sv_ctxs sv),
     sv_reset := []\<rparr>"

definition sweep_sessions :: "httpserver \<Rightarrow> httpserver" where
  "sweep_sessions sv = sv\<lparr>sv_sessions := (\<lambda>fd. case sv_sessions sv fd of
     Some s \<Rightarrow> if m_isClose s then None else Some s | None \<Rightarrow> None)\<rparr>"

definition sv_stopping :: "u64 \<Rightarrow> httpserver \<Rightarrow> (bool \<times> u64) \<times> httpserver" where
  "sv_stopping now sv =
     (case getNextTimer now (sv_timers sv) of (timeout, tm) \<Rightarrow>
        ((timeout = - 1 \<and> sv_pending sv = 0 \<and> sched_stopping (sv_sched sv), timeout), sv\<lparr>sv_timers := tm\<rparr>))"

text \<open>One round; \<open>None\<close> is leaving the loop.\<close>

definition hs_idle_round ::
  "nat \<Rightarrow> u64 \<Rightarrow> u64 \<Rightarrow> sref option \<Rightarrow> (int \<Rightarrow> (bool \<times> epoll_event) list) \<Rightarrow> httpserver
     \<Rightarrow> (httpserver option \<times> httpserver) res" where
  "hs_idle_round a0 now now' this wait sv =
     (case sv_stopping now sv of ((stop, next_timeout), sv) \<Rightarrow>
        if stop \<and> next_timeout = - 1 then Inr (None, sv)
        else
          let evs = wait (wait_timeout next_timeout) in
          bindR (listExpiredCb a0 now' [] (sv_timers sv)) (\<lambda>(cbs, tm).
            let sv = sweep_sessions (drain_resets (sv\<lparr>sv_timers := tm\<rparr>));
                sv = (if cbs \<noteq> [] then sv_schedule_range (map (\<lambda>cb. cb_task cb (-1)) cbs) sv else sv)
            in bindR (hs_idle_events this evs sv) (\<lambda>sv. Inr (Some sv, sv))))"

subsection \<open>Connections\<close>

text \<open>
  \<open>start\<close>: \<open>listen_fd\<close>, \<open>bound\<close> and \<open>listening\<close> are what creating, binding and listening gave.
\<close>

definition sv_start ::
  "bool \<Rightarrow> bool \<Rightarrow> sref option \<Rightarrow> nat \<times> fiber_state \<Rightarrow> int \<Rightarrow> bool \<Rightarrow> bool \<Rightarrow> httpserver \<Rightarrow> (bool \<times> httpserver) res" where
  "sv_start ok junk this fiber listen_fd bound listening sv =
     (if sv_running sv then Inr (False, sv)
      else
        let sv = sv\<lparr>sv_listen := Some listen_fd\<rparr> in
        if \<not> bound then Inr (False, sv)
        else if \<not> listening then Inr (False, sv)
        else
          bindR (hs_addEvent ok junk this fiber listen_fd READ (Some listen_fd) (Some AcceptCb) True
                   (sv\<lparr>sv_running := True\<rparr>)) (\<lambda>(_, sv). Inr (True, sv)))"

text \<open>\<open>stop\<close>: closing the socket takes its descriptor out of the kernel's interest list.\<close>

definition sv_stop :: "httpserver \<Rightarrow> httpserver" where
  "sv_stop sv =
     (if \<not> sv_running sv then sv
      else case sv_listen sv of
        None \<Rightarrow> sv\<lparr>sv_running := False\<rparr>
      | Some fd \<Rightarrow> sv\<lparr>sv_running := False, sv_listen := None, sv_epoll := (sv_epoll sv)(nat fd := None)\<rparr>)"

text \<open>The callback of the listening socket; \<open>client\<close> is the descriptor of the accepted socket.\<close>

definition accept_cb ::
  "bool \<Rightarrow> bool \<Rightarrow> sref option \<Rightarrow> nat \<times> fiber_state \<Rightarrow> int option \<Rightarrow> httpserver \<Rightarrow> httpserver res" where
  "accept_cb ok junk this fiber client sv =
     (case client of
        None \<Rightarrow> Inr sv
      | Some fd \<Rightarrow> bindR (hs_addEvent ok junk this fiber fd READ (Some fd) (Some (ClientCb fd)) False sv) (\<lambda>(_, sv). Inr sv))"

text \<open>
  \<open>handleClient\<close>: the new session registers its pipe and then its socket; \<open>pipe_fd\<close> is the read
  end of the pipe it creates, \<open>ok1\<close> and \<open>ok2\<close> answer the two registrations.
\<close>

definition handleClient ::
  "bool \<Rightarrow> bool \<Rightarrow> bool \<Rightarrow> sref option \<Rightarrow> nat \<times> fiber_state \<Rightarrow> int \<Rightarrow> int option \<Rightarrow> httpserver \<Rightarrow> httpserver res" where
  "handleClient ok1 ok2 junk this fiber pipe_fd client sv =
     (case client of
        None \<Rightarrow> Inr sv
      | Some fd \<Rightarrow>
          bindR (hs_addEvent ok1 junk this fiber pipe_fd READ (Some fd) (Some (SessCb fd PipeCb)) False sv) (\<lambda>(_, sv).
          bindR (hs_addEvent ok2 junk this fiber fd READ (Some fd) (Some (SessCb fd RecvCb)) False
                   (sv\<lparr>sv_sessions := (sv_sessions sv)(fd \<mapsto> regist_event_read (new_HttpSession fd))\<rparr>)) (\<lambda>(_, sv).
            Inr sv)))"

text \<open>
  \<open>response\<close>: nothing without a socket; while a write event is registered it spins, which is the
  result \<open>None\<close>; a missing session is created as a null pointer and called.
\<close>

definition response :: "int \<Rightarrow> string \<Rightarrow> httpserver \<Rightarrow> httpserver option res" where
  "response fd data sv =
     (if fd < 0 \<or> int (length (sv_ctxs sv)) \<le> fd then Inl OutOfBounds
      else
        let fc = sv_ctxs sv ! nat fd in
        if fc_sock fc = None then Inr (Some sv)
        else if fc_events fc AND WRITE \<noteq> 0 then Inr None
        else case sv_sessions sv fd of
          None \<Rightarrow> Inl NullDeref
        | Some s \<Rightarrow>
            bindR (session_write_buffer data s) (\<lambda>(_, s).
              Inr (Some (sv\<lparr>sv_sessions := (sv_sessions sv)(fd \<mapsto> s)\<rparr>))))"

subsection \<open>The invariant\<close>

definition sv_events :: "httpserver \<Rightarrow> nat \<Rightarrow> mask" where
  "sv_events sv = events_at (sv_ctxs sv)"

definition sv_inv :: "httpserver \<Rightarrow> bool" where
  "sv_inv sv \<longleftrightarrow> 2 \<le> length (sv_ctxs sv) \<and> (\<forall>fd. mask_ok (sv_events sv fd)) \<and> watch_inv (sv_ctxs sv) (sv_epoll sv)"

text \<open>What an operation does to one descriptor: its events, and its persistence flags.\<close>

definition changes_at :: "nat \<Rightarrow> mask \<Rightarrow> httpserver \<Rightarrow> httpserver \<Rightarrow> bool" where
  "changes_at fd w sv sv' \<longleftrightarrow> length (sv_ctxs sv') = length (sv_ctxs sv)
     \<and> (\<forall>i. i \<noteq> fd \<longrightarrow> sv_ctxs sv' ! i = sv_ctxs sv ! i) \<and> fc_events (sv_ctxs sv' ! fd) = w"

lemma sv_at: "fd < length (sv_ctxs sv) \<Longrightarrow> sv_events sv fd = fc_events (sv_ctxs sv ! fd)"
  by (simp add: sv_events_def events_at_def)

lemma sv_registered: "sv_events sv fd \<noteq> 0 \<Longrightarrow> fd < length (sv_ctxs sv)"
  by (simp add: sv_events_def events_at_def split: if_splits)

lemma changes_events:
  "changes_at fd w sv sv' \<Longrightarrow> fd < length (sv_ctxs sv) \<Longrightarrow> sv_events sv' = (sv_events sv)(fd := w)"
  by (auto simp: changes_at_def sv_events_def events_at_def fun_eq_iff)

lemma sv_settle:
  assumes "sv_inv sv" "changes_at fd w sv sv'" "fd < length (sv_ctxs sv)" "mask_ok w"
    and "sv_epoll sv' = (sv_epoll sv)(fd := watch w)"
  shows "sv_inv sv' \<and> sv_events sv' = (sv_events sv)(fd := w)"
proof -
  have "watch_inv (sv_ctxs sv') (sv_epoll sv')"
    using watch_inv_at [of "sv_ctxs sv" "sv_epoll sv" "sv_ctxs sv'" fd] assms
    by (auto simp: sv_inv_def changes_at_def)
  then show ?thesis using assms changes_events [OF assms(2,3)]
    by (auto simp: sv_inv_def changes_at_def)
qed

named_theorems sv_simps \<open>the parts of a server that scheduling leaves alone\<close>

lemma sv_schedule_fields [sv_simps]:
  "sv_ctxs (sv_schedule ft sv) = sv_ctxs sv" "sv_pending (sv_schedule ft sv) = sv_pending sv"
  "sv_epoll (sv_schedule ft sv) = sv_epoll sv" "sv_sessions (sv_schedule ft sv) = sv_sessions sv"
  by (simp_all add: sv_schedule_def sv_tickle_def scheduleNoLock_def Let_def)

lemma sv_post_run:
  assumes "r \<noteq> None"
  shows "\<exists>sv'. sv_post r ft sv = Inr sv' \<and> sv_ctxs sv' = sv_ctxs sv \<and> sv_pending sv' = sv_pending sv
    \<and> sv_epoll sv' = sv_epoll sv \<and> sv_sessions sv' = sv_sessions sv"
proof -
  from assms obtain s where "r = Some s" by blast
  then show ?thesis by (cases s) (simp_all add: sv_simps)
qed

lemma make_transient_run:
  assumes "event_ok e" "fd < length (sv_ctxs sv)"
  shows "\<exists>sv'. make_transient fd e sv = Inr sv' \<and> changes_at fd (fc_events (sv_ctxs sv ! fd)) sv sv'
    \<and> sv_epoll sv' = sv_epoll sv \<and> \<not> hc_persistent (ctx_of e (sv_ctxs sv' ! fd))"
  using assms by (simp add: make_transient_def getContext_ok changes_at_def sv_set_def)

lemma trigger_keeps:
  assumes e: "event_ok e" and fd: "fd < length (sv_ctxs sv)" and sch: "this \<noteq> None"
  shows "\<exists>sv'. hs_triggerEvent this fd e sv = Inr sv' \<and> sv_epoll sv' = sv_epoll sv \<and> sv_pending sv' = sv_pending sv
    \<and> changes_at fd (if hc_persistent (ctx_of e (sv_ctxs sv ! fd)) \<or> \<not> has_event (fc_events (sv_ctxs sv ! fd)) e
        then fc_events (sv_ctxs sv ! fd) else fc_events (sv_ctxs sv ! fd) AND NOT e) sv sv'
    \<and> (\<forall>e'. event_ok e' \<longrightarrow> hc_persistent (ctx_of e' (sv_ctxs sv' ! fd)) = hc_persistent (ctx_of e' (sv_ctxs sv ! fd)))"
proof (cases "has_event (fc_events (sv_ctxs sv ! fd)) e")
  case True
  let ?fc = "sv_ctxs sv ! fd" and ?ctx = "ctx_of e (sv_ctxs sv ! fd)"
  let ?fc' = "if hc_persistent ?ctx then ?fc else ?fc\<lparr>fc_events := fc_events ?fc AND NOT e\<rparr>"
  define sch where "sch = (if hc_scheduler ?ctx = None then this else hc_scheduler ?ctx)"
  define ft where "ft = (if hc_cb ?ctx \<noteq> None then cb_task (hc_cb ?ctx) (-1) else fiber_task (hc_fiber ?ctx) (-1))"
  define ctx where "ctx = (if hc_cb ?ctx \<noteq> None then ?ctx else ?ctx\<lparr>hc_fiber := None\<rparr>)"
  define ctx' where "ctx' = ctx\<lparr>hc_scheduler := (if hc_persistent ctx then sch else None)\<rparr>"
  have p: "hc_persistent ctx' = hc_persistent ?ctx" by (simp add: ctx'_def ctx_def)
  have "hs_triggerEvent this fd e sv = sv_post sch ft (sv_set fd (setContext e ctx' ?fc') sv)"
    using True by (simp add: hs_triggerEvent_def Let_def getContext_ok [OF e] has_event_def sch_def ft_def ctx_def ctx'_def)
  moreover have "sch \<noteq> None" using sch by (simp add: sch_def)
  ultimately obtain sv' where "hs_triggerEvent this fd e sv = Inr sv'" "sv_ctxs sv' = (sv_ctxs sv)[fd := setContext e ctx' ?fc']"
    "sv_pending sv' = sv_pending sv" "sv_epoll sv' = sv_epoll sv"
    using sv_post_run [of sch ft "sv_set fd (setContext e ctx' ?fc') sv"] by (auto simp: sv_set_def)
  then show ?thesis using fd e p True by (auto simp: changes_at_def)
next
  case False
  then show ?thesis by (simp add: hs_triggerEvent_def has_event_def changes_at_def)
qed

subsection \<open>Operations\<close>

lemma sv_grow:
  assumes "sv_inv sv" "0 \<le> fd"
  shows "\<exists>ctxs. grow_for (new_hfd junk) fd (sv_ctxs sv) = Inr ctxs \<and> nat fd < length ctxs
    \<and> sv_inv (sv\<lparr>sv_ctxs := ctxs\<rparr>) \<and> events_at ctxs = events_at (sv_ctxs sv)"
proof -
  have len: "2 \<le> length (sv_ctxs sv)" using assms(1) by (simp add: sv_inv_def)
  obtain ctxs where g: "grow_for (new_hfd junk) fd (sv_ctxs sv) = Inr ctxs" "nat fd < length ctxs"
    "length (sv_ctxs sv) \<le> length ctxs"
    "\<forall>i < length ctxs. ctxs ! i = (if i < length (sv_ctxs sv) then sv_ctxs sv ! i else new_hfd junk)"
    using grow_for_run [OF assms(2) len, of "new_hfd junk"] by blast
  have "events_at ctxs = events_at (sv_ctxs sv)"
    using g(3,4) by (auto simp: events_at_def new_hfd_def)
  then show ?thesis using g assms(1) by (auto simp: sv_inv_def watch_inv_def sv_events_def)
qed

lemma sv_add_run:
  assumes inv: "sv_inv sv" and fd: "0 \<le> fd" and e: "event_ok e" and fib: "cb = None \<Longrightarrow> snd fiber = EXEC"
  shows "\<exists>r sv'. hs_addEvent ok junk this fiber fd e sock cb persistent sv = Inr (r, sv') \<and> sv_inv sv'
    \<and> sv_sessions sv' = sv_sessions sv
    \<and> (if ok \<and> \<not> has_event (sv_events sv (nat fd)) e
       then r = 0 \<and> sv_events sv' = (sv_events sv)(nat fd := sv_events sv (nat fd) OR e)
         \<and> sv_pending sv' = sv_pending sv + 1
         \<and> fc_sock (sv_ctxs sv' ! nat fd) = sock \<and> (\<forall>c. cb = Some c \<longrightarrow> hc_cb (ctx_of e (sv_ctxs sv' ! nat fd)) = Some c)
         \<and> hc_persistent (ctx_of e (sv_ctxs sv' ! nat fd)) = persistent
       else r = -1 \<and> sv_events sv' = sv_events sv)"
proof -
  obtain ctxs where g: "grow_for (new_hfd junk) fd (sv_ctxs sv) = Inr ctxs" "nat fd < length ctxs"
    and inv': "sv_inv (sv\<lparr>sv_ctxs := ctxs\<rparr>)" and ev: "events_at ctxs = events_at (sv_ctxs sv)"
    using sv_grow [OF inv fd] by blast
  let ?sv = "sv\<lparr>sv_ctxs := ctxs\<rparr>" and ?fc = "ctxs ! nat fd"
  have evs: "sv_events ?sv = sv_events sv" using ev by (simp add: sv_events_def)
  have at: "sv_events sv (nat fd) = fc_events ?fc" using evs [symmetric] sv_at [of "nat fd" ?sv] g(2) by simp
  have w: "watch_inv ctxs (sv_epoll sv)" and m: "mask_ok (fc_events ?fc)"
    using inv' at by (simp_all add: sv_inv_def) (metis evs)
  show ?thesis
  proof (cases "ok \<and> \<not> has_event (fc_events ?fc) e")
    case False
    moreover have "\<not> ok \<Longrightarrow> epoll_ctl ok op fd' x ep = (False, ep)" for op fd' x ep by (cases op) simp_all
    ultimately have "hs_addEvent ok junk this fiber fd e sock cb persistent sv = Inr (-1, ?sv)"
      using g(1) by (auto simp: hs_addEvent_def Let_def has_event_def)
    then show ?thesis using False inv' evs at by auto
  next
    case True
    note add = mask_add_all [OF m e conjunct2 [OF True]]
    have ctl: "epoll_ctl ok (if fc_events ?fc \<noteq> 0 then EPOLL_CTL_MOD else EPOLL_CTL_ADD) (nat fd)
        (EPOLLET OR fc_events ?fc OR e) (sv_epoll sv) = (True, (sv_epoll sv)(nat fd := watch (fc_events ?fc OR e)))"
      using ctl_add [OF w g(2) conjunct2 [OF conjunct2 [OF add]], of ok] True by simp
    define ctx0 where "ctx0 = (ctx_of e ?fc)\<lparr>hc_scheduler := this, hc_persistent := persistent\<rparr>"
    define ctx where "ctx = (case cb of Some c \<Rightarrow> ctx0\<lparr>hc_cb := Some c\<rparr> | None \<Rightarrow> ctx0\<lparr>hc_fiber := Some (fst fiber)\<rparr>)"
    let ?new = "(setContext e ctx ?fc)\<lparr>fc_events := fc_events ?fc OR e, fc_sock := sock\<rparr>"
    let ?sv' = "sv_set (nat fd) ?new (?sv\<lparr>sv_epoll := (sv_epoll sv)(nat fd := watch (fc_events ?fc OR e)),
        sv_pending := sv_pending sv + 1\<rparr>)"
    have "hs_addEvent ok junk this fiber fd e sock cb persistent sv = Inr (0, ?sv')"
      using g(1) ctl True fib
      by (auto simp: hs_addEvent_def Let_def has_event_def getContext_ok [OF e] ctx_def ctx0_def split: option.split)
    moreover have "changes_at (nat fd) (fc_events ?fc OR e) ?sv ?sv'" using g(2) by (simp add: changes_at_def sv_set_def)
    then have "sv_inv ?sv' \<and> sv_events ?sv' = (sv_events sv)(nat fd := fc_events ?fc OR e)"
      using sv_settle [OF inv', of "nat fd" "fc_events ?fc OR e" ?sv'] g(2) add evs by (simp add: sv_set_def)
    moreover have "ctx_of e ?new = ctx" using e by (auto simp: ctx_of_def setContext_def event_ok_def)
    then have "hc_persistent (ctx_of e ?new) = persistent"
      "\<forall>c. cb = Some c \<longrightarrow> hc_cb (ctx_of e ?new) = Some c"
      by (auto simp: ctx_def ctx0_def split: option.split)
    ultimately show ?thesis using True at g(2) by (simp add: sv_set_def)
  qed
qed

lemma hs_no_event_run: "0 \<le> fd \<Longrightarrow> hs_no_event fd e sv = Inr (\<not> has_event (sv_events sv (nat fd)) e)"
  by (auto simp: hs_no_event_def sv_events_def events_at_def has_event_def)

lemma sv_ctl:
  assumes "sv_inv sv" "fd < length (sv_ctxs sv)" "sv_events sv fd \<noteq> 0"
  shows "epoll_ctl ok (if w \<noteq> 0 then EPOLL_CTL_MOD else EPOLL_CTL_DEL) fd (EPOLLET OR w) (sv_epoll sv)
    = (if ok then (True, (sv_epoll sv)(fd := watch w)) else (False, sv_epoll sv))"
  using assms ctl_watch [of "sv_ctxs sv" "sv_epoll sv" fd] by (simp add: sv_inv_def sv_at del: epoll_ctl.simps)

lemma changes_trans: "changes_at fd w sv sv' \<Longrightarrow> changes_at fd w' sv' sv'' \<Longrightarrow> changes_at fd w' sv sv''"
  by (simp add: changes_at_def)

lemma changes_dec [simp]: "changes_at fd w sv (sv_pending_dec sv') = changes_at fd w sv sv'"
  "sv_ctxs (sv_pending_dec sv) = sv_ctxs sv" "sv_epoll (sv_pending_dec sv) = sv_epoll sv"
  by (simp_all add: changes_at_def sv_pending_dec_def)

lemma changes_epoll [simp]: "changes_at fd w (sv\<lparr>sv_epoll := ep\<rparr>) sv' = changes_at fd w sv sv'"
  by (simp add: changes_at_def)

subsection \<open>Removing and triggering events\<close>

lemma cancelled_run:
  assumes e: "event_ok e" and fd: "fd < length (sv_ctxs sv)" and sch: "this \<noteq> None"
    and reg: "has_event (fc_events (sv_ctxs sv ! fd)) e"
  shows "\<exists>sv1 sv'. make_transient fd e sv = Inr sv1 \<and> hs_triggerEvent this fd e sv1 = Inr sv'
    \<and> changes_at fd (fc_events (sv_ctxs sv ! fd) AND NOT e) sv sv' \<and> sv_epoll sv' = sv_epoll sv"
proof -
  obtain sv1 where 1: "make_transient fd e sv = Inr sv1" "changes_at fd (fc_events (sv_ctxs sv ! fd)) sv sv1"
    "sv_epoll sv1 = sv_epoll sv" "\<not> hc_persistent (ctx_of e (sv_ctxs sv1 ! fd))"
    using make_transient_run [OF e fd] by blast
  have s1: "fd < length (sv_ctxs sv1)" "fc_events (sv_ctxs sv1 ! fd) = fc_events (sv_ctxs sv ! fd)"
    using 1(2) fd by (simp_all add: changes_at_def)
  obtain sv' where "hs_triggerEvent this fd e sv1 = Inr sv'" "sv_epoll sv' = sv_epoll sv1"
    "changes_at fd (fc_events (sv_ctxs sv ! fd) AND NOT e) sv1 sv'"
    using trigger_keeps [OF e s1(1) sch] 1(4) reg s1(2) by auto
  then show ?thesis using 1(1,3) changes_trans [OF 1(2)] by auto
qed

lemma sv_del_run:
  assumes inv: "sv_inv sv" and fd: "0 \<le> fd" and e: "event_ok e" and reg: "has_event (sv_events sv (nat fd)) e"
  shows "\<exists>sv'. hs_delEvent ok fd e sv = Inr (ok, sv') \<and> sv_inv sv'
    \<and> sv_events sv' = (if ok then (sv_events sv)(nat fd := sv_events sv (nat fd) AND NOT e) else sv_events sv)"
proof -
  have nz: "sv_events sv (nat fd) \<noteq> 0" using reg by auto
  note len = sv_registered [OF nz] and m = inv [unfolded sv_inv_def, THEN conjunct2, THEN conjunct1, THEN spec, of "nat fd"]
  let ?w = "sv_events sv (nat fd) AND NOT e"
  have ctl: "hs_ctl_without ok (nat fd) e sv = (if ok then (True, (sv_epoll sv)(nat fd := watch ?w)) else (False, sv_epoll sv))"
    using sv_ctl [OF inv len nz, of ok ?w] by (simp add: hs_ctl_without_def Let_def sv_at [OF len] del: epoll_ctl.simps)
  show ?thesis
  proof (cases ok)
    case True
    let ?sv = "sv\<lparr>sv_epoll := (sv_epoll sv)(nat fd := watch ?w)\<rparr>"
    obtain sv1 where 1: "make_transient (nat fd) e ?sv = Inr sv1" "changes_at (nat fd) (sv_events sv (nat fd)) sv sv1"
      "sv_epoll sv1 = (sv_epoll sv)(nat fd := watch ?w)"
      using make_transient_run [OF e, of "nat fd" ?sv] len by (auto simp: sv_at)
    let ?fc = "(sv_ctxs sv1 ! nat fd)\<lparr>fc_events := fc_events (sv_ctxs sv1 ! nat fd) AND NOT e\<rparr>"
    let ?sv' = "sv_set (nat fd) (setContext e (hs_resetContext (ctx_of e ?fc)) ?fc) (sv_pending_dec sv1)"
    have "hs_delEvent ok fd e sv = Inr (True, ?sv')"
      using True reg ctl 1(1) by (simp add: hs_delEvent_def hs_no_event_run [OF fd] Let_def getContext_ok [OF e] del: epoll_ctl.simps)
    moreover have "changes_at (nat fd) ?w sv ?sv'"
      using 1(2) len by (simp add: changes_at_def sv_set_def sv_pending_dec_def)
    moreover have "sv_epoll ?sv' = (sv_epoll sv)(nat fd := watch ?w)" using 1(3) by (simp add: sv_set_def sv_pending_dec_def)
    ultimately show ?thesis using sv_settle [OF inv _ len] mask_del_all [OF m e reg] True by auto
  next
    case False
    then show ?thesis using ctl reg inv by (simp add: hs_delEvent_def hs_no_event_run [OF fd])
  qed
qed

lemma sv_cancel_run:
  assumes inv: "sv_inv sv" and fd: "0 \<le> fd" and e: "event_ok e" and reg: "has_event (sv_events sv (nat fd)) e"
    and sch: "this \<noteq> None"
  shows "\<exists>sv'. hs_cancelEvent ok this fd e sv = Inr (ok, sv') \<and> sv_inv sv'
    \<and> sv_events sv' = (if ok then (sv_events sv)(nat fd := sv_events sv (nat fd) AND NOT e) else sv_events sv)"
proof -
  have nz: "sv_events sv (nat fd) \<noteq> 0" using reg by auto
  note len = sv_registered [OF nz] and m = inv [unfolded sv_inv_def, THEN conjunct2, THEN conjunct1, THEN spec, of "nat fd"]
  let ?w = "sv_events sv (nat fd) AND NOT e"
  have ctl: "hs_ctl_without ok (nat fd) e sv = (if ok then (True, (sv_epoll sv)(nat fd := watch ?w)) else (False, sv_epoll sv))"
    using sv_ctl [OF inv len nz, of ok ?w] by (simp add: hs_ctl_without_def Let_def sv_at [OF len] del: epoll_ctl.simps)
  show ?thesis
  proof (cases ok)
    case True
    let ?sv = "sv\<lparr>sv_epoll := (sv_epoll sv)(nat fd := watch ?w)\<rparr>"
    obtain sv1 sv' where 1: "make_transient (nat fd) e ?sv = Inr sv1" "hs_triggerEvent this (nat fd) e sv1 = Inr sv'"
      "changes_at (nat fd) ?w sv sv'" "sv_epoll sv' = (sv_epoll sv)(nat fd := watch ?w)"
      using cancelled_run [OF e, of "nat fd" ?sv this] len sch reg by (auto simp: sv_at)
    have "hs_cancelEvent ok this fd e sv = Inr (True, sv_pending_dec sv')"
      using True reg ctl 1(1,2) by (simp add: hs_cancelEvent_def hs_no_event_run [OF fd] del: epoll_ctl.simps)
    moreover have "sv_inv (sv_pending_dec sv') \<and> sv_events (sv_pending_dec sv') = (sv_events sv)(nat fd := ?w)"
      using 1(3,4) mask_del_all [OF m e reg] by (intro sv_settle [OF inv _ len]) simp_all
    ultimately show ?thesis using True by auto
  next
    case False
    then show ?thesis using ctl reg inv by (simp add: hs_cancelEvent_def hs_no_event_run [OF fd])
  qed
qed

lemma cancel_if_run:
  assumes e: "event_ok e" and fd: "fd < length (sv_ctxs sv)" and sch: "this \<noteq> None"
  shows "\<exists>sv'. cancel_if this fd e sv = Inr sv' \<and> sv_epoll sv' = sv_epoll sv
    \<and> changes_at fd (fc_events (sv_ctxs sv ! fd) AND NOT e) sv sv'"
proof (cases "has_event (fc_events (sv_ctxs sv ! fd)) e")
  case True
  then show ?thesis using cancelled_run [OF e fd sch] by (auto simp: cancel_if_def has_event_def sv_pending_dec_def changes_at_def)
next
  case False
  then have "fc_events (sv_ctxs sv ! fd) AND NOT e = fc_events (sv_ctxs sv ! fd)"
    by (simp add: has_event_def bit_eq_iff bit_simps) blast
  then show ?thesis using False by (simp add: cancel_if_def has_event_def changes_at_def)
qed

lemma sv_cancelAll_run:
  assumes inv: "sv_inv sv" and fd: "0 \<le> fd" and nz: "sv_events sv (nat fd) \<noteq> 0" and sch: "this \<noteq> None"
  shows "\<exists>sv'. hs_cancelAll ok this fd sv = Inr (ok, sv') \<and> sv_inv sv'
    \<and> sv_events sv' = (if ok then (sv_events sv)(nat fd := 0) else sv_events sv)"
proof (cases ok)
  case True
  note len = sv_registered [OF nz] and m = inv [unfolded sv_inv_def, THEN conjunct2, THEN conjunct1, THEN spec, of "nat fd"]
  let ?sv = "sv\<lparr>sv_epoll := (sv_epoll sv)(nat fd := None)\<rparr>" and ?w = "sv_events sv (nat fd)"
  obtain sv1 where 1: "cancel_if this (nat fd) READ ?sv = Inr sv1" "sv_epoll sv1 = (sv_epoll sv)(nat fd := None)"
    "changes_at (nat fd) (?w AND NOT READ) sv sv1"
    using cancel_if_run [of READ "nat fd" ?sv this] len sch by (auto simp: sv_at)
  have len1: "nat fd < length (sv_ctxs sv1)" "fc_events (sv_ctxs sv1 ! nat fd) = ?w AND NOT READ"
    using 1(3) len by (simp_all add: changes_at_def)
  obtain sv' where 2: "cancel_if this (nat fd) WRITE sv1 = Inr sv'" "sv_epoll sv' = (sv_epoll sv)(nat fd := None)"
    "changes_at (nat fd) (?w AND NOT READ AND NOT WRITE) sv1 sv'"
    using cancel_if_run [of WRITE "nat fd" sv1 this] len1 sch 1(2) by (auto simp: and.assoc)
  have zero: "?w AND NOT READ AND NOT WRITE = 0" by (rule mask_cases [OF m]) (simp_all add: mask_defs)
  have "sv_epoll sv (nat fd) \<noteq> None"
    using inv nz by (simp add: sv_inv_def watch_inv_def sv_events_def watch_def)
  then have "hs_cancelAll ok this fd sv = Inr (True, sv')"
    using True len fd nz 1(1) 2(1,3) zero by (simp add: hs_cancelAll_def sv_at changes_at_def)
  moreover have "changes_at (nat fd) 0 sv sv'" using changes_trans [OF 1(3) 2(3)] zero by simp
  ultimately show ?thesis using sv_settle [OF inv _ len] 2(2) True by (auto simp: watch_def)
next
  case False
  then show ?thesis using assms sv_registered [OF nz] by (auto simp: hs_cancelAll_def sv_at)
qed

subsection \<open>Ready events\<close>

lemma without_unregistered: "\<not> has_event w e \<Longrightarrow> w AND NOT e = w"
  by (simp add: has_event_def bit_eq_iff bit_simps) blast

lemma hs_trigger_if_run:
  assumes e: "event_ok e" and fd: "fd < length (sv_ctxs sv)" and sch: "this \<noteq> None"
  shows "\<exists>sv'. hs_trigger_if b this fd e sv = Inr sv' \<and> sv_epoll sv' = sv_epoll sv
    \<and> sv_pending sv' = (if b then size_sub (sv_pending sv) 1 else sv_pending sv)
    \<and> changes_at fd (fc_events (sv_ctxs sv ! fd) AND NOT (if b \<and> \<not> hc_persistent (ctx_of e (sv_ctxs sv ! fd)) then e else 0)) sv sv'
    \<and> (\<forall>e'. event_ok e' \<longrightarrow> hc_persistent (ctx_of e' (sv_ctxs sv' ! fd)) = hc_persistent (ctx_of e' (sv_ctxs sv ! fd)))"
proof (cases b)
  case True
  obtain sv' where t: "hs_triggerEvent this fd e sv = Inr sv'" "sv_epoll sv' = sv_epoll sv" "sv_pending sv' = sv_pending sv"
    "changes_at fd (if hc_persistent (ctx_of e (sv_ctxs sv ! fd)) \<or> \<not> has_event (fc_events (sv_ctxs sv ! fd)) e
        then fc_events (sv_ctxs sv ! fd) else fc_events (sv_ctxs sv ! fd) AND NOT e) sv sv'"
    "\<forall>e'. event_ok e' \<longrightarrow> hc_persistent (ctx_of e' (sv_ctxs sv' ! fd)) = hc_persistent (ctx_of e' (sv_ctxs sv ! fd))"
    using trigger_keeps [OF e fd sch] by blast
  have "changes_at fd (fc_events (sv_ctxs sv ! fd) AND NOT (if b \<and> \<not> hc_persistent (ctx_of e (sv_ctxs sv ! fd)) then e else 0)) sv sv'"
    using t(4) True without_unregistered [of "fc_events (sv_ctxs sv ! fd)" e] by (auto split: if_splits)
  then show ?thesis using t True by (simp add: hs_trigger_if_def sv_pending_dec_def changes_at_def)
qed (simp add: hs_trigger_if_def changes_at_def)

text \<open>
  A ready descriptor with a registered event: the transient events among the reported ones go
  away, the kernel is told, and the count is decremented once for every reported event.
\<close>

lemma hs_idle_event_run:
  assumes inv: "sv_inv sv" and fd: "fd < length (sv_ctxs sv)" and sch: "this \<noteq> None"
    and some: "sv_events sv fd AND real_events evs \<noteq> 0"
  shows "\<exists>sv'. hs_idle_event True this (Ready fd evs) sv = Inr sv' \<and> sv_inv sv'
    \<and> sv_events sv' = (sv_events sv)(fd := sv_events sv fd AND NOT (mask_events (real_events evs) (sv_ctxs sv ! fd)))
    \<and> sv_pending sv' = (let n = (if has_event (real_events evs) READ then size_sub (sv_pending sv) 1 else sv_pending sv)
        in if has_event (real_events evs) WRITE then size_sub n 1 else n)"
proof -
  let ?r = "real_events evs" and ?w = "sv_events sv fd" and ?fc = "sv_ctxs sv ! fd"
  let ?w' = "?w AND NOT (mask_events ?r ?fc)"
  let ?sv = "sv\<lparr>sv_epoll := (sv_epoll sv)(fd := watch ?w')\<rparr>"
  have nz: "?w \<noteq> 0" using some by auto
  have m: "mask_ok ?w" using inv by (simp add: sv_inv_def)
  obtain sv1 where 1: "hs_trigger_if (has_event ?r READ) this fd READ ?sv = Inr sv1"
    "sv_epoll sv1 = (sv_epoll sv)(fd := watch ?w')"
    "sv_pending sv1 = (if has_event ?r READ then size_sub (sv_pending sv) 1 else sv_pending sv)"
    "changes_at fd (?w AND NOT (if has_event ?r READ \<and> \<not> hc_persistent (fc_read ?fc) then READ else 0)) sv sv1"
    "hc_persistent (fc_write (sv_ctxs sv1 ! fd)) = hc_persistent (fc_write ?fc)"
    using hs_trigger_if_run [of READ fd ?sv this "has_event ?r READ"] fd sch
    by (auto simp: sv_at ctx_of_def dest: spec [of _ WRITE])
  have s1: "fd < length (sv_ctxs sv1)"
    "fc_events (sv_ctxs sv1 ! fd) = ?w AND NOT (if has_event ?r READ \<and> \<not> hc_persistent (fc_read ?fc) then READ else 0)"
    using 1(4) fd by (simp_all add: changes_at_def)
  obtain sv' where 2: "hs_trigger_if (has_event ?r WRITE) this fd WRITE sv1 = Inr sv'"
    "sv_epoll sv' = sv_epoll sv1"
    "sv_pending sv' = (if has_event ?r WRITE then size_sub (sv_pending sv1) 1 else sv_pending sv1)"
    "changes_at fd (fc_events (sv_ctxs sv1 ! fd) AND NOT (if has_event ?r WRITE \<and> \<not> hc_persistent (fc_write ?fc) then WRITE else 0)) sv1 sv'"
    using hs_trigger_if_run [of WRITE fd sv1 this "has_event ?r WRITE"] s1(1) sch 1(5) by (auto simp: ctx_of_def)
  have "changes_at fd ?w' sv sv'"
    using changes_trans [OF 1(4) 2(4)] unfolding s1(2) mask_events_def has_event_def
    by (simp only: and.assoc bit.de_Morgan_disj)
  moreover have "mask_ok ?w'"
    by (rule mask_cases [OF m]) (simp_all add: mask_events_def mask_defs mask_ok_def)
  ultimately have "sv_inv sv' \<and> sv_events sv' = (sv_events sv)(fd := ?w')"
    using 1(2) 2(2) by (intro sv_settle [OF inv _ fd]) simp_all
  moreover have "hs_idle_event True this (Ready fd evs) sv = Inr sv'"
    using fd some 1(1) 2(1) sv_ctl [OF inv fd nz, of True ?w']
    by (simp add: hs_idle_event_def Let_def sv_at has_event_def del: epoll_ctl.simps)
  ultimately show ?thesis using 1(3) 2(3) by (auto simp: Let_def)
qed

subsection \<open>Steps\<close>

inductive sv_step :: "httpserver \<Rightarrow> httpserver \<Rightarrow> bool" where
  Add: "0 \<le> fd \<Longrightarrow> event_ok e \<Longrightarrow> hs_addEvent ok junk this fiber fd e sock (Some cb) p sv = Inr (r, sv') \<Longrightarrow> sv_step sv sv'"
| Del: "0 \<le> fd \<Longrightarrow> event_ok e \<Longrightarrow> hs_delEvent ok fd e sv = Inr (b, sv') \<Longrightarrow> sv_step sv sv'"
| Cancel: "0 \<le> fd \<Longrightarrow> event_ok e \<Longrightarrow> this \<noteq> None \<Longrightarrow> hs_cancelEvent ok this fd e sv = Inr (b, sv') \<Longrightarrow> sv_step sv sv'"
| CancelAll: "0 \<le> fd \<Longrightarrow> this \<noteq> None \<Longrightarrow> hs_cancelAll ok this fd sv = Inr (b, sv') \<Longrightarrow> sv_step sv sv'"
| Idle: "this \<noteq> None \<Longrightarrow> hs_idle_event ok this ev sv = Inr sv' \<Longrightarrow> sv_step sv sv'"
| Client: "0 \<le> fd \<Longrightarrow> 0 \<le> pfd \<Longrightarrow> handleClient ok1 ok2 junk this fiber pfd (Some fd) sv = Inr sv' \<Longrightarrow> sv_step sv sv'"
| Sweep: "sv_step sv (sweep_sessions sv)"
| Sched: "sv_step sv (sv\<lparr>sv_sched := s, sv_timers := tm, sv_pipe := n\<rparr>)"

inductive_cases sv_stepE: "sv_step sv sv'"

lemma sv_inv_cong: "sv_ctxs sv' = sv_ctxs sv \<Longrightarrow> sv_epoll sv' = sv_epoll sv \<Longrightarrow> sv_inv sv' = sv_inv sv"
  by (simp add: sv_inv_def sv_events_def)

lemma hs_idle_event_inv:
  assumes "sv_inv sv" "this \<noteq> None" "hs_idle_event ok this ev sv = Inr sv'"
  shows "sv_inv sv'"
proof (cases ev)
  case Tickled
  then show ?thesis using assms by (auto simp: hs_idle_event_def sv_inv_def sv_events_def)
next
  case (Ready fd evs)
  have fd: "fd < length (sv_ctxs sv)" using assms(3) Ready by (auto simp: hs_idle_event_def split: if_splits)
  show ?thesis
  proof (cases "ok \<and> sv_events sv fd AND real_events evs \<noteq> 0")
    case True
    then show ?thesis using hs_idle_event_run [OF assms(1) fd assms(2), of evs] assms(3) Ready by auto
  next
    case False
    then have "sv' = sv" using assms(3) Ready fd
      by (auto simp: hs_idle_event_def Let_def sv_at split: if_splits)
    then show ?thesis using assms(1) by simp
  qed
qed

lemma handleClient_run:
  assumes inv: "sv_inv sv" and fds: "0 \<le> fd" "0 \<le> pfd"
  shows "\<exists>sv1 sv'. hs_addEvent ok1 junk this fiber pfd READ (Some fd) (Some (SessCb fd PipeCb)) False sv = Inr sv1
    \<and> sv_inv (snd sv1) \<and> handleClient ok1 ok2 junk this fiber pfd (Some fd) sv = Inr sv' \<and> sv_inv sv'
    \<and> sv_sessions sv' = (sv_sessions sv)(fd \<mapsto> regist_event_read (new_HttpSession fd))
    \<and> (ok1 \<and> ok2 \<and> pfd \<noteq> fd \<and> \<not> has_event (sv_events sv (nat fd)) READ \<and> \<not> has_event (sv_events sv (nat pfd)) READ \<longrightarrow>
         sv_events sv' = (sv_events sv)(nat pfd := sv_events sv (nat pfd) OR READ, nat fd := sv_events sv (nat fd) OR READ)
         \<and> fc_sock (sv_ctxs sv' ! nat fd) = Some fd \<and> hc_cb (fc_read (sv_ctxs sv' ! nat fd)) = Some (SessCb fd RecvCb))"
proof -
  obtain r sv1 where 1: "hs_addEvent ok1 junk this fiber pfd READ (Some fd) (Some (SessCb fd PipeCb)) False sv = Inr (r, sv1)"
    "sv_inv sv1" "sv_sessions sv1 = sv_sessions sv"
    "ok1 \<and> \<not> has_event (sv_events sv (nat pfd)) READ \<Longrightarrow> sv_events sv1 = (sv_events sv)(nat pfd := sv_events sv (nat pfd) OR READ)"
    using sv_add_run [OF inv fds(2), of READ "Some (SessCb fd PipeCb)" fiber ok1 junk this "Some fd" False] by (auto split: if_splits)
  let ?sv = "sv1\<lparr>sv_sessions := (sv_sessions sv1)(fd \<mapsto> regist_event_read (new_HttpSession fd))\<rparr>"
  have inv1: "sv_inv ?sv" and ev1: "sv_events ?sv = sv_events sv1" using 1(2) by (simp_all add: sv_inv_def sv_events_def)
  obtain r' sv' where 2: "hs_addEvent ok2 junk this fiber fd READ (Some fd) (Some (SessCb fd RecvCb)) False ?sv = Inr (r', sv')"
    "sv_inv sv'" "sv_sessions sv' = sv_sessions ?sv"
    "ok2 \<and> \<not> has_event (sv_events sv1 (nat fd)) READ \<Longrightarrow>
       sv_events sv' = (sv_events sv1)(nat fd := sv_events sv1 (nat fd) OR READ) \<and> fc_sock (sv_ctxs sv' ! nat fd) = Some fd
       \<and> hc_cb (ctx_of READ (sv_ctxs sv' ! nat fd)) = Some (SessCb fd RecvCb)"
    using sv_add_run [OF inv1 fds(1), of READ "Some (SessCb fd RecvCb)" fiber ok2 junk this "Some fd" False] ev1
    by (auto split: if_splits)
  have "handleClient ok1 ok2 junk this fiber pfd (Some fd) sv = Inr sv'"
    using 1(1) 2(1) by (simp add: handleClient_def)
  then show ?thesis using 1 2 fds by (intro exI [of _ "(r, sv1)"] exI [of _ sv']) (auto simp: ctx_of_def nat_eq_iff)
qed

lemma sv_step_inv: "sv_step sv sv' \<Longrightarrow> sv_inv sv \<Longrightarrow> sv_inv sv'"
proof (induction rule: sv_step.induct)
  case (Add fd e ok junk this fiber sock cb p sv r sv')
  then show ?case using sv_add_run [OF Add(4,1,2), of "Some cb" fiber ok junk this sock p] by auto
next
  case (Del fd e ok sv b sv')
  then show ?case using sv_del_run [OF Del(4,1,2), of ok]
    by (cases "has_event (sv_events sv (nat fd)) e") (auto simp: hs_delEvent_def hs_no_event_run)
next
  case (Cancel fd e this ok sv b sv')
  then show ?case using sv_cancel_run [OF Cancel(5,1,2) _ Cancel(3), of ok]
    by (cases "has_event (sv_events sv (nat fd)) e") (auto simp: hs_cancelEvent_def hs_no_event_run)
next
  case (CancelAll fd this ok sv b sv')
  show ?case
  proof (cases "sv_events sv (nat fd) = 0")
    case True
    then show ?thesis using CancelAll
      by (auto simp: hs_cancelAll_def sv_events_def events_at_def split: if_splits)
  next
    case False
    then show ?thesis using sv_cancelAll_run [OF CancelAll(4,1) False CancelAll(2), of ok] CancelAll(3) by auto
  qed
next
  case (Idle this ok ev sv sv')
  then show ?case using hs_idle_event_inv by blast
next
  case (Client fd pfd ok1 ok2 junk this fiber sv sv')
  then show ?case using handleClient_run [OF Client(4,1,2), of ok1 junk this fiber ok2] by auto
next
  case (Sweep sv)
  then show ?case using sv_inv_cong [of "sweep_sessions sv" sv] by (simp add: sweep_sessions_def)
next
  case (Sched sv s tm n)
  then show ?case by (simp add: sv_inv_def sv_events_def)
qed

interpretation sv: event_table sv_inv sv_events sv_epoll sv_step
proof
  fix m m' fd
  show "sv_inv m \<Longrightarrow> sv_step m m' \<Longrightarrow> sv_inv m'" by (rule sv_step_inv)
  show "sv_inv m \<Longrightarrow> sv_epoll m fd = (if sv_events m fd = 0 then None else Some (EPOLLET OR sv_events m fd))"
    by (simp add: sv_inv_def watch_inv_def watch_def sv_events_def)
  show "sv_inv m \<Longrightarrow> mask_ok (sv_events m fd)" by (simp add: sv_inv_def)
qed

lemma sv_inv_new:
  assumes "new_HttpServer junk s tm ids = Inr sv"
  shows "sv_inv sv"
proof -
  have "sv_ctxs sv = replicate 32 (new_hfd junk)" "sv_epoll sv = Map.empty"
    using assms by (auto simp: new_HttpServer_def contextResize_def res_simps)
  then show ?thesis by (simp add: sv_inv_def watch_inv_def sv_events_def events_at_def watch_def) (simp add: new_hfd_def)
qed

subsection \<open>Properties\<close>

definition demo_server :: httpserver where
  "demo_server = projr (new_HttpServer False
     \<lparr>m_fibers = [], m_rootFiber = False, m_threads = 0, m_threadIds = [], m_threadCount = 1,
      m_activeThreadCount = 0, m_idleThreadCount = 0, m_stopping = True, m_autoStop = False, m_rootThread = -1\<rparr>
     (new_TimerManager 0) [1])"

lemma demo_server_new:
  "new_HttpServer False
     \<lparr>m_fibers = [], m_rootFiber = False, m_threads = 0, m_threadIds = [], m_threadCount = 1,
      m_activeThreadCount = 0, m_idleThreadCount = 0, m_stopping = True, m_autoStop = False, m_rootThread = -1\<rparr>
     (new_TimerManager 0) [1] = Inr demo_server"
  by (simp add: demo_server_def new_HttpServer_def sched_start_def)

lemma demo_server_events [simp]: "sv_events demo_server fd = 0"
  by (simp add: demo_server_def new_HttpServer_def sched_start_def sv_events_def events_at_def contextResize_def)
    (simp add: new_hfd_def)



text \<open>
  C34. The listening socket stays armed: when the kernel reports it readable, the server schedules
  the accepting callback behind what is queued and leaves the event registered and watched, so
  the next connection is reported too. The count of pending events is decremented all the same.
\<close>

theorem listener_stays_armed:
  assumes "new_HttpServer junk s tm ids = Inr sv0" "sv_step\<^sup>*\<^sup>* sv0 sv" "real_events evs = READ"
    and "sv_events sv fd = READ" "hc_persistent (fc_read (sv_ctxs sv ! fd))"
    and "hc_cb (fc_read (sv_ctxs sv ! fd)) = Some AcceptCb" "hc_scheduler (fc_read (sv_ctxs sv ! fd)) = Some Self"
  shows "\<exists>sv'. hs_idle_event True (Some Self) (Ready fd evs) sv = Inr sv'
    \<and> m_fibers (sv_sched sv') = m_fibers (sv_sched sv) @ [cb_task (Some AcceptCb) (-1)]
    \<and> sv_events sv' = sv_events sv \<and> sv_epoll sv' fd = Some (EPOLLET OR READ)
    \<and> sv_pending sv' = size_sub (sv_pending sv) 1"
proof -
  have inv: "sv_inv sv" using sv.steps_good [OF assms(2) sv_inv_new [OF assms(1)]] .
  have r: "READ \<noteq> 0" "READ AND READ = READ" "READ AND WRITE = 0" by (simp_all add: mask_defs)
  have fd: "fd < length (sv_ctxs sv)" using assms(4) r(1) by (intro sv_registered) simp
  obtain sv' where run: "hs_idle_event True (Some Self) (Ready fd evs) sv = Inr sv'" "sv_inv sv'"
    "sv_events sv' = (sv_events sv)(fd := sv_events sv fd AND NOT (mask_events (real_events evs) (sv_ctxs sv ! fd)))"
    "sv_pending sv' = size_sub (sv_pending sv) 1"
    using hs_idle_event_run [OF inv fd, of "Some Self" evs] assms(3,4) r by (auto simp: has_event_def Let_def)
  have mask: "mask_events READ (sv_ctxs sv ! fd) = 0" using assms(5) r by (simp add: mask_events_def)
  then have ev: "sv_events sv' = sv_events sv" using run(3) assms(3) by simp
  have "sv_epoll sv' fd = Some (EPOLLET OR READ)" using sv.good_watch [OF run(2), of fd] ev assms(4) r(1) by simp
  moreover have "m_fibers (sv_sched sv') = m_fibers (sv_sched sv) @ [cb_task (Some AcceptCb) (-1)]"
  proof -
    have e: "fc_events (sv_ctxs sv ! fd) = READ" using sv_at [OF fd] assms(4) by simp
    have ctl: "epoll_ctl True EPOLL_CTL_MOD fd (EPOLLET OR READ) (sv_epoll sv) = (True, (sv_epoll sv)(fd := watch READ))"
      using sv_ctl [OF inv fd, of True READ] assms(4) r(1) by simp
    show ?thesis using run(1) fd assms(3,5-7) r
      by (auto simp: hs_idle_event_def e mask ctl hs_trigger_if_def hs_triggerEvent_def getContext_def sv_schedule_def
          scheduleNoLock_def sv_tickle_def sv_pending_dec_def sv_set_def has_work_def cb_task_def Let_def
          simp del: epoll_ctl.simps split: if_splits)
  qed
  ultimately show ?thesis using run(1,4) ev by blast
qed

definition listening_server :: httpserver where
  "listening_server = snd (projr (hs_addEvent True False (Some Self) (0, EXEC) 5 READ (Some 5) (Some AcceptCb) True demo_server))"

lemma listening_reached: "sv_step\<^sup>*\<^sup>* demo_server listening_server"
proof -
  let ?r = "hs_addEvent True False (Some Self) (0, EXEC) 5 READ (Some 5) (Some AcceptCb) True demo_server"
  have "\<not> isl ?r" by code_simp
  then have "?r = Inr (fst (projr ?r), listening_server)" by (simp add: listening_server_def)
  then have "sv_step demo_server listening_server" by (intro Add [of 5 READ]) simp_all
  then show ?thesis by blast
qed

theorem listener_stays_armed_witness:
  "\<exists>sv'. hs_idle_event True (Some Self) (Ready 5 EPOLLIN) listening_server = Inr sv'
    \<and> m_fibers (sv_sched sv') = [cb_task (Some AcceptCb) (-1)] \<and> sv_events sv' 5 = READ \<and> sv_pending sv' = 0"
proof -
  have h: "real_events EPOLLIN = READ" "sv_events listening_server 5 = READ"
    "hc_persistent (fc_read (sv_ctxs listening_server ! 5))"
    "hc_cb (fc_read (sv_ctxs listening_server ! 5)) = Some AcceptCb"
    "hc_scheduler (fc_read (sv_ctxs listening_server ! 5)) = Some Self"
    "m_fibers (sv_sched listening_server) = []" "sv_pending listening_server = 1" by code_simp+
  from listener_stays_armed [OF demo_server_new listening_reached h(1-5)] show ?thesis using h(2,6,7) by auto
qed

text \<open>The count that a persistent event has brought to 0 wraps around at the next event.\<close>

lemma pending_count_wraps:
  assumes "sv_inv sv" "fd < length (sv_ctxs sv)" "real_events evs = READ" "has_event (sv_events sv fd) READ" "sv_pending sv = 0"
  shows "\<exists>sv'. hs_idle_event True (Some Self) (Ready fd evs) sv = Inr sv' \<and> sv_pending sv' = 2 ^ 64 - 1"
proof -
  have "READ AND WRITE = 0" "READ AND READ = READ" "READ \<noteq> 0" by (simp_all add: mask_defs)
  then show ?thesis using hs_idle_event_run [OF assms(1,2), of "Some Self" evs] assms(3-5)
    by (auto simp: has_event_def Let_def size_sub_def)
qed

text \<open>
  C35. A queued reset hits the wrong connection: when a closed descriptor is in the reset queue and
  the kernel has given its number to a new connection that is already registered, the next round
  of \<open>idle\<close> clears the new registration while the kernel goes on watching; from then on every
  registration of the descriptor fails.
\<close>

theorem reset_drops_connection:
  assumes "new_HttpServer junk s tm ids = Inr sv0" "sv_step\<^sup>*\<^sup>* sv0 sv" "sv_events sv (nat fd) \<noteq> 0" "0 \<le> fd" "event_ok e"
  defines "sv' \<equiv> drain_resets (sv\<lparr>sv_reset := [nat fd]\<rparr>)"
  shows "sv_events sv' (nat fd) = 0 \<and> sv_epoll sv' (nat fd) \<noteq> None
    \<and> hs_addEvent ok junk' this fiber fd e sock (Some cb) p sv' = Inr (-1, sv')"
proof -
  have inv: "sv_inv sv" using sv.steps_good [OF assms(2) sv_inv_new [OF assms(1)]] .
  note len = sv_registered [OF assms(3)]
  have ctxs: "sv_ctxs sv' = (sv_ctxs sv)[nat fd := hs_reset_ctx (sv_ctxs sv ! nat fd)]" "sv_epoll sv' = sv_epoll sv"
    by (simp_all add: sv'_def drain_resets_def)
  have zero: "fc_events (sv_ctxs sv' ! nat fd) = 0" using ctxs(1) len by (simp add: hs_reset_ctx_def)
  have ep: "sv_epoll sv' (nat fd) \<noteq> None" using sv.good_watch [OF inv, of "nat fd"] assms(3) ctxs(2) by simp
  have "grow_for (new_hfd junk') fd (sv_ctxs sv') = Inr (sv_ctxs sv')"
    using ctxs(1) len assms(4) by (simp add: grow_for_def)
  then have "hs_addEvent ok junk' this fiber fd e sock (Some cb) p sv' = Inr (-1, sv')"
    using zero ep by (auto simp: hs_addEvent_def Let_def)
  then show ?thesis using ep zero len ctxs(1) by (simp add: sv_at)
qed

theorem reset_drops_connection_witness:
  "sv_events (drain_resets (listening_server\<lparr>sv_reset := [5]\<rparr>)) 5 = 0
    \<and> sv_epoll (drain_resets (listening_server\<lparr>sv_reset := [5]\<rparr>)) 5 \<noteq> None"
proof -
  have "sv_events listening_server (nat 5) \<noteq> 0" by code_simp
  from reset_drops_connection [OF demo_server_new listening_reached this, of READ] show ?thesis by simp
qed

text \<open>
  A new client gets a session that can answer: \<open>handleClient\<close> registers the pipe and the
  socket for reading and stores a new session under the descriptor, and a response of less than
  the 4096 bytes of the session's buffer is accepted as a whole and signalled through the pipe.
\<close>

lemma client_served:
  assumes "new_HttpServer junk s tm ids = Inr sv0" "sv_step\<^sup>*\<^sup>* sv0 sv" "0 \<le> fd" "0 \<le> pfd" "pfd \<noteq> fd"
    and "sv_events sv (nat fd) = 0" "\<not> has_event (sv_events sv (nat pfd)) READ" "data \<noteq> []" "length data < 4096"
  shows "\<exists>sv1 sv2 s. handleClient True True junk' this fiber pfd (Some fd) sv = Inr sv1
    \<and> sv_events sv1 (nat fd) = READ \<and> has_event (sv_events sv1 (nat pfd)) READ
    \<and> response fd data sv1 = Inr (Some sv2) \<and> sv_sessions sv2 fd = Some s
    \<and> pending (m_write_buffer s) = data \<and> hs_pipe s = 1"
proof -
  have inv: "sv_inv sv" using sv.steps_good [OF assms(2) sv_inv_new [OF assms(1)]] .
  let ?s = "regist_event_read (new_HttpSession fd)"
  obtain sv1 where 1: "handleClient True True junk' this fiber pfd (Some fd) sv = Inr sv1"
    "sv_sessions sv1 = (sv_sessions sv)(fd \<mapsto> ?s)"
    "sv_events sv1 = (sv_events sv)(nat pfd := sv_events sv (nat pfd) OR READ, nat fd := sv_events sv (nat fd) OR READ)"
    "fc_sock (sv_ctxs sv1 ! nat fd) = Some fd"
    using handleClient_run [OF inv assms(3,4), of True junk' this fiber True] assms(5-7) by auto
  have ev: "sv_events sv1 (nat fd) = READ" "has_event (sv_events sv1 (nat pfd)) READ"
    using 1(3) assms(3-6) has_event_own [OF sv.good_mask [OF inv], of READ "nat pfd"] by (auto simp: nat_eq_iff)
  have len: "nat fd < length (sv_ctxs sv1)" using ev(1) by (intro sv_registered) (simp add: mask_defs)
  have nw: "fc_events (sv_ctxs sv1 ! nat fd) AND WRITE = 0" using ev(1) sv_at [OF len] by (simp add: mask_defs)
  have s: "m_write_buffer ?s = new_HttpBuffer 4096" "m_send_flag ?s" "hs_pipe ?s = 0"
    by (simp_all add: regist_event_read_def add_read_def new_HttpSession_def add_pipe_def session_buffer_size_def)
  have wb: "hb_lin (m_write_buffer ?s)" "m_end_idx (m_write_buffer ?s) + length data < hb_capacity (m_write_buffer ?s)"
    "pending (m_write_buffer ?s) = []"
    using assms(9) unfolding s(1) by (simp_all add: hb_lin_new) (simp_all add: new_HttpBuffer_def pending_def)
  obtain wb' s' where "session_write_buffer data ?s = Inr (Some (True, s'), s')" "pending wb' = data"
    "s' = ?s\<lparr>m_write_buffer := wb', hs_pipe := 1\<rparr>"
    using write_buffer_run [OF wb(1) assms(8) wb(2)] wb(3) s(2,3) by auto
  then have "response fd data sv1 = Inr (Some (sv1\<lparr>sv_sessions := (sv_sessions sv1)(fd \<mapsto> s')\<rparr>))"
    "pending (m_write_buffer s') = data" "hs_pipe s' = 1"
    using 1(2,4) len nw assms(3) by (simp_all add: response_def Let_def)
  then show ?thesis using 1(1) ev by auto
qed

lemma client_served_example:
  "\<exists>sv1 sv2 s. handleClient True True False (Some Self) (0, EXEC) 8 (Some 7) demo_server = Inr sv1
    \<and> response 7 ''OK'' sv1 = Inr (Some sv2) \<and> sv_sessions sv2 7 = Some s \<and> pending (m_write_buffer s) = ''OK''"
  using client_served [OF demo_server_new rtranclp.rtrancl_refl, of 7 8 "''OK''" False "Some Self" "(0, EXEC)"] by auto

end
