(* ===== verification/SendBuffer.thy ===== *)
theory SendBuffer
  imports Json HttpServer
begin

text \<open>
  \<open>sherry/http/http_send_buffer.h\<close>, \<open>http_send_buffer.cc\<close>: what the devices have reported, merged for each
  connection and printed. The file is left out of the build. Parsing and printing of JSON text are
  parameters; so is the conversion of a floating-point number to \<open>int\<close>, which the language leaves
  open out of range. With a server attached, \<open>addData\<close> also registers a write of the merged text
  (\<open>addData_server\<close>); its first half says in its result what is to be sent.
\<close>

subsection \<open>The merged data\<close>

record deviceinstance =
  download_details :: json
  query_details :: json

type_synonym device_key = "int \<times> int \<times> string"

text \<open>The three nested maps are one list of entries; their order does not matter to the result.\<close>

record otadata =
  manager_info :: string
  devices :: "(device_key \<times> deviceinstance) list"

definition new_OTAData :: otadata where
  "new_OTAData = \<lparr>manager_info = [], devices = []\<rparr>"

text \<open>\<open>at\<close>, and the conversions to \<open>int\<close> and \<open>std::string\<close>; no result where they throw.\<close>

definition j_at :: "string \<Rightarrow> json \<Rightarrow> json option" where
  "j_at k j = (if j_contains k j then Some (j_get k j) else None)"

fun j_to_int :: "(rat \<Rightarrow> int) \<Rightarrow> json \<Rightarrow> int option" where
  "j_to_int ftoi (JInt i) = Some (to_int32 i)"
| "j_to_int ftoi (JFloat r) = Some (ftoi r)"
| "j_to_int ftoi (JBool b) = Some (if b then 1 else 0)"
| "j_to_int ftoi _ = None"

fun j_to_string :: "json \<Rightarrow> string option" where
  "j_to_string (JStr s) = Some s"
| "j_to_string _ = None"

definition message_key :: "(rat \<Rightarrow> int) \<Rightarrow> json \<Rightarrow> device_key option" where
  "message_key ftoi j =
     Option.bind (Option.bind (j_at ''device_type'' j) (j_to_int ftoi)) (\<lambda>device_type.
     Option.bind (Option.bind (j_at ''device_no'' j) (j_to_int ftoi)) (\<lambda>device_no.
     Option.bind (Option.bind (j_at ''name'' j) j_to_string) (\<lambda>name. Some (device_type, device_no, name))))"

definition instance_at :: "device_key \<Rightarrow> otadata \<Rightarrow> deviceinstance" where
  "instance_at k d = (case map_of (devices d) k of Some i \<Rightarrow> i | None \<Rightarrow> \<lparr>download_details = JNull, query_details = JNull\<rparr>)"

text \<open>\<open>mergeFromJson\<close>; every exception is caught and leaves the data as it is.\<close>

definition mergeFromJson :: "(string \<Rightarrow> json option) \<Rightarrow> (rat \<Rightarrow> int) \<Rightarrow> string \<Rightarrow> otadata \<Rightarrow> otadata" where
  "mergeFromJson parse ftoi json_str d =
     (case parse json_str of
        None \<Rightarrow> d
      | Some j \<Rightarrow>
          (case message_key ftoi j of
             None \<Rightarrow> d
           | Some k \<Rightarrow>
               let i = instance_at k d;
                   i = (if j_contains ''download_details'' j then i\<lparr>download_details := j_get ''download_details'' j\<rparr> else i);
                   i = (if j_contains ''query_details'' j then i\<lparr>query_details := j_get ''query_details'' j\<rparr> else i) in
               d\<lparr>devices := (k, i) # filter (\<lambda>(k', _). k' \<noteq> k) (devices d)\<rparr>))"

text \<open>\<open>j[k\<^sub>1]...[k\<^sub>n] = v\<close>.\<close>

fun j_set_path :: "string list \<Rightarrow> json \<Rightarrow> json \<Rightarrow> json res" where
  "j_set_path [] v j = Inr v"
| "j_set_path (k # ks) v j = bindR (j_set_path ks v (j_get k j)) (\<lambda>w. j_set k w j)"

fun j_get_path :: "string list \<Rightarrow> json \<Rightarrow> json" where
  "j_get_path [] j = j"
| "j_get_path (k # ks) j = j_get_path ks (j_get k j)"

fun device_path :: "device_key \<Rightarrow> string list" where
  "device_path (t, n, name) = [''devices'', dec_int t, dec_int n, name]"

definition instance_json :: "deviceinstance \<Rightarrow> json" where
  "instance_json i = JObj [(''download_details'', download_details i), (''query_details'', query_details i)]"

fun devices_json :: "(device_key \<times> deviceinstance) list \<Rightarrow> json \<Rightarrow> json res" where
  "devices_json [] j = Inr j"
| "devices_json ((k, i) # ds) j = bindR (j_set_path (device_path k) (instance_json i) j) (devices_json ds)"

definition otadata_to_json :: "otadata \<Rightarrow> json res" where
  "otadata_to_json d = bindR (j_set ''manager_info'' (JStr (manager_info d)) JNull) (devices_json (devices d))"

definition otadata_to_string :: "(json \<Rightarrow> string) \<Rightarrow> otadata \<Rightarrow> string res" where
  "otadata_to_string dump d = bindR (otadata_to_json d) (\<lambda>j. Inr (dump j))"

subsection \<open>The buffers of the connections\<close>

text \<open>\<open>HttpSocketBuffer\<close> is the data under a lock; \<open>HttpSendBuffer\<close> has one for each key.\<close>

record sendbuffer =
  m_mp :: "int \<rightharpoonup> otadata"
  m_server :: bool

definition new_HttpSendBuffer :: "bool \<Rightarrow> sendbuffer" where
  "new_HttpSendBuffer server = \<lparr>m_mp = Map.empty, m_server = server\<rparr>"

text \<open>\<open>addData\<close>: the text that the server is asked to send on the connection, if there is a server.\<close>

definition addData ::
  "(string \<Rightarrow> json option) \<Rightarrow> (rat \<Rightarrow> int) \<Rightarrow> (json \<Rightarrow> string) \<Rightarrow> int \<Rightarrow> string \<Rightarrow> sendbuffer \<Rightarrow> ((int \<times> string) option \<times> sendbuffer) res" where
  "addData parse ftoi dump key data b =
     (let d = (case m_mp b key of Some d \<Rightarrow> d | None \<Rightarrow> new_OTAData);
          d = mergeFromJson parse ftoi data d in
      bindR (otadata_to_string dump d) (\<lambda>new_data.
        Inr (if m_server b then Some (key, new_data) else None, b\<lparr>m_mp := (m_mp b)(key \<mapsto> d)\<rparr>)))"

definition getData :: "(json \<Rightarrow> string) \<Rightarrow> int \<Rightarrow> sendbuffer \<Rightarrow> string res" where
  "getData dump key b =
     (case m_mp b key of
        None \<Rightarrow> Inr []
      | Some d \<Rightarrow> otadata_to_string dump d)"

subsection \<open>Paths in JSON values\<close>

fun j_tree :: "nat \<Rightarrow> json \<Rightarrow> bool" where
  "j_tree 0 j = True"
| "j_tree (Suc n) j = (case j of JNull \<Rightarrow> True | JObj ms \<Rightarrow> (\<forall>m\<in>set ms. j_tree n (snd m)) | _ \<Rightarrow> False)"

lemma j_tree_get: "j_tree (Suc n) j \<Longrightarrow> j_tree n (j_get k j)"
proof -
  assume a: "j_tree (Suc n) j"
  have "j_tree n JNull" by (cases n) auto
  then show ?thesis using a by (cases j) (auto simp: j_get_def split: option.splits dest!: map_of_SomeD)
qed

lemma j_set_tree:
  assumes "j_tree (Suc n) j" "j_tree n v"
  shows "\<exists>j'. j_set k v j = Inr j' \<and> j_tree (Suc n) j'"
  using assms by (auto simp: j_set_def split: json.splits)

lemma j_set_path_ok:
  assumes "j_tree (length ks) j"
  shows "\<exists>j'. j_set_path ks v j = Inr j' \<and> j_tree (length ks) j'"
  using assms
proof (induction ks arbitrary: j)
  case (Cons k ks)
  then obtain w where "j_set_path ks v (j_get k j) = Inr w" "j_tree (length ks) w" using j_tree_get by (metis length_Cons)
  then show ?case using j_set_tree Cons.prems by simp
qed simp

lemma j_get_path_set:
  assumes "j_set_path ks v j = Inr j'" "length ls = length ks"
  shows "j_get_path ls j' = (if ls = ks then v else j_get_path ls j)"
  using assms
proof (induction ks arbitrary: ls j j')
  case (Cons k ks)
  then obtain w where w: "j_set_path ks v (j_get k j) = Inr w" "j_set k w j = Inr j'" by (auto simp: res_simps)
  obtain l ls' where ls: "ls = l # ls'" "length ls' = length ks" using Cons.prems(2) by (cases ls) auto
  show ?case using Cons.IH [OF w(1) ls(2)] j_get_set [OF w(2)] j_get_set_other [OF w(2), of l]
    by (cases "l = k") (auto simp: ls(1))
qed simp

lemma inj_dec: "dec m = dec n \<longleftrightarrow> m = n"
  by (metis digits_val_dec)

lemma inj_dec_int: "dec_int a = dec_int b \<longleftrightarrow> a = b"
proof -
  have "hd (dec n) \<noteq> CHR ''-''" for n using dec_digits [of n] by (cases "dec n") (auto simp: is_digit_def)
  then have "dec n \<noteq> CHR ''-'' # s" for n s by (metis list.sel(1))
  then show ?thesis by (auto simp: dec_int_def inj_dec dest: sym)
qed

lemma device_path_inj: "device_path k = device_path k' \<longleftrightarrow> k = k'"
  by (cases k; cases k') (simp add: inj_dec_int)

lemma length_device_path [simp]: "length (device_path k) = 4"
  by (cases k) simp

subsection \<open>What is printed is what was merged\<close>

text \<open>The value under construction: an object with a tree of maps for the devices.\<close>

definition j_root :: "json \<Rightarrow> bool" where
  "j_root j \<longleftrightarrow> (\<exists>ms. j = JObj ms) \<and> j_tree 3 (j_get ''devices'' j)"

lemma j_root_set:
  assumes "j_root j"
  shows "\<exists>j'. j_set_path (device_path k) v j = Inr j' \<and> j_root j' \<and>
    (\<forall>k'. j_get_path (device_path k') j' = (if k' = k then v else j_get_path (device_path k') j))"
proof -
  obtain t n name where k: "k = (t, n, name)" by (cases k)
  obtain w where w: "j_set_path [dec_int t, dec_int n, name] v (j_get ''devices'' j) = Inr w" "j_tree 3 w"
    using j_set_path_ok [of "[dec_int t, dec_int n, name]" "j_get ''devices'' j" v] assms
    by (auto simp: j_root_def numeral_3_eq_3 simp del: j_set_path.simps)
  obtain j' where j': "j_set ''devices'' w j = Inr j'" "\<exists>ms. j' = JObj ms"
    using assms by (auto simp: j_root_def j_set_def)
  then have s: "j_set_path (device_path k) v j = Inr j'" using w(1) by (simp add: k)
  moreover have "j_root j'" using j' w(2) j_get_set [OF j'(1)] by (simp add: j_root_def)
  moreover have "j_get_path (device_path k') j' = (if k' = k then v else j_get_path (device_path k') j)" for k'
    using j_get_path_set [OF s, of "device_path k'"] by (simp only: length_device_path device_path_inj)
  ultimately show ?thesis by blast
qed

lemma devices_json_lookup:
  assumes "j_root j" "distinct (map fst ds)"
  shows "\<exists>j'. devices_json ds j = Inr j' \<and>
    (\<forall>k. j_get_path (device_path k) j' = (case map_of ds k of Some i \<Rightarrow> instance_json i | None \<Rightarrow> j_get_path (device_path k) j))"
  using assms
proof (induction ds arbitrary: j)
  case (Cons d ds)
  obtain k i where d: "d = (k, i)" by (cases d)
  obtain j1 where j1: "j_set_path (device_path k) (instance_json i) j = Inr j1" "j_root j1"
      "\<And>k'. j_get_path (device_path k') j1 = (if k' = k then instance_json i else j_get_path (device_path k') j)"
    using j_root_set [OF Cons.prems(1)] by metis
  obtain j' where j': "devices_json ds j1 = Inr j'"
      "\<And>k'. j_get_path (device_path k') j' = (case map_of ds k' of Some i \<Rightarrow> instance_json i | None \<Rightarrow> j_get_path (device_path k') j1)"
    using Cons.IH [OF j1(2)] Cons.prems(2) by auto
  have "map_of ds k = None" using Cons.prems(2) by (simp add: d map_of_eq_None_iff)
  then show ?case using j1 j' by (auto simp: d split: option.splits)
qed simp

definition data_ok :: "otadata \<Rightarrow> bool" where
  "data_ok d \<longleftrightarrow> distinct (map fst (devices d))"

lemma map_of_put: "map_of ((k, i) # filter (\<lambda>(k', _). k' \<noteq> k) ds) k' = (if k' = k then Some i else map_of ds k')"
  by (induction ds) auto

lemma merge_ok: "data_ok d \<Longrightarrow> data_ok (mergeFromJson parse ftoi t d)"
  by (auto simp: mergeFromJson_def data_ok_def Let_def distinct_map_filter split: option.split)

text \<open>The last value that the texts give to a field of a device.\<close>

definition reported :: "(string \<Rightarrow> json option) \<Rightarrow> (rat \<Rightarrow> int) \<Rightarrow> string \<Rightarrow> device_key \<Rightarrow> string \<Rightarrow> json \<Rightarrow> json" where
  "reported parse ftoi fld k t old =
     (case parse t of
        Some j \<Rightarrow> if message_key ftoi j = Some k \<and> j_contains fld j then j_get fld j else old
      | None \<Rightarrow> old)"

lemma merge_reported:
  "download_details (instance_at k (mergeFromJson parse ftoi t d)) =
     reported parse ftoi ''download_details'' k t (download_details (instance_at k d))"
  "query_details (instance_at k (mergeFromJson parse ftoi t d)) =
     reported parse ftoi ''query_details'' k t (query_details (instance_at k d))"
  by (auto simp: mergeFromJson_def reported_def Let_def instance_at_def map_of_put split: option.splits simp del: map_of.simps filter.simps)

lemma fold_merge:
  assumes "data_ok d"
  shows "data_ok (fold (mergeFromJson parse ftoi) ts d)"
    "download_details (instance_at k (fold (mergeFromJson parse ftoi) ts d)) =
       fold (reported parse ftoi ''download_details'' k) ts (download_details (instance_at k d))"
    "query_details (instance_at k (fold (mergeFromJson parse ftoi) ts d)) =
       fold (reported parse ftoi ''query_details'' k) ts (query_details (instance_at k d))"
  using assms by (induction ts arbitrary: d) (auto simp: merge_ok merge_reported)

lemma printed_fields:
  assumes "data_ok d"
  shows "\<exists>j. otadata_to_json d = Inr j \<and>
    (\<forall>k. j_get_path (device_path k @ [''download_details'']) j = download_details (instance_at k d) \<and>
         j_get_path (device_path k @ [''query_details'']) j = query_details (instance_at k d))"
proof -
  let ?j = "JObj [(''manager_info'', JStr (manager_info d))]"
  have r: "j_root ?j" by (simp add: j_root_def j_get_def numeral_3_eq_3)
  have path_snoc: "j_get_path (ks @ [f]) j = j_get f (j_get_path ks j)" for ks f j
    by (induction ks arbitrary: j) auto
  have null: "j_get_path (device_path k) ?j = JNull" for k by (cases k) (simp add: j_get_def)
  obtain j where "devices_json (devices d) ?j = Inr j"
      "\<And>k. j_get_path (device_path k) j = (case map_of (devices d) k of Some i \<Rightarrow> instance_json i | None \<Rightarrow> JNull)"
    using devices_json_lookup [OF r] assms null unfolding data_ok_def by metis
  then show ?thesis
    by (auto simp: otadata_to_json_def j_set_def path_snoc instance_at_def instance_json_def j_get_def split: option.split)
qed

fun addAll ::
  "(string \<Rightarrow> json option) \<Rightarrow> (rat \<Rightarrow> int) \<Rightarrow> (json \<Rightarrow> string) \<Rightarrow> (int \<times> string) list \<Rightarrow> sendbuffer \<Rightarrow> sendbuffer res" where
  "addAll parse ftoi dump [] b = Inr b"
| "addAll parse ftoi dump ((key, t) # xs) b = bindR (addData parse ftoi dump key t b) (\<lambda>(_, b). addAll parse ftoi dump xs b)"

definition buffer_ok :: "sendbuffer \<Rightarrow> bool" where
  "buffer_ok b \<longleftrightarrow> (\<forall>d \<in> ran (m_mp b). data_ok d)"

text \<open>The texts of one connection, and its data after them.\<close>

definition texts_of :: "int \<Rightarrow> (int \<times> string) list \<Rightarrow> string list" where
  "texts_of key xs = map snd (filter (\<lambda>x. fst x = key) xs)"

lemma addData_ok:
  assumes "buffer_ok b"
  shows "\<exists>r b'. addData parse ftoi dump key t b = Inr (r, b') \<and> buffer_ok b' \<and>
    m_mp b' = (m_mp b)(key \<mapsto> mergeFromJson parse ftoi t (case m_mp b key of Some d \<Rightarrow> d | None \<Rightarrow> new_OTAData))"
proof -
  let ?d = "mergeFromJson parse ftoi t (case m_mp b key of Some d \<Rightarrow> d | None \<Rightarrow> new_OTAData)"
  have d: "data_ok ?d"
    using assms by (intro merge_ok) (auto simp: buffer_ok_def data_ok_def new_OTAData_def ran_def split: option.split)
  then obtain j where "otadata_to_json ?d = Inr j" using printed_fields by blast
  moreover have "buffer_ok (b\<lparr>m_mp := (m_mp b)(key \<mapsto> ?d)\<rparr>)"
    using assms d by (auto simp: buffer_ok_def ran_def)
  ultimately show ?thesis by (auto simp: addData_def otadata_to_string_def Let_def)
qed

lemma addAll_ok:
  assumes "buffer_ok b"
  shows "\<exists>b'. addAll parse ftoi dump xs b = Inr b' \<and> buffer_ok b' \<and>
    (\<forall>key. m_mp b' key = (if texts_of key xs = [] then m_mp b key
       else Some (fold (mergeFromJson parse ftoi) (texts_of key xs) (case m_mp b key of Some d \<Rightarrow> d | None \<Rightarrow> new_OTAData))))"
  using assms
proof (induction xs arbitrary: b)
  case (Cons x xs)
  obtain key t where x: "x = (key, t)" by (cases x)
  obtain r b1 where b1: "addData parse ftoi dump key t b = Inr (r, b1)" "buffer_ok b1"
      "m_mp b1 = (m_mp b)(key \<mapsto> mergeFromJson parse ftoi t (case m_mp b key of Some d \<Rightarrow> d | None \<Rightarrow> new_OTAData))"
    using addData_ok [OF Cons.prems] by metis
  show ?case using Cons.IH [OF b1(2)] b1(1) by (auto simp: x b1(3) texts_of_def)
qed (simp add: texts_of_def)


subsection \<open>Sending through the server\<close>

text \<open>
  The second half of \<open>addData\<close>: the socket is read from the table of the server without a check of the
  index, and a write event is registered whose callback sends the text. The result of \<open>addEvent\<close> is
  ignored.
\<close>

definition register_send ::
  "bool \<Rightarrow> bool \<Rightarrow> sref option \<Rightarrow> nat \<times> fiber_state \<Rightarrow> int \<Rightarrow> string \<Rightarrow> httpserver \<Rightarrow> httpserver res" where
  "register_send ok junk this fiber key new_data sv =
     (if key < 0 \<or> int (length (sv_ctxs sv)) \<le> key then Inl OutOfBounds
      else
        let sock = fc_sock (sv_ctxs sv ! nat key) in
        bindR (hs_addEvent ok junk this fiber key WRITE sock (Some (BufferCb sock new_data)) False sv) (\<lambda>(_, sv). Inr sv))"

definition addData_server ::
  "(string \<Rightarrow> json option) \<Rightarrow> (rat \<Rightarrow> int) \<Rightarrow> (json \<Rightarrow> string) \<Rightarrow> bool \<Rightarrow> bool \<Rightarrow> sref option \<Rightarrow> nat \<times> fiber_state \<Rightarrow>
     int \<Rightarrow> string \<Rightarrow> sendbuffer \<times> httpserver \<Rightarrow> (sendbuffer \<times> httpserver) res" where
  "addData_server parse ftoi dump ok junk this fiber key data c =
     (case c of (b, sv) \<Rightarrow>
        bindR (addData parse ftoi dump key data b) (\<lambda>(out, b).
          case out of
            None \<Rightarrow> Inr (b, sv)
          | Some (key, new_data) \<Rightarrow> bindR (register_send ok junk this fiber key new_data sv) (\<lambda>sv. Inr (b, sv))))"

text \<open>The callback: it sends the text that was captured, on the socket that was captured.\<close>

fun buffer_cb :: "server_cb \<Rightarrow> (int \<times> string) res" where
  "buffer_cb (BufferCb (Some sock) data) = Inr (sock, data)"
| "buffer_cb _ = Inl NullDeref"

text \<open>
  A text for a connection with a socket and no write event under way is registered with the socket of
  the connection and what the buffer prints then; the table of the server stays consistent.
\<close>

lemma addData_registers:
  assumes "buffer_ok b" "m_server b" "sv_inv sv" "0 \<le> key" "key < int (length (sv_ctxs sv))"
    and "fc_sock (sv_ctxs sv ! nat key) = Some sock" "\<not> has_event (sv_events sv (nat key)) WRITE"
  shows "\<exists>b' sv' new_data cb. addData_server parse ftoi dump True junk this fiber key data (b, sv) = Inr (b', sv') \<and>
    getData dump key b' = Inr new_data \<and> sv_inv sv' \<and> sv_events sv' = (sv_events sv)(nat key := sv_events sv (nat key) OR WRITE) \<and>
    hc_cb (ctx_of WRITE (sv_ctxs sv' ! nat key)) = Some cb \<and> buffer_cb cb = Inr (sock, new_data)"
proof -
  obtain r b' where b': "addData parse ftoi dump key data b = Inr (r, b')" "buffer_ok b'"
      "m_mp b' key = Some (mergeFromJson parse ftoi data (case m_mp b key of Some d \<Rightarrow> d | None \<Rightarrow> new_OTAData))"
    using addData_ok [OF assms(1)] by (metis fun_upd_same)
  then obtain new_data where d: "getData dump key b' = Inr new_data" "r = Some (key, new_data)"
    using assms(2) by (auto simp: addData_def getData_def Let_def res_simps)
  obtain x sv' where sv': "hs_addEvent True junk this fiber key WRITE (Some sock) (Some (BufferCb (Some sock) new_data)) False sv = Inr (x, sv')"
      "sv_inv sv'" "sv_events sv' = (sv_events sv)(nat key := sv_events sv (nat key) OR WRITE)"
      "hc_cb (ctx_of WRITE (sv_ctxs sv' ! nat key)) = Some (BufferCb (Some sock) new_data)"
    using sv_add_run [OF assms(3,4), of WRITE "Some (BufferCb (Some sock) new_data)" fiber True junk this "Some sock" False] assms(7)
    by (auto simp: event_ok_def)
  have "addData_server parse ftoi dump True junk this fiber key data (b, sv) = Inr (b', sv')"
    using b'(1) d(2) sv'(1) assms(4-6) by (simp add: addData_server_def register_send_def)
  then show ?thesis using d(1) sv' by auto
qed

text \<open>
  While that write has not fired, a further text changes the buffer but is not handed to the server:
  what will be sent is the older text.
\<close>

lemma later_report_not_sent:
  assumes "buffer_ok b" "m_server b" "0 \<le> key" "key < int (length (sv_ctxs sv))"
    and "has_event (fc_events (sv_ctxs sv ! nat key)) WRITE"
  shows "\<exists>b'. addData_server parse ftoi dump ok junk this fiber key data (b, sv) = Inr (b', sv)"
proof -
  obtain r b' where b': "addData parse ftoi dump key data b = Inr (r, b')" using addData_ok [OF assms(1)] by metis
  then obtain new_data where "r = Some (key, new_data)" using assms(2) by (auto simp: addData_def Let_def res_simps)
  moreover have "grow_for (new_hfd junk) key (sv_ctxs sv) = Inr (sv_ctxs sv)"
    using assms(3,4) by (simp add: grow_for_def)
  ultimately show ?thesis
    using b' assms(3-5) by (simp add: addData_server_def register_send_def hs_addEvent_def Let_def has_event_def)
qed

end
