(* ===== verification/LogFormat.thy ===== *)
theory LogFormat
  imports Text
begin

text \<open>
  \<open>sherry/log.h\<close>, \<open>sherry/log.cc\<close>, first part: levels, events, format items and \<open>LogFormatter\<close> with the
  parser of patterns. \<open>strftime\<close> and the local time are a parameter that gives the text, or nothing
  when it does not fit the buffer, whose contents are then undefined. The line a bad pattern prints
  to the console is left out.
\<close>

subsection \<open>Levels\<close>

text \<open>A level is the number of the enum; the code also casts 100 to a level.\<close>

type_synonym level = nat

definition UNKNOW :: level where "UNKNOW = 0"
definition DEBUG :: level where "DEBUG = 1"
definition INFO :: level where "INFO = 2"
definition WARN :: level where "WARN = 3"
definition ERROR :: level where "ERROR = 4"
definition FATAL :: level where "FATAL = 5"

lemmas level_defs = UNKNOW_def DEBUG_def INFO_def WARN_def ERROR_def FATAL_def

definition LogLevel_ToString :: "level \<Rightarrow> string" where
  "LogLevel_ToString l =
     (if l = DEBUG then ''DEBUG''
      else if l = INFO then ''INFO''
      else if l = WARN then ''WARN''
      else if l = ERROR then ''ERROR''
      else if l = FATAL then ''FATAL''
      else ''UNKNOW'')"

definition LogLevel_FromString :: "string \<Rightarrow> level" where
  "LogLevel_FromString str =
     (if str = ''debug'' then DEBUG
      else if str = ''info'' then INFO
      else if str = ''warn'' then WARN
      else if str = ''error'' then ERROR
      else if str = ''fatal'' then FATAL
      else if str = ''DEBUG'' then DEBUG
      else if str = ''INFO'' then INFO
      else if str = ''WARN'' then WARN
      else if str = ''ERROR'' then ERROR
      else if str = ''FATAL'' then FATAL
      else UNKNOW)"

subsection \<open>Events\<close>

text \<open>\<open>ev_logger\<close> is the address of the logger; \<open>ev_ss\<close> is the content streamed so far.\<close>

record logevent =
  ev_file :: string
  ev_line :: int
  ev_elapse :: u32
  ev_threadId :: u32
  ev_fiberId :: u32
  ev_time :: u64
  ev_threadName :: string
  ev_ss :: string
  ev_logger :: nat
  ev_level :: level

definition new_LogEvent ::
  "nat \<Rightarrow> level \<Rightarrow> string \<Rightarrow> int \<Rightarrow> u32 \<Rightarrow> u32 \<Rightarrow> u32 \<Rightarrow> u64 \<Rightarrow> string \<Rightarrow> logevent" where
  "new_LogEvent logger lvl fname line elapse thread_id fiber_id time thread_name =
     \<lparr>ev_file = fname, ev_line = line, ev_elapse = elapse, ev_threadId = thread_id, ev_fiberId = fiber_id,
      ev_time = time, ev_threadName = thread_name, ev_ss = [], ev_logger = logger, ev_level = lvl\<rparr>"

text \<open>\<open>LogEvent::format\<close>; \<open>printed\<close> is what \<open>vasprintf\<close> gives, nothing when it fails.\<close>

definition LogEvent_format :: "string option \<Rightarrow> logevent \<Rightarrow> logevent" where
  "LogEvent_format printed ev = (case printed of Some s \<Rightarrow> ev\<lparr>ev_ss := ev_ss ev @ s\<rparr> | None \<Rightarrow> ev)"

subsection \<open>Format items\<close>

datatype formatitem =
    MessageFormatItem
  | LevelFormatItem
  | ElapseFormatItem
  | NameFormatItem
  | ThreadIdFormatItem
  | FiberIdFormatItem
  | ThreadNameFormatItem
  | DateTimeFormatItem string
  | FilenameFormatItem
  | LineFormatItem
  | NewLineFormatItem
  | TabFormatItem
  | StringFormatItem string

definition default_time_format :: string where
  "default_time_format = ''%Y-%m-%d %H:%M:%S''"

definition new_DateTimeFormatItem :: "string \<Rightarrow> formatitem" where
  "new_DateTimeFormatItem fmt = DateTimeFormatItem (if fmt = [] then default_time_format else fmt)"

text \<open>\<open>name_of\<close> reads the name of a logger; \<open>strftime\<close> formats a time.\<close>

fun item_format ::
  "(string \<Rightarrow> u64 \<Rightarrow> string option) \<Rightarrow> (nat \<Rightarrow> string) \<Rightarrow> level \<Rightarrow> logevent \<Rightarrow> formatitem \<Rightarrow> string res" where
  "item_format strftime name_of lvl ev MessageFormatItem = Inr (ev_ss ev)"
| "item_format strftime name_of lvl ev LevelFormatItem = Inr (LogLevel_ToString lvl)"
| "item_format strftime name_of lvl ev ElapseFormatItem = Inr (dec (unat (ev_elapse ev)))"
| "item_format strftime name_of lvl ev NameFormatItem = Inr (name_of (ev_logger ev))"
| "item_format strftime name_of lvl ev ThreadIdFormatItem = Inr (dec (unat (ev_threadId ev)))"
| "item_format strftime name_of lvl ev FiberIdFormatItem = Inr (dec (unat (ev_fiberId ev)))"
| "item_format strftime name_of lvl ev ThreadNameFormatItem = Inr (ev_threadName ev)"
| "item_format strftime name_of lvl ev (DateTimeFormatItem fmt) =
     (case strftime fmt (ev_time ev) of Some s \<Rightarrow> Inr s | None \<Rightarrow> Inl OutOfBounds)"
| "item_format strftime name_of lvl ev FilenameFormatItem = Inr (ev_file ev)"
| "item_format strftime name_of lvl ev LineFormatItem = Inr (dec_int (ev_line ev))"
| "item_format strftime name_of lvl ev NewLineFormatItem = Inr [CHR 0x0A]"
| "item_format strftime name_of lvl ev TabFormatItem = Inr [CHR 0x09]"
| "item_format strftime name_of lvl ev (StringFormatItem s) = Inr s"

subsection \<open>Patterns\<close>

definition isalpha :: "char \<Rightarrow> bool" where
  "isalpha c \<longleftrightarrow> (let n = (of_char c :: nat) in (65 \<le> n \<and> n \<le> 90) \<or> (97 \<le> n \<and> n \<le> 122))"

text \<open>The \<open>while\<close> loop of \<open>init\<close> behind a percent sign: the status, the key, the format and the rest.\<close>

fun scan_spec :: "nat \<Rightarrow> string \<Rightarrow> string \<Rightarrow> string \<Rightarrow> nat \<times> string \<times> string \<times> string" where
  "scan_spec fmt_status str acc [] = (fmt_status, if fmt_status = 0 then acc else str, [], [])"
| "scan_spec fmt_status str acc (c # cs) =
     (if \<not> isalpha c \<and> c \<noteq> CHR ''}'' \<and> c \<noteq> CHR ''{''
      then (fmt_status, if fmt_status = 0 then acc else str, [], c # cs)
      else if fmt_status = 0 \<and> c = CHR ''{'' then scan_spec 1 acc [] cs
      else if fmt_status = 1 \<and> c = CHR ''}'' then (2, str, acc, c # cs)
      else scan_spec fmt_status str (acc @ [c]) cs)"

lemma scan_spec_rest: "length (snd (snd (snd (scan_spec st str acc cs)))) \<le> length cs"
  by (induction st str acc cs rule: scan_spec.induct) auto

lemma spec_rest_le: "(st', str', fmt, rs) = scan_spec st str acc cs \<Longrightarrow> length rs \<le> length cs"
  using scan_spec_rest [of st str acc cs] by (metis snd_conv)

text \<open>An entry of \<open>vec\<close>: text, format and whether it is a key.\<close>

definition flush :: "string \<Rightarrow> (string \<times> string \<times> bool) list \<Rightarrow> (string \<times> string \<times> bool) list" where
  "flush nstr vec = (if nstr = [] then vec else vec @ [(nstr, [], False)])"

function init_loop ::
  "string \<Rightarrow> string \<Rightarrow> (string \<times> string \<times> bool) list \<Rightarrow> bool \<Rightarrow> (string \<times> string \<times> bool) list \<times> bool" where
  "init_loop [] nstr vec err = (flush nstr vec, err)"
| "init_loop (c # cs) nstr vec err =
     (if c \<noteq> CHR ''%'' then init_loop cs (nstr @ [c]) vec err
      else if cs \<noteq> [] \<and> hd cs = CHR ''%'' then init_loop cs (nstr @ ''%'') vec err
      else
        let (fmt_status, str, fmt, rs) = scan_spec 0 [] [] cs in
        if fmt_status = 0 then init_loop rs [] (flush nstr vec @ [(str, fmt, True)]) err
        else if fmt_status = 1 then init_loop cs nstr (vec @ [(''<<pattrn_error>>'', fmt, False)]) True
        else init_loop rs [] (flush nstr vec @ [(str, fmt, True)]) err)"
  by pat_completeness auto
termination
proof (relation "measure (\<lambda>(cs, _). length cs)")
qed (use scan_spec_rest [of 0 "[]" "[]"] in \<open>auto simp: le_imp_less_Suc dest!: spec_rest_le\<close>)

declare init_loop.simps(2) [simp del]

definition s_format_items :: "string \<Rightarrow> (string \<Rightarrow> formatitem) option" where
  "s_format_items key = map_of
     [(''m'', \<lambda>_. MessageFormatItem), (''p'', \<lambda>_. LevelFormatItem), (''r'', \<lambda>_. ElapseFormatItem),
      (''c'', \<lambda>_. NameFormatItem), (''n'', \<lambda>_. NewLineFormatItem), (''d'', new_DateTimeFormatItem),
      (''f'', \<lambda>_. FilenameFormatItem), (''l'', \<lambda>_. LineFormatItem), (''T'', \<lambda>_. TabFormatItem),
      (''F'', \<lambda>_. FiberIdFormatItem), (''t'', \<lambda>_. ThreadIdFormatItem), (''N'', \<lambda>_. ThreadNameFormatItem)] key"

fun make_items :: "(string \<times> string \<times> bool) list \<Rightarrow> formatitem list \<times> bool" where
  "make_items [] = ([], False)"
| "make_items ((str, fmt, key) # vec) =
     (let (items, err) = make_items vec in
      if \<not> key then (StringFormatItem str # items, err)
      else case s_format_items str of
          None \<Rightarrow> (StringFormatItem (''<<error_format %'' @ str @ ''>>'') # items, True)
        | Some f \<Rightarrow> (f fmt # items, err))"

record formatter =
  lf_pattern :: string
  lf_items :: "formatitem list"
  lf_error :: bool

definition new_LogFormatter :: "string \<Rightarrow> formatter" where
  "new_LogFormatter pattern =
     (let (vec, err) = init_loop pattern [] [] False; (items, err') = make_items vec in
      \<lparr>lf_pattern = pattern, lf_items = items, lf_error = (err \<or> err')\<rparr>)"

text \<open>\<open>LogFormatter::format\<close>, the text of the items one after the other.\<close>

fun format_items ::
  "(string \<Rightarrow> u64 \<Rightarrow> string option) \<Rightarrow> (nat \<Rightarrow> string) \<Rightarrow> level \<Rightarrow> logevent \<Rightarrow> formatitem list \<Rightarrow> string res" where
  "format_items strftime name_of lvl ev [] = Inr []"
| "format_items strftime name_of lvl ev (i # is) =
     bindR (item_format strftime name_of lvl ev i) (\<lambda>s. bindR (format_items strftime name_of lvl ev is) (\<lambda>r. Inr (s @ r)))"

definition LogFormatter_format ::
  "(string \<Rightarrow> u64 \<Rightarrow> string option) \<Rightarrow> (nat \<Rightarrow> string) \<Rightarrow> level \<Rightarrow> logevent \<Rightarrow> formatter \<Rightarrow> string res" where
  "LogFormatter_format strftime name_of lvl ev f = format_items strftime name_of lvl ev (lf_items f)"

definition default_pattern :: string where
  "default_pattern = ''%d%T%t%T%N%T%F%T[%p]%T[%c]%T%f:%l%T%m%n''"

subsection \<open>Patterns are read back\<close>

text \<open>A pattern as a sequence of texts and keys.\<close>

datatype token = Lit string | Spec string

fun token_text :: "token \<Rightarrow> string" where
  "token_text (Lit s) = s"
| "token_text (Spec k) = CHR ''%'' # k"

fun token_item :: "token \<Rightarrow> formatitem" where
  "token_item (Lit s) = StringFormatItem s"
| "token_item (Spec k) = the (s_format_items k) []"

definition pattern_of :: "token list \<Rightarrow> string" where
  "pattern_of ts = concat (map token_text ts)"

text \<open>
  A text is not empty, has no percent sign and does not follow another text; behind a key it starts
  with a character that ends the key.
\<close>

definition ends_key :: "char \<Rightarrow> bool" where
  "ends_key c \<longleftrightarrow> \<not> isalpha c \<and> c \<noteq> CHR ''}'' \<and> c \<noteq> CHR ''{''"

fun tokens_ok :: "token list \<Rightarrow> bool" where
  "tokens_ok [] \<longleftrightarrow> True"
| "tokens_ok (Lit s # ts) \<longleftrightarrow> s \<noteq> [] \<and> CHR ''%'' \<notin> set s \<and> (case ts of Lit _ # _ \<Rightarrow> False | _ \<Rightarrow> True) \<and> tokens_ok ts"
| "tokens_ok (Spec k # ts) \<longleftrightarrow> s_format_items k \<noteq> None \<and> (case ts of Lit s # _ \<Rightarrow> ends_key (hd s) | _ \<Rightarrow> True) \<and> tokens_ok ts"

lemma known_key: "s_format_items k \<noteq> None \<Longrightarrow> \<exists>c. k = [c] \<and> isalpha c"
  by (auto simp: s_format_items_def isalpha_def split: if_splits)

lemma percent_ends_key [simp]: "ends_key (CHR ''%'')"
  by (simp add: ends_key_def isalpha_def)

lemma scan_key:
  "isalpha c \<Longrightarrow> (cs = [] \<or> ends_key (hd cs)) \<Longrightarrow> scan_spec 0 [] [] (c # cs) = (0, [c], [], cs)"
  by (cases cs) (auto simp: ends_key_def isalpha_def)

lemma init_loop_text: "CHR ''%'' \<notin> set s \<Longrightarrow> init_loop (s @ cs) nstr vec err = init_loop cs (nstr @ s) vec err"
  by (induction s arbitrary: nstr) (auto simp: init_loop.simps(2))

lemma init_loop_key:
  assumes "s_format_items k \<noteq> None" "cs = [] \<or> ends_key (hd cs)"
  shows "init_loop (CHR ''%'' # k @ cs) nstr vec err = init_loop cs [] (flush nstr vec @ [(k, [], True)]) err"
proof -
  obtain c where k: "k = [c]" "isalpha c" using known_key [OF assms(1)] by blast
  then have "c \<noteq> CHR ''%''" by (auto simp: isalpha_def)
  then show ?thesis using k scan_key [OF k(2) assms(2)] by (simp add: init_loop.simps(2))
qed

fun token_entry :: "token \<Rightarrow> string \<times> string \<times> bool" where
  "token_entry (Lit s) = (s, [], False)"
| "token_entry (Spec k) = (k, [], True)"

lemma pattern_head: "tokens_ok (Spec k # ts) \<Longrightarrow> tail = [] \<or> ends_key (hd tail) \<Longrightarrow>
  pattern_of ts @ tail = [] \<or> ends_key (hd (pattern_of ts @ tail))"
proof (cases ts)
  case (Cons t r)
  assume "tokens_ok (Spec k # ts)"
  then show ?thesis using Cons by (cases t) (auto simp: pattern_of_def)
qed (auto simp: pattern_of_def)

lemma init_loop_tokens:
  assumes "tokens_ok ts" "nstr \<noteq> [] \<Longrightarrow> (case ts of Lit _ # _ \<Rightarrow> False | _ \<Rightarrow> True)" "tail = [] \<or> hd tail = CHR ''%''"
  shows "\<exists>n v. init_loop (pattern_of ts @ tail) nstr vec err = init_loop tail n v err \<and>
    flush n v = flush nstr vec @ map token_entry ts"
  using assms(1,2)
proof (induction ts arbitrary: nstr vec)
  case Nil
  then show ?case by (force simp: pattern_of_def)
next
  case (Cons t ts)
  show ?case
  proof (cases t)
    case (Lit s)
    then have s: "CHR ''%'' \<notin> set s" "nstr = []" "s \<noteq> []" "tokens_ok ts" "case ts of Lit _ # _ \<Rightarrow> False | _ \<Rightarrow> True"
      using Cons.prems by auto
    have "init_loop (pattern_of (t # ts) @ tail) nstr vec err = init_loop (pattern_of ts @ tail) s vec err"
      using init_loop_text [OF s(1), of "pattern_of ts @ tail" "[]"] Lit s(2) by (simp add: pattern_of_def)
    then show ?thesis using Cons.IH [OF s(4), of s vec] s Lit by (simp add: flush_def)
  next
    case (Spec k)
    then have ok: "tokens_ok (Spec k # ts)" "s_format_items k \<noteq> None" "tokens_ok ts" using Cons.prems(1) by auto
    have "tail = [] \<or> ends_key (hd tail)" using assms(3) by auto
    then have "init_loop (pattern_of (t # ts) @ tail) nstr vec err =
        init_loop (pattern_of ts @ tail) [] (flush nstr vec @ [(k, [], True)]) err"
      using init_loop_key [OF ok(2) pattern_head [OF ok(1)]] Spec by (simp add: pattern_of_def)
    then show ?thesis using Cons.IH [OF ok(3), of "[]" "flush nstr vec @ [(k, [], True)]"] Spec by (simp add: flush_def)
  qed
qed

lemma make_items_tokens: "tokens_ok ts \<Longrightarrow> make_items (map token_entry ts) = (map token_item ts, False)"
  by (induction ts rule: tokens_ok.induct) (auto split: option.splits)

subsection \<open>Correctness of the formatter\<close>

text \<open>
  C37. Printing a sequence of texts and known keys as a pattern and reading it gives exactly the items
  of that sequence, without an error, so that the text of an event is the concatenation of the texts
  and the fields in the order of the pattern. The pattern that every logger starts with is such a
  sequence.
\<close>

theorem pattern_round_trip:
  assumes "tokens_ok ts"
  shows "new_LogFormatter (pattern_of ts) = \<lparr>lf_pattern = pattern_of ts, lf_items = map token_item ts, lf_error = False\<rparr>"
proof -
  obtain n v where "init_loop (pattern_of ts @ []) [] [] False = init_loop [] n v False" "flush n v = map token_entry ts"
    using init_loop_tokens [OF assms, of "[]" "[]" "[]" False] by (auto simp: flush_def)
  then show ?thesis using make_items_tokens [OF assms] by (simp add: new_LogFormatter_def)
qed

theorem pattern_round_trip_witness:
  "lf_items (new_LogFormatter default_pattern) =
     [new_DateTimeFormatItem [], TabFormatItem, ThreadIdFormatItem, TabFormatItem, ThreadNameFormatItem, TabFormatItem,
      FiberIdFormatItem, TabFormatItem, StringFormatItem ''['', LevelFormatItem, StringFormatItem '']'', TabFormatItem,
      StringFormatItem ''['', NameFormatItem, StringFormatItem '']'', TabFormatItem, FilenameFormatItem,
      StringFormatItem '':'', LineFormatItem, TabFormatItem, MessageFormatItem, NewLineFormatItem]
   \<and> \<not> lf_error (new_LogFormatter default_pattern)"
proof -
  let ?ts = "[Spec ''d'', Spec ''T'', Spec ''t'', Spec ''T'', Spec ''N'', Spec ''T'', Spec ''F'', Spec ''T'', Lit ''['', Spec ''p'',
    Lit '']'', Spec ''T'', Lit ''['', Spec ''c'', Lit '']'', Spec ''T'', Spec ''f'', Lit '':'', Spec ''l'', Spec ''T'', Spec ''m'', Spec ''n'']"
  have "tokens_ok ?ts" by code_simp
  from pattern_round_trip [OF this] show ?thesis
    by (simp add: pattern_of_def default_pattern_def s_format_items_def)
qed

text \<open>The two ways of writing that the parser gets wrong.\<close>

lemma init_loop_err: "err \<Longrightarrow> snd (init_loop cs nstr vec err)"
  by (induction cs nstr vec err rule: init_loop.induct) (auto simp: init_loop.simps(2) split: prod.splits)

lemma flush_mem: "x \<in> set vec \<Longrightarrow> x \<in> set (flush nstr vec)"
  by (simp add: flush_def)

lemma init_loop_vec: "x \<in> set vec \<Longrightarrow> x \<in> set (fst (init_loop cs nstr vec err))"
proof (induction cs nstr vec err rule: init_loop.induct)
  case (2 c cs nstr vec err)
  obtain st str fmt rs where "scan_spec 0 [] [] cs = (st, str, fmt, rs)" by (metis prod_cases4)
  then show ?case using 2 by (simp add: init_loop.simps(2) flush_mem)
qed (simp add: flush_def)

lemma make_items_err: "(k, fmt, True) \<in> set vec \<Longrightarrow> s_format_items k = None \<Longrightarrow> snd (make_items vec)"
  by (induction vec rule: make_items.induct) (auto split: prod.splits option.splits)

lemma formatter_error:
  "snd (init_loop p [] [] False) \<or> (\<exists>k fmt. (k, fmt, True) \<in> set (fst (init_loop p [] [] False)) \<and> s_format_items k = None)
   \<Longrightarrow> lf_error (new_LogFormatter p)"
  using make_items_err by (fastforce simp: new_LogFormatter_def split: prod.splits)

text \<open>
  Two constructs that the parser is written to accept are always rejected: a time format, which
  starts with a percent sign (\<open>%d{%Y-%m-%d}\<close>), and an escaped percent sign that is not followed by a
  letter or a brace (\<open>100%% done\<close>). Whatever well-formed pattern comes before and whatever text
  follows, the formatter reports an error, so that setting it on a logger is refused.
\<close>

lemma escapes_rejected:
  assumes "tokens_ok ts"
  shows "lf_error (new_LogFormatter (pattern_of ts @ ''%d{%'' @ s)) \<and>
    (s = [] \<or> ends_key (hd s) \<and> hd s \<noteq> CHR ''%'' \<longrightarrow> lf_error (new_LogFormatter (pattern_of ts @ ''%%'' @ s)))"
proof
  obtain n v where "init_loop (pattern_of ts @ ''%d{%'' @ s) [] [] False = init_loop (''%d{%'' @ s) n v False"
    using init_loop_tokens [OF assms, of "[]" "''%d{%'' @ s" "[]" False] by auto
  moreover have "snd (init_loop (''%d{%'' @ s) n v False)"
    using init_loop_err [of True "''d{%'' @ s" n] by (subst append_Cons, subst init_loop.simps(2)) (simp add: isalpha_def)
  ultimately show "lf_error (new_LogFormatter (pattern_of ts @ ''%d{%'' @ s))" by (simp add: formatter_error)
  show "s = [] \<or> ends_key (hd s) \<and> hd s \<noteq> CHR ''%'' \<longrightarrow> lf_error (new_LogFormatter (pattern_of ts @ ''%%'' @ s))"
  proof
    assume s: "s = [] \<or> ends_key (hd s) \<and> hd s \<noteq> CHR ''%''"
    obtain n v where "init_loop (pattern_of ts @ ''%%'' @ s) [] [] False = init_loop (''%%'' @ s) n v False"
      using init_loop_tokens [OF assms, of "[]" "''%%'' @ s" "[]" False] by auto
    moreover have "init_loop (''%%'' @ s) n v False = init_loop s [] (flush (n @ ''%'') v @ [([], [], True)]) False"
      using s by (cases s) (auto simp: init_loop.simps(2) [of _ "CHR ''%'' # _"] init_loop.simps(2) [of "CHR ''%''"] ends_key_def)
    moreover have "s_format_items [] = None" by (simp add: s_format_items_def)
    ultimately show "lf_error (new_LogFormatter (pattern_of ts @ ''%%'' @ s))"
      using init_loop_vec [of "([], [], True)" "flush (n @ ''%'') v @ [([], [], True)]" s "[]" False]
      by (intro formatter_error disjI2 exI [of _ "[]"]) auto
  qed
qed

lemma escapes_rejected_example:
  "lf_error (new_LogFormatter ''[%p]%d{%Y-%m-%d}%n'') \<and> lf_error (new_LogFormatter ''[%p]%% done'')"
proof -
  have "tokens_ok [Lit ''['', Spec ''p'', Lit '']'']" by code_simp
  from escapes_rejected [OF this, of "''Y-%m-%d}%n''"] escapes_rejected [OF this, of "'' done''"] show ?thesis
    by (simp add: pattern_of_def ends_key_def isalpha_def)
qed

text \<open>The names of the levels are read back; any other text is the unknown level.\<close>

lemma level_round_trip: "1 \<le> l \<Longrightarrow> l \<le> 5 \<Longrightarrow> LogLevel_FromString (LogLevel_ToString l) = l"
proof -
  assume "1 \<le> l" "l \<le> 5"
  then have "l \<in> {1, 2, 3, 4, 5}" by auto
  then show ?thesis by (auto simp: LogLevel_FromString_def LogLevel_ToString_def level_defs)
qed

end
