(* ===== verification/Config.thy ===== *)
theory Config
  imports Prelude
begin

text \<open>
  \<open>sherry/config.h\<close>, \<open>sherry/config.cc\<close>: named configuration variables with listeners, the
  conversions between containers and YAML text, and loading a YAML document. YAML nodes are a
  datatype; parsing and printing them (\<open>load\<close>, \<open>emit\<close>, the library's) are parameters. The
  variables live on a heap; \<open>cv_type\<close> is what \<open>dynamic_pointer_cast\<close> distinguishes. A listener is
  run by the parameter \<open>run\<close> on a state of its own, which it may change before it throws.
\<close>

subsection \<open>YAML nodes\<close>

datatype yaml = YUndef | YNull | YScalar string | YSeq "yaml list" | YMap "(yaml \<times> yaml) list"

text \<open>\<open>Scalar()\<close>, \<open>size()\<close> and the entries of a map.\<close>

definition y_scalar :: "yaml \<Rightarrow> string" where
  "y_scalar n = (case n of YScalar s \<Rightarrow> s | _ \<Rightarrow> [])"

definition y_size :: "yaml \<Rightarrow> nat" where
  "y_size n = (case n of YSeq ns \<Rightarrow> length ns | YMap kvs \<Rightarrow> length kvs | _ \<Rightarrow> 0)"

definition y_pairs :: "yaml \<Rightarrow> (yaml \<times> yaml) list" where
  "y_pairs n = (case n of YMap kvs \<Rightarrow> kvs | _ \<Rightarrow> [])"

text \<open>A node that elements were pushed to, or keys assigned; without any it stays null.\<close>

definition y_seq :: "yaml list \<Rightarrow> yaml" where
  "y_seq ns = (if ns = [] then YNull else YSeq ns)"

definition y_map :: "(string \<times> yaml) list \<Rightarrow> yaml" where
  "y_map kvs = (if kvs = [] then YNull else YMap (map (\<lambda>(k, n). (YScalar k, n)) kvs))"

subsection \<open>Conversions of containers\<close>

fun mapR :: "('a \<Rightarrow> 'b res) \<Rightarrow> 'a list \<Rightarrow> 'b list res" where
  "mapR f [] = Inr []"
| "mapR f (x # xs) = bindR (f x) (\<lambda>y. bindR (mapR f xs) (\<lambda>ys. Inr (y # ys)))"

text \<open>
  \<open>LexicalCast<std::string, std::vector<T>>\<close>, the same for lists; \<open>from_str\<close> converts an element and
  \<open>at\<close> is the library's \<open>node[i]\<close>.
\<close>

definition cast_to_vector ::
  "(string \<Rightarrow> yaml res) \<Rightarrow> (yaml \<Rightarrow> string) \<Rightarrow> (yaml \<Rightarrow> nat \<Rightarrow> yaml) \<Rightarrow> (string \<Rightarrow> 'a res) \<Rightarrow> string \<Rightarrow> 'a list res" where
  "cast_to_vector load emit at from_str v =
     bindR (load v) (\<lambda>node. mapR (\<lambda>i. from_str (emit (at node i))) [0..<y_size node])"

definition cast_from_vector ::
  "(string \<Rightarrow> yaml res) \<Rightarrow> (yaml \<Rightarrow> string) \<Rightarrow> ('a \<Rightarrow> string) \<Rightarrow> 'a list \<Rightarrow> string res" where
  "cast_from_vector load emit to_str v =
     bindR (mapR (\<lambda>i. load (to_str i)) v) (\<lambda>ns. Inr (emit (y_seq ns)))"

definition cast_to_list ::
  "(string \<Rightarrow> yaml res) \<Rightarrow> (yaml \<Rightarrow> string) \<Rightarrow> (yaml \<Rightarrow> nat \<Rightarrow> yaml) \<Rightarrow> (string \<Rightarrow> 'a res) \<Rightarrow> string \<Rightarrow> 'a list res" where
  "cast_to_list load emit at from_str v = cast_to_vector load emit at from_str v"

definition cast_from_list ::
  "(string \<Rightarrow> yaml res) \<Rightarrow> (yaml \<Rightarrow> string) \<Rightarrow> ('a \<Rightarrow> string) \<Rightarrow> 'a list \<Rightarrow> string res" where
  "cast_from_list load emit to_str v = cast_from_vector load emit to_str v"

text \<open>Sets, ordered and not: the set of the elements. Printing follows the container's order, \<open>order\<close>.\<close>

definition cast_to_set ::
  "(string \<Rightarrow> yaml res) \<Rightarrow> (yaml \<Rightarrow> string) \<Rightarrow> (yaml \<Rightarrow> nat \<Rightarrow> yaml) \<Rightarrow> (string \<Rightarrow> 'a res) \<Rightarrow> string \<Rightarrow> 'a set res" where
  "cast_to_set load emit at from_str v = bindR (cast_to_vector load emit at from_str v) (\<lambda>xs. Inr (set xs))"

definition cast_from_set ::
  "(string \<Rightarrow> yaml res) \<Rightarrow> (yaml \<Rightarrow> string) \<Rightarrow> ('a \<Rightarrow> string) \<Rightarrow> ('a set \<Rightarrow> 'a list) \<Rightarrow> 'a set \<Rightarrow> string res" where
  "cast_from_set load emit to_str order v = cast_from_vector load emit to_str (order v)"

definition cast_to_unordered_set ::
  "(string \<Rightarrow> yaml res) \<Rightarrow> (yaml \<Rightarrow> string) \<Rightarrow> (yaml \<Rightarrow> nat \<Rightarrow> yaml) \<Rightarrow> (string \<Rightarrow> 'a res) \<Rightarrow> string \<Rightarrow> 'a set res" where
  "cast_to_unordered_set load emit at from_str v = cast_to_set load emit at from_str v"

definition cast_from_unordered_set ::
  "(string \<Rightarrow> yaml res) \<Rightarrow> (yaml \<Rightarrow> string) \<Rightarrow> ('a \<Rightarrow> string) \<Rightarrow> ('a set \<Rightarrow> 'a list) \<Rightarrow> 'a set \<Rightarrow> string res" where
  "cast_from_unordered_set load emit to_str order v = cast_from_set load emit to_str order v"

text \<open>Maps with string keys: \<open>insert\<close> keeps the first value of a key.\<close>

fun insert_pairs :: "(string \<times> 'a) list \<Rightarrow> (string \<rightharpoonup> 'a) \<Rightarrow> (string \<rightharpoonup> 'a)" where
  "insert_pairs [] m = m"
| "insert_pairs ((k, x) # kvs) m = insert_pairs kvs (if m k = None then m(k \<mapsto> x) else m)"

definition cast_to_map ::
  "(string \<Rightarrow> yaml res) \<Rightarrow> (yaml \<Rightarrow> string) \<Rightarrow> (string \<Rightarrow> 'a res) \<Rightarrow> string \<Rightarrow> (string \<rightharpoonup> 'a) res" where
  "cast_to_map load emit from_str v =
     bindR (load v) (\<lambda>node.
     bindR (mapR (\<lambda>(k, n). bindR (from_str (emit n)) (\<lambda>x. Inr (y_scalar k, x))) (y_pairs node)) (\<lambda>kvs.
       Inr (insert_pairs kvs Map.empty)))"

definition cast_from_map ::
  "(string \<Rightarrow> yaml res) \<Rightarrow> (yaml \<Rightarrow> string) \<Rightarrow> ('a \<Rightarrow> string) \<Rightarrow> (string \<times> 'a) list \<Rightarrow> string res" where
  "cast_from_map load emit to_str v =
     bindR (mapR (\<lambda>(k, x). bindR (load (to_str x)) (\<lambda>n. Inr (k, n))) v) (\<lambda>kvs. Inr (emit (y_map kvs)))"

definition cast_to_unordered_map ::
  "(string \<Rightarrow> yaml res) \<Rightarrow> (yaml \<Rightarrow> string) \<Rightarrow> (string \<Rightarrow> 'a res) \<Rightarrow> string \<Rightarrow> (string \<rightharpoonup> 'a) res" where
  "cast_to_unordered_map load emit from_str v = cast_to_map load emit from_str v"

definition cast_from_unordered_map ::
  "(string \<Rightarrow> yaml res) \<Rightarrow> (yaml \<Rightarrow> string) \<Rightarrow> ('a \<Rightarrow> string) \<Rightarrow> (string \<times> 'a) list \<Rightarrow> string res" where
  "cast_from_unordered_map load emit to_str v = cast_from_map load emit to_str v"

subsection \<open>Variables\<close>

definition tolower :: "char \<Rightarrow> char" where
  "tolower c = (if 65 \<le> (of_char c :: nat) \<and> (of_char c :: nat) \<le> 90 then char_of ((of_char c :: nat) + 32) else c)"

record ('v, 'cb) configvar =
  cv_type :: string
  cv_name :: string
  cv_description :: string
  cv_val :: 'v
  cv_cbs :: "(nat \<times> 'cb) list"

text \<open>The table by name, the variables by address and the counter of listeners of each type.\<close>

record ('v, 'cb) config =
  cf_datas :: "string \<rightharpoonup> nat"
  cf_heap :: "nat \<Rightarrow> ('v, 'cb) configvar"
  cf_next :: nat
  cf_fun_id :: "string \<Rightarrow> nat"

definition new_ConfigVar :: "string \<Rightarrow> string \<Rightarrow> 'v \<Rightarrow> string \<Rightarrow> ('v, 'cb) configvar" where
  "new_ConfigVar ty name default_value description =
     \<lparr>cv_type = ty, cv_name = map tolower name, cv_description = description, cv_val = default_value, cv_cbs = []\<rparr>"

definition lookup_chars :: string where
  "lookup_chars = ''abcdefghijklmnopqrstuvwxyz._0123456789''"

definition valid_name :: "string \<Rightarrow> string \<Rightarrow> bool" where
  "valid_name cs name \<longleftrightarrow> list_all (\<lambda>c. c \<in> set cs) name"

text \<open>\<open>Lookup(name, default, description)\<close>; \<open>None\<close> is the null pointer.\<close>

definition create_var ::
  "string \<Rightarrow> string \<Rightarrow> 'v \<Rightarrow> string \<Rightarrow> ('v, 'cb) config \<Rightarrow> (nat option \<times> ('v, 'cb) config) res" where
  "create_var ty name default_value description cfg =
     (if \<not> valid_name lookup_chars name then Inl InvalidArgument
      else Inr (Some (cf_next cfg), cfg\<lparr>cf_datas := (cf_datas cfg)(name \<mapsto> cf_next cfg),
        cf_heap := (cf_heap cfg)(cf_next cfg := new_ConfigVar ty name default_value description),
        cf_next := cf_next cfg + 1\<rparr>))"

definition config_Lookup ::
  "string \<Rightarrow> string \<Rightarrow> 'v \<Rightarrow> string \<Rightarrow> ('v, 'cb) config \<Rightarrow> (nat option \<times> ('v, 'cb) config) res" where
  "config_Lookup ty name default_value description cfg =
     (case cf_datas cfg name of
        Some a \<Rightarrow> if cv_type (cf_heap cfg a) = ty then create_var ty name default_value description cfg
                  else Inr (None, cfg)
      | None \<Rightarrow> create_var ty name default_value description cfg)"

text \<open>\<open>Lookup(name)\<close> and \<open>LookupBase\<close>.\<close>

definition config_Lookup_name :: "string \<Rightarrow> string \<Rightarrow> ('v, 'cb) config \<Rightarrow> nat option" where
  "config_Lookup_name ty name cfg =
     (case cf_datas cfg name of
        None \<Rightarrow> None
      | Some a \<Rightarrow> if cv_type (cf_heap cfg a) = ty then Some a else None)"

definition LookupBase :: "string \<Rightarrow> ('v, 'cb) config \<Rightarrow> nat option" where
  "LookupBase name cfg = cf_datas cfg name"

text \<open>The listeners are called in the order of their keys until one throws.\<close>

fun run_listeners ::
  "('cb \<Rightarrow> 'v \<Rightarrow> 'v \<Rightarrow> 'w \<Rightarrow> cpp_error option \<times> 'w) \<Rightarrow> 'v \<Rightarrow> 'v \<Rightarrow> (nat \<times> 'cb) list \<Rightarrow> 'w \<Rightarrow> cpp_error option \<times> 'w" where
  "run_listeners run old new [] w = (None, w)"
| "run_listeners run old new ((k, cb) # cbs) w =
     (case run cb old new w of
        (Some e, w) \<Rightarrow> (Some e, w)
      | (None, w) \<Rightarrow> run_listeners run old new cbs w)"

definition setValue ::
  "('cb \<Rightarrow> 'v \<Rightarrow> 'v \<Rightarrow> 'w \<Rightarrow> cpp_error option \<times> 'w) \<Rightarrow> nat \<Rightarrow> 'v \<Rightarrow> ('v, 'cb) config \<Rightarrow> 'w
     \<Rightarrow> cpp_error option \<times> ('v, 'cb) config \<times> 'w" where
  "setValue run a v cfg w =
     (let var = cf_heap cfg a in
      if v = cv_val var then (None, cfg, w)
      else
        case run_listeners run (cv_val var) v (cv_cbs var) w of
          (Some e, w) \<Rightarrow> (Some e, cfg, w)
        | (None, w) \<Rightarrow> (None, cfg\<lparr>cf_heap := (cf_heap cfg)(a := var\<lparr>cv_val := v\<rparr>)\<rparr>, w))"

definition getValue :: "nat \<Rightarrow> ('v, 'cb) config \<Rightarrow> 'v" where
  "getValue a cfg = cv_val (cf_heap cfg a)"

text \<open>\<open>m_cbs\<close> is ordered by key; new keys are the largest.\<close>

definition addListener :: "nat \<Rightarrow> 'cb \<Rightarrow> ('v, 'cb) config \<Rightarrow> nat \<times> ('v, 'cb) config" where
  "addListener a cb cfg =
     (let var = cf_heap cfg a; key = cf_fun_id cfg (cv_type var) + 1 in
      (key, cfg\<lparr>cf_fun_id := (cf_fun_id cfg)(cv_type var := key),
         cf_heap := (cf_heap cfg)(a := var\<lparr>cv_cbs := filter (\<lambda>(k, _). k \<noteq> key) (cv_cbs var) @ [(key, cb)]\<rparr>)\<rparr>))"

definition delListener :: "nat \<Rightarrow> nat \<Rightarrow> ('v, 'cb) config \<Rightarrow> ('v, 'cb) config" where
  "delListener a key cfg =
     cfg\<lparr>cf_heap := (cf_heap cfg)(a := (cf_heap cfg a)\<lparr>cv_cbs := filter (\<lambda>(k, _). k \<noteq> key) (cv_cbs (cf_heap cfg a))\<rparr>)\<rparr>"

definition clearListener :: "nat \<Rightarrow> ('v, 'cb) config \<Rightarrow> ('v, 'cb) config" where
  "clearListener a cfg = cfg\<lparr>cf_heap := (cf_heap cfg)(a := (cf_heap cfg a)\<lparr>cv_cbs := []\<rparr>)\<rparr>"

definition getListener :: "nat \<Rightarrow> nat \<Rightarrow> ('v, 'cb) config \<Rightarrow> 'cb option" where
  "getListener a key cfg = map_of (cv_cbs (cf_heap cfg a)) key"

text \<open>What \<open>catch (std::exception &)\<close> catches; the other failures end the process.\<close>

definition is_exception :: "cpp_error \<Rightarrow> bool" where
  "is_exception e \<longleftrightarrow> e \<in> {OutOfRange, InvalidArgument, TypeError, ParseError, LogicError}"

text \<open>\<open>fromString\<close> returns false in every case; \<open>from_str\<close> converts to the variable's type.\<close>

definition fromString ::
  "(string \<Rightarrow> string \<Rightarrow> 'v res) \<Rightarrow> ('cb \<Rightarrow> 'v \<Rightarrow> 'v \<Rightarrow> 'w \<Rightarrow> cpp_error option \<times> 'w) \<Rightarrow> nat \<Rightarrow> string
     \<Rightarrow> ('v, 'cb) config \<Rightarrow> 'w \<Rightarrow> (bool \<times> ('v, 'cb) config \<times> 'w) res" where
  "fromString from_str run a val cfg w =
     (case from_str (cv_type (cf_heap cfg a)) val of
        Inl e \<Rightarrow> if is_exception e then Inr (False, cfg, w) else Inl e
      | Inr v \<Rightarrow>
          case setValue run a v cfg w of
            (Some e, cfg, w) \<Rightarrow> if is_exception e then Inr (False, cfg, w) else Inl e
          | (None, cfg, w) \<Rightarrow> Inr (False, cfg, w))"

definition config_toString :: "(string \<Rightarrow> 'v \<Rightarrow> string res) \<Rightarrow> nat \<Rightarrow> ('v, 'cb) config \<Rightarrow> string res" where
  "config_toString to_str a cfg =
     (case to_str (cv_type (cf_heap cfg a)) (cv_val (cf_heap cfg a)) of
        Inl e \<Rightarrow> if is_exception e then Inr [] else Inl e
      | Inr s \<Rightarrow> Inr s)"

subsection \<open>Loading a document\<close>

definition member_chars :: string where
  "member_chars = ''abcdefghijklmnopqrstuvwxyz._012345678''"

definition child_name :: "string \<Rightarrow> yaml \<Rightarrow> string" where
  "child_name prefix k = (if prefix = [] then y_scalar k else prefix @ ''.'' @ y_scalar k)"

fun ListAllMember :: "string \<Rightarrow> yaml \<Rightarrow> (string \<times> yaml) list" where
  "ListAllMember prefix node =
     (if \<not> valid_name member_chars prefix then []
      else (prefix, node) #
        (case node of
           YMap kvs \<Rightarrow> concat (map (\<lambda>(k, n). ListAllMember (child_name prefix k) n) kvs)
         | _ \<Rightarrow> []))"

declare ListAllMember.simps [simp del]

text \<open>One entry of the list, and the loop over all.\<close>

definition load_entry ::
  "(yaml \<Rightarrow> string) \<Rightarrow> (string \<Rightarrow> string \<Rightarrow> 'v res) \<Rightarrow> ('cb \<Rightarrow> 'v \<Rightarrow> 'v \<Rightarrow> 'w \<Rightarrow> cpp_error option \<times> 'w)
     \<Rightarrow> string \<times> yaml \<Rightarrow> ('v, 'cb) config \<times> 'w \<Rightarrow> (('v, 'cb) config \<times> 'w) res" where
  "load_entry emit from_str run entry st =
     (case (entry, st) of ((key, node), (cfg, w)) \<Rightarrow>
        if key = [] then Inr (cfg, w)
        else
          case LookupBase (map tolower key) cfg of
            None \<Rightarrow> Inr (cfg, w)
          | Some a \<Rightarrow>
              bindR (fromString from_str run a (case node of YScalar s \<Rightarrow> s | _ \<Rightarrow> emit node) cfg w)
                (\<lambda>(_, cfg, w). Inr (cfg, w)))"

fun foldR :: "('a \<Rightarrow> 's \<Rightarrow> 's res) \<Rightarrow> 'a list \<Rightarrow> 's \<Rightarrow> 's res" where
  "foldR f [] s = Inr s"
| "foldR f (x # xs) s = bindR (f x s) (foldR f xs)"

definition LoadFromYaml ::
  "(yaml \<Rightarrow> string) \<Rightarrow> (string \<Rightarrow> string \<Rightarrow> 'v res) \<Rightarrow> ('cb \<Rightarrow> 'v \<Rightarrow> 'v \<Rightarrow> 'w \<Rightarrow> cpp_error option \<times> 'w)
     \<Rightarrow> yaml \<Rightarrow> ('v, 'cb) config \<times> 'w \<Rightarrow> (('v, 'cb) config \<times> 'w) res" where
  "LoadFromYaml emit from_str run root st =
     foldR (load_entry emit from_str run) (ListAllMember [] root) st"

text \<open>\<open>Vist\<close> calls its argument on the variables in the order of their names, \<open>names\<close>.\<close>

definition Vist :: "(nat \<Rightarrow> 'w \<Rightarrow> 'w) \<Rightarrow> string list \<Rightarrow> ('v, 'cb) config \<Rightarrow> 'w \<Rightarrow> 'w" where
  "Vist cb names cfg w = fold (\<lambda>name w. case cf_datas cfg name of Some a \<Rightarrow> cb a w | None \<Rightarrow> w) names w"

subsection \<open>Members of a document\<close>

text \<open>The node at a path of keys, and the dotted name of a path.\<close>

inductive at_path :: "yaml \<Rightarrow> string list \<Rightarrow> yaml \<Rightarrow> bool" where
  here: "at_path n [] n"
| below: "(k, n) \<in> set kvs \<Longrightarrow> at_path n p m \<Longrightarrow> at_path (YMap kvs) (y_scalar k # p) m"

inductive_simps at_path_simps: "at_path (YMap kvs) p m" "at_path YUndef p m" "at_path YNull p m"
  "at_path (YScalar s) p m" "at_path (YSeq ns) p m"

fun dotted :: "string \<Rightarrow> string list \<Rightarrow> string" where
  "dotted prefix [] = prefix"
| "dotted prefix (s # p) = dotted (if prefix = [] then s else prefix @ ''.'' @ s) p"

lemma dotted_chars: "set prefix \<subseteq> set (dotted prefix p)"
  by (induction prefix p rule: dotted.induct) (auto split: if_splits)

lemma dotted_valid: "valid_name cs (dotted prefix p) \<Longrightarrow> valid_name cs prefix"
  using dotted_chars [of prefix p] by (auto simp: valid_name_def list_all_iff)

lemma dotted_child: "dotted prefix (y_scalar k # p) = dotted (child_name prefix k) p"
  by (simp add: child_name_def)

lemma at_map:
  assumes "valid_name member_chars prefix"
  shows "(\<exists>p. at_path (YMap kvs) p m \<and> name = dotted prefix p \<and> valid_name member_chars name) \<longleftrightarrow>
    (name = prefix \<and> m = YMap kvs) \<or>
    (\<exists>k n p. (k, n) \<in> set kvs \<and> at_path n p m \<and> name = dotted prefix (y_scalar k # p) \<and> valid_name member_chars name)"
    (is "?L \<longleftrightarrow> ?here \<or> ?below")
proof
  assume ?L
  then obtain p where p: "at_path (YMap kvs) p m" "name = dotted prefix p" "valid_name member_chars name" by blast
  from p(1) show "?here \<or> ?below"
  proof cases
    case here
    then show ?thesis using p(2) by simp
  next
    case (below k n q)
    then show ?thesis using p by blast
  qed
next
  assume "?here \<or> ?below"
  then show ?L
  proof
    assume ?here
    then show ?L using assms by (intro exI [of _ "[]"]) (simp add: at_path.here)
  next
    assume ?below
    then show ?L by (blast intro: at_path.below)
  qed
qed

lemma members_at:
  "(name, m) \<in> set (ListAllMember prefix node) \<longleftrightarrow>
     (\<exists>p. at_path node p m \<and> name = dotted prefix p \<and> valid_name member_chars name)"
proof (induction prefix node rule: ListAllMember.induct)
  case (1 prefix node)
  show ?case
  proof (cases "valid_name member_chars prefix")
    case False
    then show ?thesis using dotted_valid by (auto simp: ListAllMember.simps)
  next
    case True
    show ?thesis
    proof (cases "\<exists>kvs. node = YMap kvs")
      case False
      then have "at_path node p m \<longleftrightarrow> p = [] \<and> m = node" for p
        by (cases node) (auto simp: at_path_simps)
      then show ?thesis using True False by (cases node) (auto simp: ListAllMember.simps [of prefix])
    next
      case map: True
      then obtain kvs where node: "node = YMap kvs" by blast
      have ih: "(name, m) \<in> set (ListAllMember (child_name prefix k) n) \<longleftrightarrow>
          (\<exists>p. at_path n p m \<and> name = dotted (child_name prefix k) p \<and> valid_name member_chars name)"
        if "(k, n) \<in> set kvs" for k n
        using 1 [of kvs "(k, n)" k n] True node that by simp
      have "(name, m) \<in> set (ListAllMember prefix node) \<longleftrightarrow> (name = prefix \<and> m = node) \<or>
          (\<exists>k n. (k, n) \<in> set kvs \<and> (name, m) \<in> set (ListAllMember (child_name prefix k) n))"
        using True node by (subst ListAllMember.simps) auto
      also have "\<dots> \<longleftrightarrow> (name = prefix \<and> m = node) \<or>
          (\<exists>k n p. (k, n) \<in> set kvs \<and> at_path n p m \<and> name = dotted prefix (y_scalar k # p) \<and> valid_name member_chars name)"
        using ih by (simp only: dotted_child) blast
      also have "\<dots> \<longleftrightarrow> (\<exists>p. at_path node p m \<and> name = dotted prefix p \<and> valid_name member_chars name)"
        using at_map [OF True] unfolding node by simp
      finally show ?thesis .
    qed
  qed
qed

subsection \<open>The table stays well formed\<close>

text \<open>
  Names are valid and belong to their variable, no two names share a variable, and the listeners of
  a variable are in the order of their keys, none above the counter of its type.
\<close>

definition config_wf :: "('v, 'cb) config \<Rightarrow> bool" where
  "config_wf cfg \<longleftrightarrow>
     (\<forall>name a. cf_datas cfg name = Some a \<longrightarrow>
        a < cf_next cfg \<and> valid_name lookup_chars name \<and> cv_name (cf_heap cfg a) = name) \<and>
     (\<forall>a < cf_next cfg. sorted_wrt (<) (map fst (cv_cbs (cf_heap cfg a))) \<and>
        (\<forall>k \<in> fst ` set (cv_cbs (cf_heap cfg a)). k \<le> cf_fun_id cfg (cv_type (cf_heap cfg a))))"

lemma config_wf_inj: "config_wf cfg \<Longrightarrow> cf_datas cfg x = Some a \<Longrightarrow> cf_datas cfg y = Some a \<Longrightarrow> x = y"
  unfolding config_wf_def by metis

lemma tolower_lower: "(of_char c :: nat) < 65 \<or> 90 < (of_char c :: nat) \<Longrightarrow> tolower c = c"
  by (auto simp: tolower_def)

lemma lookup_chars_lower: "list_all (\<lambda>c. tolower c = c) lookup_chars"
  by code_simp

lemma member_chars_lookup: "set member_chars \<subseteq> set lookup_chars"
  by code_simp

lemma valid_lower: "valid_name lookup_chars name \<Longrightarrow> map tolower name = name"
  using lookup_chars_lower by (auto simp: valid_name_def list_all_iff intro: map_idI)

lemma member_valid: "valid_name member_chars name \<Longrightarrow> valid_name lookup_chars name"
  using member_chars_lookup by (auto simp: valid_name_def list_all_iff)

lemma wf_upd_var:
  assumes "config_wf cfg" "cv_type x = cv_type (cf_heap cfg a)" "cv_name x = cv_name (cf_heap cfg a)"
    "sorted_wrt (<) (map fst (cv_cbs x))" "\<forall>k \<in> fst ` set (cv_cbs x). k \<le> cf_fun_id cfg (cv_type x)"
  shows "config_wf (cfg\<lparr>cf_heap := (cf_heap cfg)(a := x)\<rparr>)"
  using assms unfolding config_wf_def by auto

lemma wf_fun_id:
  assumes "config_wf cfg" "cf_fun_id cfg ty \<le> n"
  shows "config_wf (cfg\<lparr>cf_fun_id := (cf_fun_id cfg)(ty := n)\<rparr>)"
  using assms unfolding config_wf_def by simp (meson order_trans)

lemma wf_filter:
  fixes xs :: "(nat \<times> 'a) list"
  shows "sorted_wrt (<) (map fst xs) \<Longrightarrow> sorted_wrt (<) (map fst (filter P xs))"
  by (induction xs) auto

lemma wf_create:
  assumes "config_wf cfg" "create_var ty name d s cfg = Inr (r, cfg')"
  shows "config_wf cfg'"
proof -
  have v: "valid_name lookup_chars name" and c: "cfg' = cfg\<lparr>cf_datas := (cf_datas cfg)(name \<mapsto> cf_next cfg),
        cf_heap := (cf_heap cfg)(cf_next cfg := new_ConfigVar ty name d s), cf_next := cf_next cfg + 1\<rparr>"
    using assms(2) by (auto simp: create_var_def split: if_splits)
  show ?thesis
    using assms(1) v valid_lower [OF v] unfolding c config_wf_def
    by (simp add: new_ConfigVar_def less_Suc_eq_le le_less split: if_split) (metis less_irrefl less_Suc_eq)
qed

lemma wf_Lookup: "config_wf cfg \<Longrightarrow> config_Lookup ty name d s cfg = Inr (r, cfg') \<Longrightarrow> config_wf cfg'"
  using wf_create by (fastforce simp: config_Lookup_def split: option.splits if_splits)

lemma wf_setValue:
  assumes "config_wf cfg" "a < cf_next cfg" "setValue run a v cfg w = (e, cfg', w')"
  shows "config_wf cfg'"
proof -
  consider "cfg' = cfg" | "cfg' = cfg\<lparr>cf_heap := (cf_heap cfg)(a := (cf_heap cfg a)\<lparr>cv_val := v\<rparr>)\<rparr>"
    using assms(3) by (auto simp: setValue_def Let_def split: if_splits prod.splits option.splits)
  then show ?thesis
  proof cases
    case 2
    show ?thesis unfolding 2
      by (rule wf_upd_var) (use assms in \<open>auto simp: config_wf_def\<close>)
  qed (use assms in simp)
qed

lemma wf_addListener:
  assumes "config_wf cfg" "a < cf_next cfg"
  shows "config_wf (snd (addListener a cb cfg))"
proof -
  let ?var = "cf_heap cfg a" and ?key = "cf_fun_id cfg (cv_type (cf_heap cfg a)) + 1"
  let ?c = "cfg\<lparr>cf_fun_id := (cf_fun_id cfg)(cv_type ?var := ?key)\<rparr>"
  have old: "sorted_wrt (<) (map fst (cv_cbs ?var))" "\<forall>k \<in> fst ` set (cv_cbs ?var). k < ?key"
    using assms unfolding config_wf_def by (auto simp: less_Suc_eq_le)
  then have "filter (\<lambda>(k, _). k \<noteq> ?key) (cv_cbs ?var) = cv_cbs ?var"
    by (force simp: filter_id_conv)
  then have eq: "snd (addListener a cb cfg) =
      ?c\<lparr>cf_heap := (cf_heap ?c)(a := ?var\<lparr>cv_cbs := cv_cbs ?var @ [(?key, cb)]\<rparr>)\<rparr>"
    by (simp add: addListener_def Let_def)
  show ?thesis unfolding eq
    by (rule wf_upd_var) (use old assms in \<open>auto simp: sorted_wrt_append less_imp_le intro!: wf_fun_id\<close>)
qed

lemma wf_delListener: "config_wf cfg \<Longrightarrow> a < cf_next cfg \<Longrightarrow> config_wf (delListener a key cfg)"
  unfolding delListener_def by (rule wf_upd_var) (auto simp: config_wf_def wf_filter)

lemma wf_clearListener: "config_wf cfg \<Longrightarrow> config_wf (clearListener a cfg)"
  unfolding clearListener_def by (rule wf_upd_var) auto

subsection \<open>Setting a variable\<close>

text \<open>What \<open>fromString\<close> does to the variable's value when no listener throws.\<close>

definition parsed :: "(string \<Rightarrow> string \<Rightarrow> 'v res) \<Rightarrow> string \<Rightarrow> string \<Rightarrow> 'v \<Rightarrow> 'v" where
  "parsed from_str ty s v = (case from_str ty s of Inr x \<Rightarrow> x | Inl _ \<Rightarrow> v)"

abbreviation quiet :: "('cb \<Rightarrow> 'v \<Rightarrow> 'v \<Rightarrow> 'w \<Rightarrow> cpp_error option \<times> 'w) \<Rightarrow> bool" where
  "quiet run \<equiv> \<forall>cb old new w. fst (run cb old new w) = None"

abbreviation converts :: "(string \<Rightarrow> string \<Rightarrow> 'v res) \<Rightarrow> bool" where
  "converts from_str \<equiv> \<forall>ty s e. from_str ty s = Inl e \<longrightarrow> is_exception e"

lemma quiet_listeners: "quiet run \<Longrightarrow> fst (run_listeners run old new cbs w) = None"
  by (induction cbs arbitrary: w) (auto split: prod.splits option.splits, metis fst_conv option.distinct(1))

lemma setValue_quiet:
  assumes "quiet run"
  obtains w' where "setValue run a v cfg w =
    (None, if v = getValue a cfg then cfg else cfg\<lparr>cf_heap := (cf_heap cfg)(a := (cf_heap cfg a)\<lparr>cv_val := v\<rparr>)\<rparr>, w')"
proof -
  obtain w' where "run_listeners run (cv_val (cf_heap cfg a)) v (cv_cbs (cf_heap cfg a)) w = (None, w')"
    using quiet_listeners [OF assms] by (metis prod.collapse)
  then show ?thesis using that [of "if v = getValue a cfg then w else w'"]
    by (simp add: setValue_def getValue_def Let_def)
qed

text \<open>The parts of the table that loading leaves alone.\<close>

definition same_table :: "('v, 'cb) config \<Rightarrow> ('v, 'cb) config \<Rightarrow> bool" where
  "same_table c d \<longleftrightarrow> cf_datas d = cf_datas c \<and> cf_next d = cf_next c \<and> cf_fun_id d = cf_fun_id c \<and>
     (\<forall>a. cv_type (cf_heap d a) = cv_type (cf_heap c a) \<and> cv_name (cf_heap d a) = cv_name (cf_heap c a) \<and>
        cv_description (cf_heap d a) = cv_description (cf_heap c a) \<and> cv_cbs (cf_heap d a) = cv_cbs (cf_heap c a))"

lemma same_table_refl [simp]: "same_table c c"
  by (simp add: same_table_def)

lemma same_table_trans: "same_table c d \<Longrightarrow> same_table d e \<Longrightarrow> same_table c e"
  by (simp add: same_table_def)

lemma same_table_wf: "same_table c d \<Longrightarrow> config_wf c \<Longrightarrow> config_wf d"
  unfolding same_table_def config_wf_def by simp

lemma fromString_quiet:
  fixes cfg :: "('v, 'cb) config" and w :: 'w
  assumes "quiet run" "converts from_str"
  obtains cfg' w' where "fromString from_str run a s cfg w = Inr (False, cfg', w')" "same_table cfg cfg'"
    "getValue a cfg' = parsed from_str (cv_type (cf_heap cfg a)) s (getValue a cfg)"
    "\<And>b. b \<noteq> a \<Longrightarrow> getValue b cfg' = getValue b cfg"
proof (cases "from_str (cv_type (cf_heap cfg a)) s")
  case (Inl e)
  then show ?thesis using that [of cfg w] assms(2) by (simp add: fromString_def parsed_def)
next
  case (Inr v)
  let ?c = "if v = getValue a cfg then cfg else cfg\<lparr>cf_heap := (cf_heap cfg)(a := (cf_heap cfg a)\<lparr>cv_val := v\<rparr>)\<rparr>"
  obtain w' where "setValue run a v cfg w = (None, ?c, w')" using setValue_quiet [OF assms(1)] .
  then show ?thesis using that [of ?c w'] Inr
    by (simp add: fromString_def parsed_def getValue_def same_table_def)
qed

subsection \<open>Loading a document\<close>

text \<open>
  Of the variable \<open>name\<close>, a document changes only the value: it is parsed from the entries with that
  name, one after the other.
\<close>

definition entry_text :: "(yaml \<Rightarrow> string) \<Rightarrow> yaml \<Rightarrow> string" where
  "entry_text emit n = (case n of YScalar s \<Rightarrow> s | _ \<Rightarrow> emit n)"

fun loaded ::
  "(yaml \<Rightarrow> string) \<Rightarrow> (string \<Rightarrow> string \<Rightarrow> 'v res) \<Rightarrow> string \<Rightarrow> string \<Rightarrow> (string \<times> yaml) list \<Rightarrow> 'v \<Rightarrow> 'v" where
  "loaded emit from_str ty name [] v = v"
| "loaded emit from_str ty name ((key, n) # es) v =
     loaded emit from_str ty name es (if key = name then parsed from_str ty (entry_text emit n) v else v)"

lemma load_entry_quiet:
  fixes cfg :: "('v, 'cb) config" and w :: 'w
  assumes "quiet run" "converts from_str" "config_wf cfg" "valid_name lookup_chars key"
  obtains cfg' w' where "load_entry emit from_str run (key, n) (cfg, w) = Inr (cfg', w')" "same_table cfg cfg'"
    "\<And>name a. name \<noteq> [] \<Longrightarrow> cf_datas cfg name = Some a \<Longrightarrow>
       getValue a cfg' = (if key = name then parsed from_str (cv_type (cf_heap cfg a)) (entry_text emit n) (getValue a cfg)
                          else getValue a cfg)"
    "\<And>a. a \<notin> ran (cf_datas cfg) \<Longrightarrow> getValue a cfg' = getValue a cfg"
proof (cases "key = [] \<or> cf_datas cfg key = None")
  case True
  then have "load_entry emit from_str run (key, n) (cfg, w) = Inr (cfg, w)"
    using valid_lower [OF assms(4)] by (auto simp: load_entry_def LookupBase_def)
  then show ?thesis using that [of cfg w] True by force
next
  case False
  then obtain a where a: "cf_datas cfg key = Some a" "key \<noteq> []" by auto
  obtain cfg' w' where r: "fromString from_str run a (entry_text emit n) cfg w = Inr (False, cfg', w')" "same_table cfg cfg'"
    "getValue a cfg' = parsed from_str (cv_type (cf_heap cfg a)) (entry_text emit n) (getValue a cfg)"
    "\<And>b. b \<noteq> a \<Longrightarrow> getValue b cfg' = getValue b cfg"
    using fromString_quiet [OF assms(1,2)] by blast
  have "load_entry emit from_str run (key, n) (cfg, w) = Inr (cfg', w')"
    using a r(1) valid_lower [OF assms(4)] by (simp add: load_entry_def LookupBase_def entry_text_def)
  then show ?thesis
  proof (rule that)
    show "same_table cfg cfg'" by (fact r(2))
    show "getValue b cfg' = (if key = name then parsed from_str (cv_type (cf_heap cfg b)) (entry_text emit n) (getValue b cfg)
        else getValue b cfg)" if "cf_datas cfg name = Some b" for name b
    proof (cases "key = name")
      case True
      then show ?thesis using that a r(3) by simp
    next
      case False
      then have "b \<noteq> a" using config_wf_inj [OF assms(3) a(1)] that by blast
      then show ?thesis using False r(4) by simp
    qed
    show "getValue b cfg' = getValue b cfg" if "b \<notin> ran (cf_datas cfg)" for b
      using that a r(4) by (metis ranI)
  qed
qed

lemma entries_quiet:
  fixes cfg :: "('v, 'cb) config" and w :: 'w
  assumes "quiet run" "converts from_str" "config_wf cfg" "\<forall>e \<in> set es. valid_name lookup_chars (fst e)"
  shows "\<exists>cfg' w'. foldR (load_entry emit from_str run) es (cfg, w) = Inr (cfg', w') \<and> same_table cfg cfg' \<and>
    (\<forall>name a. name \<noteq> [] \<longrightarrow> cf_datas cfg name = Some a \<longrightarrow>
       getValue a cfg' = loaded emit from_str (cv_type (cf_heap cfg a)) name es (getValue a cfg)) \<and>
    (\<forall>a. a \<notin> ran (cf_datas cfg) \<longrightarrow> getValue a cfg' = getValue a cfg)"
  using assms(3,4)
proof (induction es arbitrary: cfg w)
  case (Cons e es)
  obtain key n where e: "e = (key, n)" by (cases e)
  obtain c v where one: "load_entry emit from_str run (key, n) (cfg, w) = Inr (c, v)" "same_table cfg c"
    "\<And>name a. name \<noteq> [] \<Longrightarrow> cf_datas cfg name = Some a \<Longrightarrow>
       getValue a c = (if key = name then parsed from_str (cv_type (cf_heap cfg a)) (entry_text emit n) (getValue a cfg)
                       else getValue a cfg)"
    "\<And>a. a \<notin> ran (cf_datas cfg) \<Longrightarrow> getValue a c = getValue a cfg"
    using load_entry_quiet [OF assms(1,2) Cons.prems(1), of key] Cons.prems(2) e by (metis fst_conv list.set_intros(1))
  have datas: "cf_datas c = cf_datas cfg" "cv_type (cf_heap c a) = cv_type (cf_heap cfg a)" for a
    using one(2) by (auto simp: same_table_def)
  obtain cfg' w' where rest: "foldR (load_entry emit from_str run) es (c, v) = Inr (cfg', w')" "same_table c cfg'"
    "\<And>name a. name \<noteq> [] \<Longrightarrow> cf_datas c name = Some a \<Longrightarrow>
       getValue a cfg' = loaded emit from_str (cv_type (cf_heap c a)) name es (getValue a c)"
    "\<And>a. a \<notin> ran (cf_datas c) \<Longrightarrow> getValue a cfg' = getValue a c"
    using Cons.IH [OF same_table_wf [OF one(2) Cons.prems(1)], of v] Cons.prems(2) by auto
  show ?case
    using one rest datas same_table_trans [OF one(2) rest(2)]
    by (intro exI [of _ cfg'] exI [of _ w'] conjI allI impI) (simp_all add: e)
qed simp

lemma member_names_valid: "e \<in> set (ListAllMember [] root) \<Longrightarrow> valid_name lookup_chars (fst e)"
  using members_at member_valid by (metis prod.collapse)

lemma load_quiet:
  fixes cfg :: "('v, 'cb) config" and w :: 'w
  assumes "quiet run" "converts from_str" "config_wf cfg"
  shows "\<exists>cfg' w'. LoadFromYaml emit from_str run root (cfg, w) = Inr (cfg', w') \<and> same_table cfg cfg' \<and>
    (\<forall>name a. name \<noteq> [] \<longrightarrow> cf_datas cfg name = Some a \<longrightarrow>
       getValue a cfg' = loaded emit from_str (cv_type (cf_heap cfg a)) name (ListAllMember [] root) (getValue a cfg)) \<and>
    (\<forall>a. a \<notin> ran (cf_datas cfg) \<longrightarrow> getValue a cfg' = getValue a cfg)"
  unfolding LoadFromYaml_def using entries_quiet [OF assms, of "ListAllMember [] root"] member_names_valid by blast

subsection \<open>Correctness\<close>

text \<open>The small documents, table and conversion of the examples.\<close>

definition sample_doc :: yaml where
  "sample_doc = YMap [(YScalar ''tcp'', YMap [(YScalar ''port'', YScalar ''80''), (YScalar ''port9'', YScalar ''x'')]),
     (YScalar ''Name'', YScalar ''n'')]"

definition sample_config :: "(string, nat) config" where
  "sample_config = \<lparr>cf_datas = [''tcp.port'' \<mapsto> 0], cf_heap = (\<lambda>_. new_ConfigVar ''string'' ''tcp.port'' ''8080'' ''''),
     cf_next = 1, cf_fun_id = (\<lambda>_. 0)\<rparr>"

lemma sample_config_wf: "config_wf sample_config"
proof -
  have "valid_name lookup_chars ''tcp.port''" by code_simp
  then show ?thesis using valid_lower [of "''tcp.port''"]
    by (simp add: config_wf_def sample_config_def new_ConfigVar_def split: if_splits)
qed

text \<open>
  \<open>ListAllMember\<close> on a document lists exactly the nodes that a path of keys reaches and whose dotted
  name has only the accepted characters, each with that name: a name with another character, such as
  an upper case letter or the digit 9, which the list of characters omits, hides the whole subtree.
\<close>

lemma members_are_paths:
  "(name, n) \<in> set (ListAllMember [] root) \<longleftrightarrow>
     (\<exists>path. at_path root path n \<and> name = dotted [] path \<and> valid_name member_chars name)"
  by (rule members_at)

text \<open>
  C15. Loading a document refines the per-variable meaning: it always ends, every named variable gets
  the value its own entries of the document give, the last parsable one winning, and nothing else of
  the table changes: no name, type, description or listener, and no value of a variable that no name
  reaches. The conversions throw only standard exceptions and the listeners do not throw.
\<close>

theorem load_refines:
  fixes cfg :: "('v, 'cb) config" and w :: 'w
  assumes "\<forall>cb old new w. fst (run cb old new w) = None"
    and "\<forall>ty s e. from_str ty s = Inl e \<longrightarrow> is_exception e" and "config_wf cfg"
  shows "\<exists>cfg' w'. LoadFromYaml emit from_str run root (cfg, w) = Inr (cfg', w') \<and> same_table cfg cfg' \<and>
    (\<forall>name a. name \<noteq> [] \<longrightarrow> cf_datas cfg name = Some a \<longrightarrow>
       getValue a cfg' = loaded emit from_str (cv_type (cf_heap cfg a)) name (ListAllMember [] root) (getValue a cfg)) \<and>
    (\<forall>a. a \<notin> ran (cf_datas cfg) \<longrightarrow> getValue a cfg' = getValue a cfg)"
  using load_quiet [OF assms] .

definition sample_load :: "((string, nat) config \<times> unit) res" where
  "sample_load = LoadFromYaml (\<lambda>_. []) (\<lambda>_ s. if s = [] then Inl InvalidArgument else Inr s) (\<lambda>_ _ _ w. (None, w)) sample_doc (sample_config, ())"

theorem load_refines_witness:
  "\<exists>cfg' w'. sample_load = Inr (cfg', w') \<and> getValue 0 cfg' = ''80'' \<and> cf_datas cfg' ''tcp.port'' = Some 0"
proof -
  have members: "ListAllMember [] sample_doc = [([], sample_doc), (''tcp'', snd (hd (y_pairs sample_doc))), (''tcp.port'', YScalar ''80'')]"
    by code_simp
  have ex: "(\<forall>cb old new w. fst (((\<lambda>_ _ _ w. (None, w)) :: nat \<Rightarrow> string \<Rightarrow> string \<Rightarrow> unit \<Rightarrow> cpp_error option \<times> unit) cb old new w) = None)"
    "\<forall>ty s e. ((\<lambda>_ s. if s = [] then Inl InvalidArgument else Inr s) :: string \<Rightarrow> string \<Rightarrow> string res) ty s = Inl e \<longrightarrow> is_exception e"
    by (auto simp: is_exception_def split: if_splits)
  have at: "cf_datas sample_config ''tcp.port'' = Some 0" "''tcp.port'' \<noteq> []" by (simp_all add: sample_config_def)
  have v: "loaded (\<lambda>_. []) (\<lambda>_ s. if s = [] then Inl InvalidArgument else Inr s) ty ''tcp.port''
      (ListAllMember [] sample_doc) v = ''80''" for ty and v :: string
    unfolding members by (simp add: parsed_def entry_text_def)
  from load_refines [OF ex sample_config_wf, of "\<lambda>_. []" sample_doc "()"] show ?thesis
    unfolding same_table_def
  proof (elim exE conjE)
    fix cfg' w'
    assume l: "LoadFromYaml (\<lambda>_. []) (\<lambda>_ s. if s = [] then Inl InvalidArgument else Inr s) (\<lambda>_ _ _ w. (None, w))
        sample_doc (sample_config, ()) = Inr (cfg', w')" "cf_datas cfg' = cf_datas sample_config"
    assume all: "\<forall>name a. name \<noteq> [] \<longrightarrow> cf_datas sample_config name = Some a \<longrightarrow> getValue a cfg' =
        loaded (\<lambda>_. []) (\<lambda>_ s. if s = [] then Inl InvalidArgument else Inr s) (cv_type (cf_heap sample_config a)) name
          (ListAllMember [] sample_doc) (getValue a sample_config)"
    have "getValue 0 cfg' = ''80''" using all [rule_format, OF at(2,1)] v by simp
    then show ?thesis using l at unfolding sample_load_def by simp
  qed
qed

subsection \<open>Listeners\<close>

text \<open>A listener that records its call and then throws when \<open>bad\<close> says so.\<close>

definition recording :: "('cb \<Rightarrow> cpp_error option) \<Rightarrow> 'cb \<Rightarrow> 'v \<Rightarrow> 'v \<Rightarrow> ('cb \<times> 'v \<times> 'v) list \<Rightarrow> cpp_error option \<times> ('cb \<times> 'v \<times> 'v) list" where
  "recording bad cb old new w = (bad cb, w @ [(cb, old, new)])"

text \<open>The listeners that are reached: all up to the first that throws.\<close>

fun reached :: "('cb \<Rightarrow> cpp_error option) \<Rightarrow> 'cb list \<Rightarrow> 'cb list" where
  "reached bad [] = []"
| "reached bad (cb # cbs) = cb # (if bad cb = None then reached bad cbs else [])"

lemma run_recording:
  "run_listeners (recording bad) old new cbs w =
     (case filter (\<lambda>cb. bad cb \<noteq> None) (map snd cbs) of [] \<Rightarrow> None | cb # _ \<Rightarrow> bad cb,
      w @ map (\<lambda>cb. (cb, old, new)) (reached bad (map snd cbs)))"
  by (induction cbs arbitrary: w) (auto simp: recording_def)

text \<open>
  Setting a variable to its own value does nothing. Otherwise the listeners are called in the
  order they were added, each once with the old and the new value and before the value changes; when
  one throws, those after it are not called and the value is kept.
\<close>

lemma change_notifies:
  "setValue (recording bad) a v cfg w =
     (let cbs = map snd (cv_cbs (cf_heap cfg a)); old = getValue a cfg in
      if v = old then (None, cfg, w)
      else (case filter (\<lambda>cb. bad cb \<noteq> None) cbs of
          [] \<Rightarrow> (None, cfg\<lparr>cf_heap := (cf_heap cfg)(a := (cf_heap cfg a)\<lparr>cv_val := v\<rparr>)\<rparr>, w @ map (\<lambda>cb. (cb, old, v)) cbs)
        | cb # _ \<Rightarrow> (bad cb, cfg, w @ map (\<lambda>cb. (cb, old, v)) (reached bad cbs))))"
proof -
  have ok: "reached bad cbs = cbs" if "filter (\<lambda>cb. bad cb \<noteq> None) cbs = []" for cbs
    using that by (induction cbs) (auto split: if_splits)
  have bad: "bad cb \<noteq> None" if "filter (\<lambda>cb. bad cb \<noteq> None) cbs = cb # r" for cbs cb r
    using that by (auto dest: filter_eq_ConsD)
  show ?thesis
  proof (cases "filter (\<lambda>cb. bad cb \<noteq> None) (map snd (cv_cbs (cf_heap cfg a)))")
    case Nil
    then show ?thesis using ok by (simp add: setValue_def getValue_def run_recording Let_def)
  next
    case (Cons cb r)
    then show ?thesis using bad [OF Cons] by (auto simp: setValue_def getValue_def run_recording Let_def)
  qed
qed

subsection \<open>Looking a variable up again\<close>

text \<open>
  \<open>Lookup\<close> with a default value, on a name that has a variable of the same type already, does not
  return it: it makes a second variable with the default value and no listeners, and the name leads to
  that one from then on. The first variable stays with who holds it, and whatever document is loaded
  afterwards its value does not change any more.
\<close>

lemma second_lookup_replaces:
  fixes cfg :: "('v, 'cb) config" and w :: 'w
  assumes "config_wf cfg" "cf_datas cfg name = Some a" "cv_type (cf_heap cfg a) = ty"
    and "\<forall>cb old new w. fst (run cb old new w) = None"
    and "\<forall>ty s e. from_str ty s = Inl e \<longrightarrow> is_exception e"
  shows "\<exists>b cfg1. config_Lookup ty name d s cfg = Inr (Some b, cfg1) \<and> b \<noteq> a \<and>
    getValue b cfg1 = d \<and> cv_cbs (cf_heap cfg1 b) = [] \<and> config_Lookup_name ty name cfg1 = Some b \<and>
    (\<exists>cfg2 w2. LoadFromYaml emit from_str run root (cfg1, w) = Inr (cfg2, w2) \<and> getValue a cfg2 = getValue a cfg)"
proof -
  let ?b = "cf_next cfg"
  let ?c = "cfg\<lparr>cf_datas := (cf_datas cfg)(name \<mapsto> ?b), cf_heap := (cf_heap cfg)(?b := new_ConfigVar ty name d s),
        cf_next := ?b + 1\<rparr>"
  have a: "a < ?b" "valid_name lookup_chars name" using assms(1,2) by (auto simp: config_wf_def)
  then have l: "config_Lookup ty name d s cfg = Inr (Some ?b, ?c)"
    using assms(2,3) by (simp add: config_Lookup_def create_var_def)
  have "x = name" if "cf_datas cfg x = Some a" for x using config_wf_inj [OF assms(1) that assms(2)] .
  then have "a \<notin> ran (cf_datas ?c)" using a(1) by (auto simp: ran_def)
  then obtain cfg2 w2 where "LoadFromYaml emit from_str run root (?c, w) = Inr (cfg2, w2)" "getValue a cfg2 = getValue a ?c"
    using load_quiet [OF assms(4,5) wf_Lookup [OF assms(1) l], of emit root w] by blast
  then show ?thesis using l a(1)
    by (intro exI [of _ ?b] exI [of _ ?c]) (simp add: getValue_def new_ConfigVar_def config_Lookup_name_def)
qed

lemma second_lookup_replaces_example:
  "\<exists>b cfg1. config_Lookup ''string'' ''tcp.port'' ''1'' [] sample_config = Inr (Some b, cfg1) \<and> b \<noteq> 0 \<and> getValue b cfg1 = ''1'' \<and>
    (\<exists>cfg2 w2. LoadFromYaml (\<lambda>_. []) (\<lambda>_ s. Inr s) (\<lambda>_ _ _ w. (None, w)) sample_doc (cfg1, ()) = Inr (cfg2, w2) \<and>
       getValue 0 cfg2 = ''8080'')"
proof -
  have "cf_datas sample_config ''tcp.port'' = Some 0" "cv_type (cf_heap sample_config 0) = ''string''"
    "getValue 0 sample_config = ''8080''"
    by (simp_all add: sample_config_def new_ConfigVar_def getValue_def)
  then show ?thesis
    using second_lookup_replaces [OF sample_config_wf, of "''tcp.port''" 0 "''string''" "\<lambda>_ _ _ w. (None, w)" "\<lambda>_ s. Inr s"
        "''1''" "[]" "\<lambda>_. []" sample_doc "()"] by (simp del: ex_simps) blast
qed

subsection \<open>Reachable tables\<close>

lemma fromString_step:
  assumes "fromString from_str run a s cfg w = Inr (b, cfg', w')"
  obtains "cfg' = cfg" | v e where "setValue run a v cfg w = (e, cfg', w')"
  using assms by (auto simp: fromString_def split: sum.splits prod.splits option.splits if_splits)

lemma wf_load_entry:
  assumes "config_wf (fst st)" "load_entry emit from_str run e st = Inr st'"
  shows "config_wf (fst st')"
proof -
  obtain key n cfg w where e: "e = (key, n)" "st = (cfg, w)" by (metis prod.exhaust)
  show ?thesis
  proof (cases "key = [] \<or> cf_datas cfg (map tolower key) = None")
    case True
    then show ?thesis using assms e by (auto simp: load_entry_def LookupBase_def split: if_splits)
  next
    case False
    then obtain a where a: "cf_datas cfg (map tolower key) = Some a" by auto
    then have "a < cf_next cfg" using assms(1) e by (auto simp: config_wf_def)
    moreover obtain s b cfg' w' where "fromString from_str run a s cfg w = Inr (b, cfg', w')" "st' = (cfg', w')"
      using assms(2) False a e unfolding load_entry_def LookupBase_def
      by (cases "fromString from_str run a (case n of YScalar s \<Rightarrow> s | _ \<Rightarrow> emit n) cfg w") auto
    ultimately show ?thesis using assms(1) e wf_setValue by (auto elim!: fromString_step)
  qed
qed

lemma wf_entries: "config_wf (fst st) \<Longrightarrow> foldR (load_entry emit from_str run) es st = Inr st' \<Longrightarrow> config_wf (fst st')"
proof (induction es arbitrary: st)
  case (Cons e es)
  then show ?case using wf_load_entry by (cases "load_entry emit from_str run e st") fastforce+
qed simp

text \<open>
  The operations a program performs on the table, on the addresses it got from \<open>Lookup\<close>; the second
  part of the state is what the listeners change.
\<close>

inductive config_step :: "('v, 'cb) config \<times> 'w \<Rightarrow> ('v, 'cb) config \<times> 'w \<Rightarrow> bool" where
  lookup: "config_Lookup ty name d s cfg = Inr (r, cfg') \<Longrightarrow> config_step (cfg, w) (cfg', w)"
| set: "a < cf_next cfg \<Longrightarrow> setValue run a v cfg w = (e, cfg', w') \<Longrightarrow> config_step (cfg, w) (cfg', w')"
| add: "a < cf_next cfg \<Longrightarrow> config_step (cfg, w) (snd (addListener a cb cfg), w)"
| del: "a < cf_next cfg \<Longrightarrow> config_step (cfg, w) (delListener a key cfg, w)"
| clear: "a < cf_next cfg \<Longrightarrow> config_step (cfg, w) (clearListener a cfg, w)"
| load: "LoadFromYaml emit from_str run root (cfg, w) = Inr (cfg', w') \<Longrightarrow> config_step (cfg, w) (cfg', w')"

lemma config_step_wf: "config_step st st' \<Longrightarrow> config_wf (fst st) \<Longrightarrow> config_wf (fst st')"
proof (induction rule: config_step.induct)
  case (load emit from_str run root cfg w cfg' w')
  then show ?case using wf_entries [of "(cfg, w)"] unfolding LoadFromYaml_def by fastforce
qed (auto intro: wf_Lookup wf_setValue wf_addListener wf_delListener wf_clearListener)

text \<open>
  C36. In every table the program can reach from the empty one, the names are valid and are those of
  their variables, different names lead to different variables, and the listeners of each variable are
  in the order they were added. So a variable never changes its name, and a document entry addresses
  at most one variable.
\<close>

theorem config_reachable_wf:
  assumes "config_step\<^sup>*\<^sup>* st0 st" "cf_datas (fst st0) = Map.empty" "cf_next (fst st0) = 0"
  shows "config_wf (fst st)"
proof -
  have "config_wf (fst st0)" using assms(2,3) by (simp add: config_wf_def)
  with assms(1) show ?thesis by (induction rule: rtranclp_induct) (auto intro: config_step_wf)
qed

definition empty_config :: "(int, nat) config" where
  "empty_config = \<lparr>cf_datas = Map.empty, cf_heap = (\<lambda>_. new_ConfigVar [] [] 0 []), cf_next = 0, cf_fun_id = (\<lambda>_. 0)\<rparr>"

theorem config_reachable_wf_witness:
  "\<exists>cfg. config_step\<^sup>*\<^sup>* (empty_config, ()) (cfg, ()) \<and> cf_datas cfg ''tcp.port'' = Some 0 \<and> config_wf cfg"
proof -
  have "valid_name lookup_chars ''tcp.port''" by code_simp
  then obtain c1 where c1: "config_Lookup ''int'' ''tcp.port'' 80 [] empty_config = Inr (Some 0, c1)" "cf_datas c1 ''tcp.port'' = Some 0"
    by (simp add: config_Lookup_def create_var_def empty_config_def)
  then have "config_step\<^sup>*\<^sup>* (empty_config, ()) (c1, ())" by (blast intro: config_step.lookup)
  then show ?thesis using config_reachable_wf [of "(empty_config, ())" "(c1, ())"] c1 by (auto simp: empty_config_def)
qed

subsection \<open>Containers round trip\<close>

lemma mapR_map: "(\<And>x. x \<in> set xs \<Longrightarrow> f x = Inr (g x)) \<Longrightarrow> mapR f xs = Inr (map g xs)"
  by (induction xs) auto

text \<open>
  A vector that is printed and read back is the same vector, the empty one included, provided that
  the library reads back what it printed, an element's text is the text of a node that prints back to
  it, and indexing a sequence gives its elements. Lists are converted by the same code, and a set is
  read back from the elements in whatever order they were printed.
\<close>

lemma vector_round_trip:
  fixes v :: "'a list"
  assumes "\<forall>ns. set ns \<subseteq> node ` set v \<longrightarrow> load (emit (y_seq ns)) = Inr (y_seq ns)"
    and "\<forall>x \<in> set v. load (to_str x) = Inr (node x) \<and> from_str (emit (node x)) = Inr x"
    and "\<forall>ns i. i < length ns \<longrightarrow> at (YSeq ns) i = ns ! i"
  shows "bindR (cast_from_vector load emit to_str v) (cast_to_vector load emit at from_str) = Inr v
      \<and> (set (order (set v)) = set v \<longrightarrow>
      bindR (cast_from_set load emit to_str order (set v)) (cast_to_set load emit at from_str) = Inr (set v))"
proof -
  have rt: "bindR (cast_from_vector load emit to_str xs) (cast_to_vector load emit at from_str) = Inr xs"
    if "set xs \<subseteq> set v" for xs
  proof -
    have nodes: "mapR (\<lambda>i. load (to_str i)) xs = Inr (map node xs)"
      using assms(2) that by (intro mapR_map) auto
    have "load (emit (y_seq (map node xs))) = Inr (y_seq (map node xs))"
      using assms(1) that by (metis image_mono list.set_map)
    moreover have "mapR (\<lambda>i. from_str (emit (at (y_seq (map node xs)) i))) [0..<y_size (y_seq (map node xs))]
        = Inr (map (\<lambda>i. xs ! i) [0..<length xs])"
    proof (cases "xs = []")
      case False
      then have y: "y_seq (map node xs) = YSeq (map node xs)" by (simp add: y_seq_def)
      then have len: "y_size (y_seq (map node xs)) = length xs" by (simp add: y_size_def)
      show ?thesis unfolding len
      proof (rule mapR_map)
        fix i assume i: "i \<in> set [0..<length xs]"
        then have "at (y_seq (map node xs)) i = node (xs ! i)" using assms(3) unfolding y by simp
        moreover have "xs ! i \<in> set v" using i that by auto
        ultimately show "from_str (emit (at (y_seq (map node xs)) i)) = Inr (xs ! i)" using assms(2) by simp
      qed
    qed (simp add: y_seq_def y_size_def)
    ultimately show ?thesis unfolding cast_from_vector_def cast_to_vector_def nodes by (simp add: map_nth)
  qed
  moreover have "bindR (cast_from_set load emit to_str order (set v)) (cast_to_set load emit at from_str) = Inr (set v)"
    if "set (order (set v)) = set v"
    using rt [of "order (set v)"] that unfolding cast_from_set_def cast_to_set_def
    by (cases "cast_from_vector load emit to_str (order (set v))") auto
  ultimately show ?thesis by blast
qed

text \<open>A small text format, enough for the example: \<open>[\<close> and one character for each element.\<close>

fun tiny_emit :: "yaml \<Rightarrow> string" where
  "tiny_emit (YSeq ns) = CHR ''['' # concat (map y_scalar ns)"
| "tiny_emit n = y_scalar n"

fun tiny_load :: "string \<Rightarrow> yaml res" where
  "tiny_load [] = Inr YNull"
| "tiny_load (c # s) = Inr (if c = CHR ''['' then YSeq (map (\<lambda>c. YScalar [c]) s) else YScalar (c # s))"

fun tiny_at :: "yaml \<Rightarrow> nat \<Rightarrow> yaml" where
  "tiny_at (YSeq ns) i = ns ! i"
| "tiny_at _ _ = YUndef"

lemma tiny_back: "set ns \<subseteq> (\<lambda>c. YScalar [c]) ` X \<Longrightarrow> map (\<lambda>c. YScalar [c]) (concat (map y_scalar ns)) = ns"
  by (induction ns) (auto simp: y_scalar_def)

lemma vector_round_trip_example:
  "bindR (cast_from_vector tiny_load tiny_emit (\<lambda>c. [c]) ''8080'') (cast_to_vector tiny_load tiny_emit tiny_at (\<lambda>s. Inr (hd s)))
     = Inr ''8080''"
proof -
  have "tiny_load (tiny_emit (y_seq ns)) = Inr (y_seq ns)" if "set ns \<subseteq> (\<lambda>c. YScalar [c]) ` set ''8080''" for ns
    using tiny_back [OF that] by (simp add: y_seq_def y_scalar_def)
  then show ?thesis
    using vector_round_trip [of "\<lambda>c. YScalar [c]" "''8080''" tiny_load tiny_emit "\<lambda>c. [c]" "\<lambda>s. Inr (hd s)" tiny_at "\<lambda>_. ''08''"]
    by (simp add: y_scalar_def)
qed

end
