(* ===== verification/Log.thy ===== *)
theory Log
  imports LogFormat Config
begin

text \<open>
  \<open>sherry/log.h\<close>, \<open>sherry/log.cc\<close>, second part: appenders, loggers and the manager of loggers. Loggers and appenders live on heaps, formatters are values. The members that the
  constructors leave uninitialised are arguments. The output is the sequence of texts written to the
  console and to files. The environment gives \<open>strftime\<close>, the clock and which files can be opened.
\<close>

subsection \<open>Appenders\<close>

datatype sink = Console | LogFile string

record appender =
  ap_level :: level
  ap_formatter :: "formatter option"
  ap_hasFormatter :: bool
  ap_sink :: sink
  ap_open :: bool
  ap_lastTime :: u64

record logger =
  lg_name :: string
  lg_appenders :: "nat list"
  lg_level :: level
  lg_formatter :: "formatter option"
  lg_root :: "nat option"

text \<open>The heaps, the manager's table and root, and the output.\<close>

record logstate =
  ls_appenders :: "nat \<Rightarrow> appender"
  ls_next_appender :: nat
  ls_loggers :: "nat \<Rightarrow> logger"
  ls_next_logger :: nat
  lm_loggers :: "string \<rightharpoonup> nat"
  lm_root :: nat
  ls_out :: "(sink \<times> string) list"

record logenv =
  le_strftime :: "string \<Rightarrow> u64 \<Rightarrow> string option"
  le_time :: u64
  le_can_open :: "string \<Rightarrow> bool"

definition upd_appender :: "nat \<Rightarrow> (appender \<Rightarrow> appender) \<Rightarrow> logstate \<Rightarrow> logstate" where
  "upd_appender a f st = st\<lparr>ls_appenders := (ls_appenders st)(a := f (ls_appenders st a))\<rparr>"

definition upd_logger :: "nat \<Rightarrow> (logger \<Rightarrow> logger) \<Rightarrow> logstate \<Rightarrow> logstate" where
  "upd_logger l f st = st\<lparr>ls_loggers := (ls_loggers st)(l := f (ls_loggers st l))\<rparr>"

definition appender_setFormatter :: "nat \<Rightarrow> formatter option \<Rightarrow> logstate \<Rightarrow> logstate" where
  "appender_setFormatter a val = upd_appender a (\<lambda>ap. ap\<lparr>ap_formatter := val, ap_hasFormatter := (val \<noteq> None)\<rparr>)"

definition appender_setLevel :: "nat \<Rightarrow> level \<Rightarrow> logstate \<Rightarrow> logstate" where
  "appender_setLevel a val = upd_appender a (\<lambda>ap. ap\<lparr>ap_level := val\<rparr>)"

definition reopen :: "logenv \<Rightarrow> appender \<Rightarrow> appender" where
  "reopen e ap = (case ap_sink ap of LogFile fname \<Rightarrow> ap\<lparr>ap_open := le_can_open e fname\<rparr> | Console \<Rightarrow> ap)"

text \<open>\<open>level0\<close> and \<open>time0\<close> are the contents of the uninitialised members.\<close>

definition new_StdoutLogAppender :: "level \<Rightarrow> appender" where
  "new_StdoutLogAppender level0 =
     \<lparr>ap_level = level0, ap_formatter = None, ap_hasFormatter = False, ap_sink = Console, ap_open = True, ap_lastTime = 0\<rparr>"

definition new_FileLogAppender :: "logenv \<Rightarrow> level \<Rightarrow> u64 \<Rightarrow> string \<Rightarrow> appender" where
  "new_FileLogAppender e level0 time0 fname = reopen e
     \<lparr>ap_level = level0, ap_formatter = None, ap_hasFormatter = False, ap_sink = LogFile fname, ap_open = False, ap_lastTime = time0\<rparr>"

definition alloc_appender :: "appender \<Rightarrow> logstate \<Rightarrow> nat \<times> logstate" where
  "alloc_appender ap st = (ls_next_appender st,
     st\<lparr>ls_appenders := (ls_appenders st)(ls_next_appender st := ap), ls_next_appender := ls_next_appender st + 1\<rparr>)"

text \<open>The text an appender prints for an event.\<close>

definition appender_text :: "logenv \<Rightarrow> level \<Rightarrow> logevent \<Rightarrow> nat \<Rightarrow> logstate \<Rightarrow> string res" where
  "appender_text e lvl ev a st =
     (case ap_formatter (ls_appenders st a) of
        None \<Rightarrow> Inl NullDeref
      | Some f \<Rightarrow> LogFormatter_format (le_strftime e) (\<lambda>l. lg_name (ls_loggers st l)) lvl ev f)"

definition emit_text :: "sink \<Rightarrow> string \<Rightarrow> logstate \<Rightarrow> logstate" where
  "emit_text s t st = st\<lparr>ls_out := ls_out st @ [(s, t)]\<rparr>"

definition StdoutLogAppender_log :: "logenv \<Rightarrow> level \<Rightarrow> logevent \<Rightarrow> nat \<Rightarrow> logstate \<Rightarrow> logstate res" where
  "StdoutLogAppender_log e lvl ev a st =
     (if lvl \<ge> ap_level (ls_appenders st a)
      then bindR (appender_text e lvl ev a st) (\<lambda>t. Inr (emit_text Console t st))
      else Inr st)"

definition FileLogAppender_log :: "logenv \<Rightarrow> level \<Rightarrow> logevent \<Rightarrow> nat \<Rightarrow> logstate \<Rightarrow> logstate res" where
  "FileLogAppender_log e lvl ev a st =
     (if lvl \<ge> ap_level (ls_appenders st a)
      then
        let st = (if le_time e \<noteq> ap_lastTime (ls_appenders st a)
                  then upd_appender a (\<lambda>ap. (reopen e ap)\<lparr>ap_lastTime := le_time e\<rparr>) st else st) in
        bindR (appender_text e lvl ev a st) (\<lambda>t.
          Inr (if ap_open (ls_appenders st a) then emit_text (ap_sink (ls_appenders st a)) t st else st))
      else Inr st)"

definition appender_log :: "logenv \<Rightarrow> level \<Rightarrow> logevent \<Rightarrow> nat \<Rightarrow> logstate \<Rightarrow> logstate res" where
  "appender_log e lvl ev a st =
     (case ap_sink (ls_appenders st a) of
        Console \<Rightarrow> StdoutLogAppender_log e lvl ev a st
      | LogFile _ \<Rightarrow> FileLogAppender_log e lvl ev a st)"

subsection \<open>Loggers\<close>

definition new_Logger :: "string \<Rightarrow> logger" where
  "new_Logger name =
     \<lparr>lg_name = name, lg_appenders = [], lg_level = DEBUG, lg_formatter = Some (new_LogFormatter default_pattern), lg_root = None\<rparr>"

definition logger_setLevel :: "nat \<Rightarrow> level \<Rightarrow> logstate \<Rightarrow> logstate" where
  "logger_setLevel l val = upd_logger l (\<lambda>lg. lg\<lparr>lg_level := val\<rparr>)"

text \<open>The appenders that have no formatter of their own follow the logger.\<close>

definition logger_setFormatter :: "nat \<Rightarrow> formatter option \<Rightarrow> logstate \<Rightarrow> logstate" where
  "logger_setFormatter l val st =
     fold (\<lambda>a st. if ap_hasFormatter (ls_appenders st a) then st else upd_appender a (\<lambda>ap. ap\<lparr>ap_formatter := val\<rparr>) st)
       (lg_appenders (ls_loggers st l)) (upd_logger l (\<lambda>lg. lg\<lparr>lg_formatter := val\<rparr>) st)"

definition logger_setFormatter_str :: "nat \<Rightarrow> string \<Rightarrow> logstate \<Rightarrow> logstate" where
  "logger_setFormatter_str l val st =
     (let new_val = new_LogFormatter val in
      if lf_error new_val then st else logger_setFormatter l (Some new_val) st)"

definition addAppender :: "nat \<Rightarrow> nat \<Rightarrow> logstate \<Rightarrow> logstate" where
  "addAppender l a st =
     (let st = (if ap_formatter (ls_appenders st a) = None
                then upd_appender a (\<lambda>ap. ap\<lparr>ap_formatter := lg_formatter (ls_loggers st l)\<rparr>) st else st) in
      upd_logger l (\<lambda>lg. lg\<lparr>lg_appenders := lg_appenders lg @ [a]\<rparr>) st)"

text \<open>\<open>delAppender\<close> erases the first appender, whichever it is asked to erase.\<close>

definition delAppender :: "nat \<Rightarrow> nat \<Rightarrow> logstate \<Rightarrow> logstate" where
  "delAppender l a = upd_logger l (\<lambda>lg. lg\<lparr>lg_appenders := drop 1 (lg_appenders lg)\<rparr>)"

definition clearAppenders :: "nat \<Rightarrow> logstate \<Rightarrow> logstate" where
  "clearAppenders l = upd_logger l (\<lambda>lg. lg\<lparr>lg_appenders := []\<rparr>)"

text \<open>
  \<open>Logger::log\<close> goes to the root logger when there are no appenders. A logger that is its own root
  through others locks itself out; the loggers bound the length of such a chain.
\<close>

fun Logger_log :: "nat \<Rightarrow> logenv \<Rightarrow> level \<Rightarrow> logevent \<Rightarrow> nat \<Rightarrow> logstate \<Rightarrow> logstate res" where
  "Logger_log 0 e lvl ev l st = Inl Diverges"
| "Logger_log (Suc fuel) e lvl ev l st =
     (if lvl \<ge> lg_level (ls_loggers st l)
      then
        if lg_appenders (ls_loggers st l) \<noteq> []
        then foldR (appender_log e lvl ev) (lg_appenders (ls_loggers st l)) st
        else case lg_root (ls_loggers st l) of
            Some r \<Rightarrow> Logger_log fuel e lvl ev r st
          | None \<Rightarrow> Inr st
      else Inr st)"

text \<open>The macro \<open>SYLAR_LOG_LEVEL\<close> with the destructor of \<open>LogEventWrap\<close>; \<open>text\<close> is what is streamed.\<close>

definition sylar_log :: "logenv \<Rightarrow> nat \<Rightarrow> level \<Rightarrow> logevent \<Rightarrow> logstate \<Rightarrow> logstate res" where
  "sylar_log e l lvl ev st =
     (if lg_level (ls_loggers st l) \<le> lvl
      then Logger_log (ls_next_logger st + 1) e lvl (ev\<lparr>ev_logger := l, ev_level := lvl\<rparr>) l st
      else Inr st)"

subsection \<open>The manager\<close>

definition new_LoggerManager :: "level \<Rightarrow> logstate" where
  "new_LoggerManager level0 =
     addAppender 0 0 \<lparr>ls_appenders = (\<lambda>_. new_StdoutLogAppender level0), ls_next_appender = 1,
       ls_loggers = (\<lambda>_. new_Logger ''root''), ls_next_logger = 1, lm_loggers = [''root'' \<mapsto> 0], lm_root = 0, ls_out = []\<rparr>"

definition getLogger :: "string \<Rightarrow> logstate \<Rightarrow> nat \<times> logstate" where
  "getLogger name st =
     (case lm_loggers st name of
        Some l \<Rightarrow> (l, st)
      | None \<Rightarrow> (ls_next_logger st,
          st\<lparr>ls_loggers := (ls_loggers st)(ls_next_logger st := (new_Logger name)\<lparr>lg_root := Some (lm_root st)\<rparr>),
             ls_next_logger := ls_next_logger st + 1, lm_loggers := (lm_loggers st)(name \<mapsto> ls_next_logger st)\<rparr>))"

subsection \<open>Every logger can log\<close>

text \<open>
  The names of the table are those of the loggers, a root logger has no root and the others have the
  manager's root; every logger and every appender in use has a formatter.
\<close>

definition appender_ok :: "logstate \<Rightarrow> nat \<Rightarrow> bool" where
  "appender_ok st a \<longleftrightarrow> a < ls_next_appender st \<and> ap_formatter (ls_appenders st a) \<noteq> None"

definition logger_ok :: "logstate \<Rightarrow> nat \<Rightarrow> logger \<Rightarrow> bool" where
  "logger_ok st l lg \<longleftrightarrow> lg_formatter lg \<noteq> None \<and> list_all (appender_ok st) (lg_appenders lg) \<and>
     (lg_root lg = None \<or> lg_root lg = Some (lm_root st)) \<and> (l = lm_root st \<longrightarrow> lg_root lg = None)"

definition log_wf :: "logstate \<Rightarrow> bool" where
  "log_wf st \<longleftrightarrow> lm_root st < ls_next_logger st \<and>
     (\<forall>name l. lm_loggers st name = Some l \<longrightarrow> l < ls_next_logger st \<and> lg_name (ls_loggers st l) = name) \<and>
     (\<forall>l < ls_next_logger st. logger_ok st l (ls_loggers st l))"

lemma log_wf_inj: "log_wf st \<Longrightarrow> lm_loggers st x = Some l \<Longrightarrow> lm_loggers st y = Some l \<Longrightarrow> x = y"
  unfolding log_wf_def by metis

lemma appender_ok_cong:
  "ls_next_appender st' = ls_next_appender st \<Longrightarrow> ls_appenders st' = ls_appenders st \<Longrightarrow> appender_ok st' = appender_ok st"
  by (intro ext) (simp add: appender_ok_def)

lemma logger_ok_cong: "appender_ok st' = appender_ok st \<Longrightarrow> lm_root st' = lm_root st \<Longrightarrow> logger_ok st' = logger_ok st"
  by (intro ext) (simp add: logger_ok_def)

lemma wf_upd_appender:
  assumes "log_wf st" "ap_formatter (ls_appenders st a) \<noteq> None \<Longrightarrow> ap_formatter (f (ls_appenders st a)) \<noteq> None"
  shows "log_wf (upd_appender a f st)"
  using assms unfolding log_wf_def logger_ok_def appender_ok_def upd_appender_def by (auto simp: list_all_iff)

lemma wf_upd_logger:
  assumes "log_wf st" "lg_name (f (ls_loggers st l)) = lg_name (ls_loggers st l)"
    "logger_ok st l (ls_loggers st l) \<Longrightarrow> logger_ok st l (f (ls_loggers st l))"
  shows "log_wf (upd_logger l f st)"
proof -
  have "logger_ok (upd_logger l f st) = logger_ok st"
    by (intro logger_ok_cong appender_ok_cong) (simp_all add: upd_logger_def)
  then show ?thesis using assms unfolding log_wf_def by (auto simp: upd_logger_def)
qed

lemma wf_emit_text: "log_wf st \<Longrightarrow> log_wf (emit_text s t st)"
proof -
  have "logger_ok (emit_text s t st) = logger_ok st"
    by (intro logger_ok_cong appender_ok_cong) (simp_all add: emit_text_def)
  then show "log_wf st \<Longrightarrow> log_wf (emit_text s t st)" by (simp add: log_wf_def) (simp add: emit_text_def)
qed

lemma wf_setLevel: "log_wf st \<Longrightarrow> log_wf (logger_setLevel l v st)"
  unfolding logger_setLevel_def by (rule wf_upd_logger) (auto simp: logger_ok_def)

lemma wf_clearAppenders: "log_wf st \<Longrightarrow> log_wf (clearAppenders l st)"
  unfolding clearAppenders_def by (rule wf_upd_logger) (auto simp: logger_ok_def)

lemma wf_delAppender: "log_wf st \<Longrightarrow> log_wf (delAppender l a st)"
  unfolding delAppender_def by (rule wf_upd_logger) (auto simp: logger_ok_def list_all_iff dest: in_set_dropD)

lemma wf_setFormatter:
  assumes "log_wf st"
  shows "log_wf (logger_setFormatter l (Some f) st)"
proof -
  have "log_wf st \<Longrightarrow> log_wf (fold (\<lambda>a st. if ap_hasFormatter (ls_appenders st a) then st
      else upd_appender a (\<lambda>ap. ap\<lparr>ap_formatter := Some f\<rparr>) st) as st)" for as st
    by (induction as arbitrary: st) (simp_all add: wf_upd_appender)
  moreover have "log_wf (upd_logger l (\<lambda>lg. lg\<lparr>lg_formatter := Some f\<rparr>) st)"
    by (rule wf_upd_logger [OF assms]) (auto simp: logger_ok_def)
  ultimately show ?thesis by (simp add: logger_setFormatter_def)
qed

lemma wf_setFormatter_str: "log_wf st \<Longrightarrow> log_wf (logger_setFormatter_str l val st)"
  by (simp add: logger_setFormatter_str_def wf_setFormatter Let_def)

lemma wf_addAppender:
  assumes "log_wf st" "l < ls_next_logger st" "a < ls_next_appender st"
  shows "log_wf (addAppender l a st)"
proof -
  let ?st = "if ap_formatter (ls_appenders st a) = None
    then upd_appender a (\<lambda>ap. ap\<lparr>ap_formatter := lg_formatter (ls_loggers st l)\<rparr>) st else st"
  have lf: "lg_formatter (ls_loggers st l) \<noteq> None" using assms by (auto simp: log_wf_def logger_ok_def)
  have "log_wf ?st" using assms(1) lf by (auto intro: wf_upd_appender)
  moreover have "appender_ok ?st a" using assms(3) lf by (auto simp: appender_ok_def upd_appender_def)
  ultimately show ?thesis unfolding addAppender_def Let_def
    by (intro wf_upd_logger) (auto simp: logger_ok_def)
qed

lemma wf_alloc:
  assumes "log_wf st"
  shows "log_wf (snd (alloc_appender ap st))"
proof -
  have "appender_ok st a \<Longrightarrow> appender_ok (snd (alloc_appender ap st)) a" for a
    by (auto simp: appender_ok_def alloc_appender_def)
  then show ?thesis using assms unfolding log_wf_def logger_ok_def
    by (auto simp: alloc_appender_def list_all_iff)
qed

lemma wf_getLogger:
  assumes "log_wf st" "getLogger name st = (l, st')"
  shows "log_wf st' \<and> l < ls_next_logger st' \<and> lm_loggers st' name = Some l"
proof (cases "lm_loggers st name")
  case None
  let ?lg = "(new_Logger name)\<lparr>lg_root := Some (lm_root st)\<rparr>"
  have st': "l = ls_next_logger st" "st' = st\<lparr>ls_loggers := (ls_loggers st)(l := ?lg), ls_next_logger := l + 1,
      lm_loggers := (lm_loggers st)(name \<mapsto> l)\<rparr>"
    using assms(2) None by (auto simp: getLogger_def)
  have ok: "logger_ok st' = logger_ok st"
    unfolding st'(2) by (intro logger_ok_cong appender_ok_cong) simp_all
  have root: "lm_root st < l" using assms(1) st'(1) by (simp add: log_wf_def)
  then have new: "logger_ok st l ?lg" by (simp add: logger_ok_def new_Logger_def)
  have wf: "\<forall>x. \<forall>m. lm_loggers st x = Some m \<longrightarrow> m < l \<and> lg_name (ls_loggers st m) = x"
    "\<forall>m < l. logger_ok st m (ls_loggers st m)"
    using assms(1) st'(1) by (auto simp: log_wf_def)
  show ?thesis unfolding log_wf_def ok unfolding st'(2)
    using root new wf by (auto simp: less_Suc_eq new_Logger_def)
next
  case (Some m)
  then show ?thesis using assms by (auto simp: getLogger_def log_wf_def)
qed

lemma wf_new_LoggerManager: "log_wf (new_LoggerManager level0)"
proof -
  let ?st = "\<lparr>ls_appenders = (\<lambda>_. new_StdoutLogAppender level0), ls_next_appender = 1,
       ls_loggers = (\<lambda>_. new_Logger ''root''), ls_next_logger = 1, lm_loggers = [''root'' \<mapsto> 0], lm_root = 0, ls_out = []\<rparr>"
  have "log_wf ?st" by (auto simp: log_wf_def logger_ok_def new_Logger_def split: if_splits)
  from wf_addAppender [OF this] show ?thesis by (simp add: new_LoggerManager_def)
qed

subsection \<open>What is written\<close>

text \<open>Whether the sink of an appender takes a text now: a file is reopened once per second.\<close>

definition sink_writes :: "logenv \<Rightarrow> appender \<Rightarrow> bool" where
  "sink_writes e ap = (case ap_sink ap of Console \<Rightarrow> True
     | LogFile fname \<Rightarrow> if le_time e \<noteq> ap_lastTime ap then le_can_open e fname else ap_open ap)"

definition appender_out :: "logenv \<Rightarrow> level \<Rightarrow> logevent \<Rightarrow> logstate \<Rightarrow> nat \<Rightarrow> (sink \<times> string) list" where
  "appender_out e lvl ev st a =
     (if lvl \<ge> ap_level (ls_appenders st a) \<and> sink_writes e (ls_appenders st a)
      then [(ap_sink (ls_appenders st a), projr (appender_text e lvl ev a st))] else [])"

text \<open>Logging changes the output and the streams of files, nothing else.\<close>

definition same_appender :: "logenv \<Rightarrow> appender \<Rightarrow> appender \<Rightarrow> bool" where
  "same_appender e x y \<longleftrightarrow> ap_sink y = ap_sink x \<and> ap_level y = ap_level x \<and> ap_formatter y = ap_formatter x \<and>
     ap_hasFormatter y = ap_hasFormatter x \<and> sink_writes e y = sink_writes e x"

definition same_log :: "logenv \<Rightarrow> logstate \<Rightarrow> logstate \<Rightarrow> bool" where
  "same_log e st st' \<longleftrightarrow> ls_loggers st' = ls_loggers st \<and> ls_next_logger st' = ls_next_logger st \<and>
     ls_next_appender st' = ls_next_appender st \<and> lm_loggers st' = lm_loggers st \<and> lm_root st' = lm_root st \<and>
     (\<forall>a. same_appender e (ls_appenders st a) (ls_appenders st' a))"

lemma same_log_refl [simp]: "same_log e st st"
  by (simp add: same_log_def same_appender_def)

lemma same_log_trans: "same_log e a b \<Longrightarrow> same_log e b c \<Longrightarrow> same_log e a c"
  by (simp add: same_log_def same_appender_def)

lemma same_log_emit [simp]: "same_log e st (emit_text s t st')\<longleftrightarrow> same_log e st st'"
  by (simp add: same_log_def emit_text_def)

lemma same_log_text: "same_log e st st' \<Longrightarrow> appender_text e lvl ev a st' = appender_text e lvl ev a st"
  by (simp add: appender_text_def same_log_def same_appender_def split: option.split)

lemma same_log_out: "same_log e st st' \<Longrightarrow> appender_out e lvl ev st' = appender_out e lvl ev st"
  by (intro ext) (simp add: appender_out_def same_log_text, simp add: same_log_def same_appender_def)

lemma same_log_ok: "same_log e st st' \<Longrightarrow> appender_ok st' = appender_ok st"
  by (intro ext) (simp add: appender_ok_def same_log_def same_appender_def)

lemma same_log_wf:
  assumes "same_log e st st'" "log_wf st"
  shows "log_wf st'"
proof -
  have "logger_ok st' = logger_ok st"
    by (rule logger_ok_cong [OF same_log_ok [OF assms(1)]]) (use assms(1) in \<open>simp add: same_log_def\<close>)
  then show ?thesis using assms by (simp add: log_wf_def same_log_def)
qed

lemma same_log_reopen:
  "le_time e \<noteq> ap_lastTime (ls_appenders st a) \<Longrightarrow>
   same_log e st (upd_appender a (\<lambda>ap. (reopen e ap)\<lparr>ap_lastTime := le_time e\<rparr>) st)"
  by (auto simp: same_log_def same_appender_def upd_appender_def reopen_def sink_writes_def split: sink.splits)

abbreviation strftime_fits :: "logenv \<Rightarrow> bool" where
  "strftime_fits e \<equiv> \<forall>fmt t. le_strftime e fmt t \<noteq> None"

lemma format_items_ok: "strftime_fits e \<Longrightarrow> \<exists>t. format_items (le_strftime e) nm lvl ev is = Inr t"
proof (induction "is")
  case (Cons i "is")
  then have "\<exists>s. item_format (le_strftime e) nm lvl ev i = Inr s" by (cases i) (auto split: option.splits)
  then show ?case using Cons by auto
qed simp

lemma appender_text_ok: "strftime_fits e \<Longrightarrow> appender_ok st a \<Longrightarrow> \<exists>t. appender_text e lvl ev a st = Inr t"
  using format_items_ok by (auto simp: appender_text_def appender_ok_def LogFormatter_format_def)

lemma stdout_log:
  assumes "strftime_fits e" "appender_ok st a" "ap_sink (ls_appenders st a) = Console"
  shows "\<exists>st'. StdoutLogAppender_log e lvl ev a st = Inr st' \<and> same_log e st st' \<and>
    ls_out st' = ls_out st @ appender_out e lvl ev st a"
proof -
  obtain t where "appender_text e lvl ev a st = Inr t" using appender_text_ok [OF assms(1,2)] by blast
  then show ?thesis using assms(3)
    by (auto simp: StdoutLogAppender_log_def appender_out_def sink_writes_def) (simp add: emit_text_def)
qed

lemma file_log:
  assumes "strftime_fits e" "appender_ok st a" "ap_sink (ls_appenders st a) = LogFile fname"
  shows "\<exists>st'. FileLogAppender_log e lvl ev a st = Inr st' \<and> same_log e st st' \<and>
    ls_out st' = ls_out st @ appender_out e lvl ev st a"
proof (cases "lvl \<ge> ap_level (ls_appenders st a)")
  case True
  define st1 where "st1 = (if le_time e \<noteq> ap_lastTime (ls_appenders st a)
    then upd_appender a (\<lambda>ap. (reopen e ap)\<lparr>ap_lastTime := le_time e\<rparr>) st else st)"
  have s: "same_log e st st1" using same_log_reopen by (simp add: st1_def)
  have w: "ap_open (ls_appenders st1 a) = sink_writes e (ls_appenders st a)" "ls_out st1 = ls_out st"
    "ap_sink (ls_appenders st1 a) = LogFile fname"
    using assms(3) by (auto simp: st1_def upd_appender_def reopen_def sink_writes_def)
  obtain t where t: "appender_text e lvl ev a st = Inr t" using appender_text_ok [OF assms(1,2)] by blast
  then have "FileLogAppender_log e lvl ev a st =
      Inr (if sink_writes e (ls_appenders st a) then emit_text (LogFile fname) t st1 else st1)"
    using True w same_log_text [OF s] by (simp add: FileLogAppender_log_def st1_def [symmetric])
  then show ?thesis using s t w True assms(3) by (auto simp: appender_out_def) (auto simp: emit_text_def)
qed (simp add: FileLogAppender_log_def appender_out_def)

text \<open>
  The contract of an appender: on the appenders of its kind, which logging keeps, \<open>log\<close> writes its
  text to its sink and changes nothing else. A client then logs to any number of them.
\<close>

locale log_appender =
  fixes log :: "logenv \<Rightarrow> level \<Rightarrow> logevent \<Rightarrow> nat \<Rightarrow> logstate \<Rightarrow> logstate res"
    and mine :: "appender \<Rightarrow> bool"
  assumes logs: "strftime_fits e \<Longrightarrow> appender_ok st a \<Longrightarrow> mine (ls_appenders st a) \<Longrightarrow>
      \<exists>st'. log e lvl ev a st = Inr st' \<and> same_log e st st' \<and> ls_out st' = ls_out st @ appender_out e lvl ev st a"
    and kept: "same_appender e x y \<Longrightarrow> mine x \<Longrightarrow> mine y"
begin

lemma log_all:
  assumes "strftime_fits e" "list_all (\<lambda>a. appender_ok st a \<and> mine (ls_appenders st a)) as"
  shows "\<exists>st'. foldR (log e lvl ev) as st = Inr st' \<and> same_log e st st' \<and>
    ls_out st' = ls_out st @ concat (map (appender_out e lvl ev st) as)"
  using assms(2)
proof (induction as arbitrary: st)
  case (Cons a as)
  obtain st1 where one: "log e lvl ev a st = Inr st1" "same_log e st st1" "ls_out st1 = ls_out st @ appender_out e lvl ev st a"
    using logs [OF assms(1), of st a] Cons.prems by auto
  have mine1: "mine (ls_appenders st1 x)" if "mine (ls_appenders st x)" for x
    using kept [of e "ls_appenders st x"] that one(2) by (simp add: same_log_def)
  have "list_all (\<lambda>a. appender_ok st1 a \<and> mine (ls_appenders st1 a)) as"
    using Cons.prems same_log_ok [OF one(2)] mine1 by (auto simp: list_all_iff)
  from Cons.IH [OF this] obtain st2 where "foldR (log e lvl ev) as st1 = Inr st2" "same_log e st1 st2"
    "ls_out st2 = ls_out st1 @ concat (map (appender_out e lvl ev st1) as)" by blast
  then show ?case using one same_log_trans same_log_out [OF one(2)] by auto
qed simp

end

interpretation console: log_appender StdoutLogAppender_log "\<lambda>ap. ap_sink ap = Console"
  by unfold_locales (auto simp: same_appender_def stdout_log)

interpretation file_appender: log_appender FileLogAppender_log "\<lambda>ap. ap_sink ap \<noteq> Console"
proof
  fix e st a lvl ev
  assume "strftime_fits e" "appender_ok st a" "ap_sink (ls_appenders st a) \<noteq> Console"
  then show "\<exists>st'. FileLogAppender_log e lvl ev a st = Inr st' \<and> same_log e st st' \<and> ls_out st' = ls_out st @ appender_out e lvl ev st a"
    using file_log by (cases "ap_sink (ls_appenders st a)") auto
qed (simp add: same_appender_def)

interpretation any_appender: log_appender appender_log "\<lambda>_. True"
proof
  fix e st a lvl ev
  assume "strftime_fits e" "appender_ok st a"
  then show "\<exists>st'. appender_log e lvl ev a st = Inr st' \<and> same_log e st st' \<and> ls_out st' = ls_out st @ appender_out e lvl ev st a"
    using console.logs file_appender.logs by (cases "ap_sink (ls_appenders st a)") (auto simp: appender_log_def)
qed simp

text \<open>The appenders that get an event: those of the logger, or without any those of its root.\<close>

definition log_targets :: "level \<Rightarrow> nat \<Rightarrow> logstate \<Rightarrow> nat list" where
  "log_targets lvl l st =
     (if lvl < lg_level (ls_loggers st l) then []
      else if lg_appenders (ls_loggers st l) \<noteq> [] then lg_appenders (ls_loggers st l)
      else case lg_root (ls_loggers st l) of
          Some r \<Rightarrow> if lvl < lg_level (ls_loggers st r) then [] else lg_appenders (ls_loggers st r)
        | None \<Rightarrow> [])"

lemma logger_logs:
  assumes "strftime_fits e" "log_wf st" "l < ls_next_logger st"
  shows "\<exists>st'. Logger_log (Suc (Suc fuel)) e lvl ev l st = Inr st' \<and> same_log e st st' \<and>
    ls_out st' = ls_out st @ concat (map (appender_out e lvl ev st) (log_targets lvl l st))"
proof -
  have ok: "logger_ok st m (ls_loggers st m)" if "m < ls_next_logger st" for m using assms(2) that by (simp add: log_wf_def)
  have apps: "list_all (appender_ok st) (lg_appenders (ls_loggers st m))" if "m < ls_next_logger st" for m
    using ok [OF that] by (simp add: logger_ok_def)
  have root: "lm_root st < ls_next_logger st" "lg_root (ls_loggers st (lm_root st)) = None"
    using assms(2) ok by (auto simp: log_wf_def logger_ok_def)
  show ?thesis
  proof (cases "lg_appenders (ls_loggers st l) = [] \<and> lg_root (ls_loggers st l) \<noteq> None")
    case True
    then have r: "lg_root (ls_loggers st l) = Some (lm_root st)" using ok [OF assms(3)] by (auto simp: logger_ok_def)
    then show ?thesis using any_appender.log_all [OF assms(1), of st "lg_appenders (ls_loggers st (lm_root st))" lvl ev] apps [OF root(1)] True root(2)
      by (auto simp: log_targets_def)
  next
    case False
    then show ?thesis using any_appender.log_all [OF assms(1), of st "lg_appenders (ls_loggers st l)" lvl ev] apps [OF assms(3)]
      by (auto simp: log_targets_def)
  qed
qed

lemma sylar_logs:
  assumes "strftime_fits e" "log_wf st" "l < ls_next_logger st"
  shows "\<exists>st'. sylar_log e l lvl ev st = Inr st' \<and> same_log e st st' \<and>
    ls_out st' = ls_out st @ concat (map (appender_out e lvl (ev\<lparr>ev_logger := l, ev_level := lvl\<rparr>) st) (log_targets lvl l st))"
proof -
  obtain k where "ls_next_logger st = Suc k" using assms(3) by (cases "ls_next_logger st") auto
  then show ?thesis using logger_logs [OF assms, of k lvl "ev\<lparr>ev_logger := l, ev_level := lvl\<rparr>"]
    by (auto simp: sylar_log_def log_targets_def)
qed

subsection \<open>Correctness of the loggers\<close>


definition sample_env :: logenv where
  "sample_env = \<lparr>le_strftime = (\<lambda>_ _. Some ''now''), le_time = 0, le_can_open = (\<lambda>_. True)\<rparr>"

definition sample_event :: logevent where
  "sample_event = (new_LogEvent 0 INFO ''main.cc'' 7 0 1 2 0 ''t'')\<lparr>ev_ss := ''hello''\<rparr>"


subsection \<open>Getting and removing\<close>

text \<open>Asking for a logger again gives the same one, and does not change anything.\<close>

lemma getLogger_again: "getLogger name st = (l, st') \<Longrightarrow> getLogger name st' = (l, st')"
  by (auto simp: getLogger_def split: option.splits)

text \<open>Removing an appender removes the first one instead.\<close>

lemma delAppender_first:
  "lg_appenders (ls_loggers st l) = a # b # as \<Longrightarrow> lg_appenders (ls_loggers (delAppender l b st) l) = b # as"
  by (simp add: delAppender_def upd_logger_def)

end
