(* ===== verification/LogConfig.thy ===== *)
theory LogConfig
  imports Log
begin

text \<open>
  \<open>sherry/log.cc\<close>, third part: the definitions of loggers in the configuration, their conversion from
  and to YAML, and the listener of the variable \<open>logs\<close> that applies a changed set of definitions. The
  YAML library is a record of functions; lines that report a bad definition on the console are left
  out.
\<close>

subsection \<open>Definitions of loggers\<close>

record appenderdef =
  lad_type :: nat
  lad_level :: level
  lad_formatter :: string
  lad_file :: string

record logdef =
  ld_name :: string
  ld_level :: level
  ld_formatter :: string
  ld_appenders :: "appenderdef list"

text \<open>The set of definitions is ordered by name; inserting keeps an element with the same name.\<close>

fun str_less :: "string \<Rightarrow> string \<Rightarrow> bool" where
  "str_less xs [] = False"
| "str_less [] (y # ys) = True"
| "str_less (x # xs) (y # ys) =
     ((of_char x :: nat) < of_char y \<or> (x = y \<and> str_less xs ys))"

fun ld_insert :: "logdef \<Rightarrow> logdef list \<Rightarrow> logdef list" where
  "ld_insert d [] = [d]"
| "ld_insert d (x # xs) =
     (if str_less (ld_name d) (ld_name x) then d # x # xs
      else if ld_name d = ld_name x then x # xs
      else x # ld_insert d xs)"

definition ld_find :: "logdef \<Rightarrow> logdef list \<Rightarrow> logdef option" where
  "ld_find d ds = find (\<lambda>x. ld_name x = ld_name d) ds"

text \<open>The functions of the YAML library: \<open>Load\<close>, printing, \<open>node[i]\<close>, \<open>node[key]\<close>, \<open>as<std::string>()\<close>.\<close>

record yamllib =
  yl_load :: "string \<Rightarrow> yaml res"
  yl_emit :: "yaml \<Rightarrow> string"
  yl_at :: "yaml \<Rightarrow> nat \<Rightarrow> yaml res"
  yl_key :: "yaml \<Rightarrow> string \<Rightarrow> yaml res"
  yl_string :: "yaml \<Rightarrow> string res"

text \<open>A string member that is taken over when it is defined.\<close>

definition y_string_or :: "yamllib \<Rightarrow> string \<Rightarrow> yaml \<Rightarrow> string \<Rightarrow> string res" where
  "y_string_or Y d n key = bindR (yl_key Y n key) (\<lambda>m. if m = YUndef then Inr d else yl_string Y m)"

definition appender_from_yaml :: "yamllib \<Rightarrow> yaml \<Rightarrow> appenderdef option res" where
  "appender_from_yaml Y a =
     bindR (yl_key Y a ''type'') (\<lambda>t.
     if t = YUndef then Inr None
     else bindR (yl_string Y t) (\<lambda>type.
       if type = ''FileLogAppender'' then
         bindR (yl_key Y a ''file'') (\<lambda>f.
         if f = YUndef then Inr None
         else bindR (yl_string Y f) (\<lambda>fname. bindR (y_string_or Y [] a ''formatter'') (\<lambda>formatter.
           Inr (Some \<lparr>lad_type = 1, lad_level = UNKNOW, lad_formatter = formatter, lad_file = fname\<rparr>))))
       else if type = ''StdoutLogAppender'' then
         Inr (Some \<lparr>lad_type = 2, lad_level = UNKNOW, lad_formatter = [], lad_file = []\<rparr>)
       else Inr None))"

definition keep_somes :: "'a option list \<Rightarrow> 'a list" where
  "keep_somes xs = map the (filter (\<lambda>x. x \<noteq> None) xs)"

definition define_from_yaml :: "yamllib \<Rightarrow> yaml \<Rightarrow> logdef option res" where
  "define_from_yaml Y n =
     bindR (yl_key Y n ''name'') (\<lambda>nm.
     if nm = YUndef then Inr None
     else bindR (yl_string Y nm) (\<lambda>name. bindR (y_string_or Y [] n ''level'') (\<lambda>lvl. bindR (y_string_or Y [] n ''formatter'') (\<lambda>formatter.
       bindR (yl_key Y n ''appenders'') (\<lambda>as.
       if as = YUndef then Inr None
       else bindR (mapR (\<lambda>x. bindR (yl_at Y as x) (appender_from_yaml Y)) [0..<y_size as]) (\<lambda>apps.
         Inr (Some \<lparr>ld_name = name, ld_level = LogLevel_FromString lvl, ld_formatter = formatter,
           ld_appenders = keep_somes apps\<rparr>)))))))"

definition cast_to_logs :: "yamllib \<Rightarrow> string \<Rightarrow> logdef list res" where
  "cast_to_logs Y v =
     bindR (yl_load Y v) (\<lambda>node.
     bindR (mapR (\<lambda>i. bindR (yl_at Y node i) (define_from_yaml Y)) [0..<y_size node]) (\<lambda>ds.
       Inr (fold ld_insert (keep_somes ds) [])))"

text \<open>
  Printing: the formatter is written only when it is empty, and the level of an appender when the
  logger has one.
\<close>

definition appender_to_yaml :: "logdef \<Rightarrow> appenderdef \<Rightarrow> yaml" where
  "appender_to_yaml i a = y_map
     ((if lad_type a = 1 then [(''type'', YScalar ''FileLogAppender''), (''file'', YScalar (lad_file a))]
       else if lad_type a = 2 then [(''type'', YScalar ''StdoutLogAppender'')] else []) @
      (if ld_level i \<noteq> UNKNOW then [(''level'', YScalar (LogLevel_ToString (lad_level a)))] else []) @
      (if lad_formatter a \<noteq> [] then [(''formatter'', YScalar (lad_formatter a))] else []))"

definition define_to_yaml :: "logdef \<Rightarrow> yaml" where
  "define_to_yaml i = y_map
     ([(''name'', YScalar (ld_name i))] @
      (if ld_level i \<noteq> UNKNOW then [(''level'', YScalar (LogLevel_ToString (ld_level i)))] else []) @
      (if ld_formatter i = [] then [(''formatter'', YScalar (ld_formatter i))] else []) @
      (if ld_appenders i \<noteq> [] then [(''appenders'', YSeq (map (appender_to_yaml i) (ld_appenders i)))] else []))"

definition cast_from_logs :: "yamllib \<Rightarrow> logdef list \<Rightarrow> string" where
  "cast_from_logs Y v = yl_emit Y (y_seq (map define_to_yaml v))"

subsection \<open>Printing loggers\<close>

definition appender_toYamlString :: "yamllib \<Rightarrow> nat \<Rightarrow> logstate \<Rightarrow> string" where
  "appender_toYamlString Y a st =
     (let ap = ls_appenders st a in
      yl_emit Y (y_map
        ((case ap_sink ap of
            LogFile fname \<Rightarrow> [(''type'', YScalar ''FileLogAppender''), (''file'', YScalar fname)]
          | Console \<Rightarrow> [(''type'', YScalar ''StdoutLogAppender'')]) @
         (if ap_level ap \<noteq> UNKNOW then [(''level'', YScalar (LogLevel_ToString (ap_level ap)))] else []) @
         (case ap_formatter ap of
            Some f \<Rightarrow> if ap_hasFormatter ap then [(''formatter'', YScalar (lf_pattern f))] else []
          | None \<Rightarrow> []))))"

definition logger_toYamlString :: "yamllib \<Rightarrow> nat \<Rightarrow> logstate \<Rightarrow> string res" where
  "logger_toYamlString Y l st =
     (let lg = ls_loggers st l in
      bindR (mapR (\<lambda>a. yl_load Y (appender_toYamlString Y a st)) (lg_appenders lg)) (\<lambda>as.
      Inr (yl_emit Y (y_map
        ([(''name'', YScalar (lg_name lg))] @
         (if lg_level lg \<noteq> UNKNOW then [(''level'', YScalar (LogLevel_ToString (lg_level lg)))] else []) @
         (case lg_formatter lg of Some f \<Rightarrow> [(''formatter'', YScalar (lf_pattern f))] | None \<Rightarrow> []) @
         (if as \<noteq> [] then [(''appenders'', YSeq as)] else []))))))"

text \<open>\<open>names\<close> are the names of the table in their order.\<close>

definition manager_toYamlString :: "yamllib \<Rightarrow> string list \<Rightarrow> logstate \<Rightarrow> string res" where
  "manager_toYamlString Y names st =
     bindR (mapR (\<lambda>l. bindR (logger_toYamlString Y l st) (yl_load Y)) (keep_somes (map (lm_loggers st) names))) (\<lambda>ns.
     Inr (yl_emit Y (y_seq ns)))"

subsection \<open>The listener of the configuration\<close>

definition add_defined_appender :: "logenv \<Rightarrow> level \<Rightarrow> u64 \<Rightarrow> nat \<Rightarrow> appenderdef \<Rightarrow> logstate \<Rightarrow> logstate res" where
  "add_defined_appender e level0 time0 l a st =
     (if lad_type a \<noteq> 1 \<and> lad_type a \<noteq> 2 then Inl NullDeref
      else
        let (ap, st) = alloc_appender (if lad_type a = 1 then new_FileLogAppender e level0 time0 (lad_file a)
                                       else new_StdoutLogAppender level0) st;
            st = appender_setLevel ap (lad_level a) st;
            st = (if lad_formatter a \<noteq> []
                  then let fmt = new_LogFormatter (lad_formatter a) in
                       if \<not> lf_error fmt then appender_setFormatter ap (Some fmt) st else st
                  else st)
        in Inr (addAppender l ap st))"

definition configure_logger :: "logenv \<Rightarrow> level \<Rightarrow> u64 \<Rightarrow> nat \<Rightarrow> logdef \<Rightarrow> logstate \<Rightarrow> logstate res" where
  "configure_logger e level0 time0 l i st =
     (let st = logger_setLevel l (ld_level i) st;
          st = (if ld_formatter i \<noteq> [] then logger_setFormatter_str l (ld_formatter i) st else st)
      in foldR (add_defined_appender e level0 time0 l) (ld_appenders i) (clearAppenders l st))"

definition apply_define :: "logenv \<Rightarrow> level \<Rightarrow> u64 \<Rightarrow> logdef list \<Rightarrow> logdef \<Rightarrow> logstate \<Rightarrow> logstate res" where
  "apply_define e level0 time0 old_value i st =
     (if ld_find i old_value = Some i then Inl NullDeref
      else let (l, st) = getLogger (ld_name i) st in configure_logger e level0 time0 l i st)"

definition silence_removed :: "logdef list \<Rightarrow> logdef \<Rightarrow> logstate \<Rightarrow> logstate" where
  "silence_removed new_value i st =
     (if ld_find i new_value = None
      then let (l, st) = getLogger (ld_name i) st in clearAppenders l (logger_setLevel l 100 st)
      else st)"

text \<open>\<open>ev\<close> is the event of the line that the listener logs first.\<close>

definition on_logs_changed ::
  "logenv \<Rightarrow> level \<Rightarrow> u64 \<Rightarrow> logevent \<Rightarrow> logdef list \<Rightarrow> logdef list \<Rightarrow> logstate \<Rightarrow> logstate res" where
  "on_logs_changed e level0 time0 ev old_value new_value st =
     bindR (sylar_log e (lm_root st) INFO ev st) (\<lambda>st.
     bindR (foldR (apply_define e level0 time0 old_value) new_value st) (\<lambda>st.
       Inr (fold (silence_removed new_value) old_value st)))"

subsection \<open>Reloading the definitions\<close>

text \<open>What an operation on the loggers with names in \<open>N\<close> leaves alone.\<close>

definition log_frame :: "string set \<Rightarrow> logstate \<Rightarrow> logstate \<Rightarrow> bool" where
  "log_frame N st st' \<longleftrightarrow> ls_next_appender st \<le> ls_next_appender st' \<and> ls_next_logger st \<le> ls_next_logger st' \<and>
     lm_root st' = lm_root st \<and> lm_loggers st \<subseteq>\<^sub>m lm_loggers st' \<and>
     (\<forall>a < ls_next_appender st. ap_sink (ls_appenders st' a) = ap_sink (ls_appenders st a) \<and>
        ap_level (ls_appenders st' a) = ap_level (ls_appenders st a)) \<and>
     (\<forall>l < ls_next_logger st. lg_name (ls_loggers st' l) = lg_name (ls_loggers st l) \<and>
        (lg_name (ls_loggers st l) \<notin> N \<longrightarrow> lg_level (ls_loggers st' l) = lg_level (ls_loggers st l) \<and>
           lg_appenders (ls_loggers st' l) = lg_appenders (ls_loggers st l)))"

lemma log_frame_refl [simp]: "log_frame N st st"
  by (simp add: log_frame_def)

lemma log_frame_mono: "log_frame M a b \<Longrightarrow> M \<subseteq> N \<Longrightarrow> log_frame N a b"
  unfolding log_frame_def by blast

lemma log_frame_trans: "log_frame N a b \<Longrightarrow> log_frame N b c \<Longrightarrow> log_frame N a c"
  unfolding log_frame_def by (auto intro: map_le_trans)

text \<open>The sink and the level a definition asks for.\<close>

definition def_sink :: "appenderdef \<Rightarrow> sink" where
  "def_sink a = (if lad_type a = 1 then LogFile (lad_file a) else Console)"

definition view :: "logstate \<Rightarrow> nat \<Rightarrow> sink \<times> level" where
  "view st a = (ap_sink (ls_appenders st a), ap_level (ls_appenders st a))"

definition def_applied :: "logstate \<Rightarrow> logdef \<Rightarrow> bool" where
  "def_applied st d \<longleftrightarrow> (\<exists>l. lm_loggers st (ld_name d) = Some l \<and> lg_level (ls_loggers st l) = ld_level d \<and>
     map (view st) (lg_appenders (ls_loggers st l)) = map (\<lambda>a. (def_sink a, lad_level a)) (ld_appenders d))"

definition silenced :: "logstate \<Rightarrow> string \<Rightarrow> bool" where
  "silenced st name \<longleftrightarrow> (\<exists>l. lm_loggers st name = Some l \<and> lg_level (ls_loggers st l) = 100 \<and> lg_appenders (ls_loggers st l) = [])"

lemma frame_view:
  assumes "log_wf st" "log_frame N st st'" "lm_loggers st name = Some l" "name \<notin> N"
  shows "lm_loggers st' name = Some l" "lg_level (ls_loggers st' l) = lg_level (ls_loggers st l)"
    "lg_appenders (ls_loggers st' l) = lg_appenders (ls_loggers st l)"
    "map (view st') (lg_appenders (ls_loggers st' l)) = map (view st) (lg_appenders (ls_loggers st l))"
proof -
  have l: "l < ls_next_logger st" "lg_name (ls_loggers st l) = name" using assms(1,3) by (auto simp: log_wf_def)
  show "lm_loggers st' name = Some l"
    using assms(2,3) unfolding log_frame_def map_le_def by (metis domI)
  show eq: "lg_level (ls_loggers st' l) = lg_level (ls_loggers st l)" "lg_appenders (ls_loggers st' l) = lg_appenders (ls_loggers st l)"
    using assms(2,4) l by (auto simp: log_frame_def)
  have "a < ls_next_appender st" if "a \<in> set (lg_appenders (ls_loggers st l))" for a
    using assms(1) l(1) that by (auto simp: log_wf_def logger_ok_def list_all_iff appender_ok_def)
  then show "map (view st') (lg_appenders (ls_loggers st' l)) = map (view st) (lg_appenders (ls_loggers st l))"
    using assms(2) unfolding eq by (auto simp: view_def log_frame_def)
qed

lemma def_applied_frame:
  "log_wf st \<Longrightarrow> log_frame N st st' \<Longrightarrow> ld_name d \<notin> N \<Longrightarrow> def_applied st d \<Longrightarrow> def_applied st' d"
  using frame_view unfolding def_applied_def by metis

lemma silenced_frame: "log_wf st \<Longrightarrow> log_frame N st st' \<Longrightarrow> name \<notin> N \<Longrightarrow> silenced st name \<Longrightarrow> silenced st' name"
  using frame_view unfolding silenced_def by metis

text \<open>A defined appender is new, at the end of the list, with its sink and level.\<close>

abbreviation type_ok :: "appenderdef \<Rightarrow> bool" where
  "type_ok a \<equiv> lad_type a = 1 \<or> lad_type a = 2"

definition grown :: "nat \<Rightarrow> appenderdef list \<Rightarrow> logstate \<Rightarrow> logstate \<Rightarrow> bool" where
  "grown l as st st' \<longleftrightarrow>
     (let n = ls_next_appender st; m = n + length as in
      ls_next_appender st' = m \<and> ls_next_logger st' = ls_next_logger st \<and> lm_loggers st' = lm_loggers st \<and>
      lm_root st' = lm_root st \<and> (\<forall>b < n. ls_appenders st' b = ls_appenders st b) \<and>
      ls_loggers st' = (ls_loggers st)(l := (ls_loggers st l)\<lparr>lg_appenders := lg_appenders (ls_loggers st l) @ [n..<m]\<rparr>) \<and>
      map (view st') [n..<m] = map (\<lambda>a. (def_sink a, lad_level a)) as)"

lemma add_defined_grown:
  assumes "type_ok a"
  shows "\<exists>st'. add_defined_appender e level0 time0 l a st = Inr st' \<and> grown l [a] st st'"
proof -
  define n where "n = ls_next_appender st"
  let ?new = "if lad_type a = 1 then new_FileLogAppender e level0 time0 (lad_file a) else new_StdoutLogAppender level0"
  define fmt where "fmt = new_LogFormatter (lad_formatter a)"
  define st1 where "st1 = snd (alloc_appender ?new st)"
  define st2 where "st2 = appender_setLevel n (lad_level a) st1"
  define st3 where "st3 = (if lad_formatter a \<noteq> [] \<and> \<not> lf_error fmt then appender_setFormatter n (Some fmt) st2 else st2)"
  have r: "add_defined_appender e level0 time0 l a st = Inr (addAppender l n st3)"
    using assms by (simp add: add_defined_appender_def Let_def st3_def st2_def st1_def n_def fmt_def alloc_appender_def)
  have sink: "ap_sink ?new = def_sink a"
    by (simp add: def_sink_def new_FileLogAppender_def new_StdoutLogAppender_def reopen_def)
  have st3: "ls_next_appender st3 = Suc n" "ls_next_logger st3 = ls_next_logger st" "lm_loggers st3 = lm_loggers st"
    "lm_root st3 = lm_root st" "ls_loggers st3 = ls_loggers st" "\<forall>b < n. ls_appenders st3 b = ls_appenders st b"
    "view st3 n = (def_sink a, lad_level a)"
    using sink by (simp_all add: st3_def st2_def st1_def n_def alloc_appender_def appender_setLevel_def
        appender_setFormatter_def upd_appender_def view_def)
  have "grown l [a] st (addAppender l n st3)"
    using st3 by (simp add: grown_def n_def [symmetric] addAppender_def upd_appender_def upd_logger_def view_def)
  then show ?thesis using r by blast
qed

lemma grown_append:
  assumes "grown l xs a b" "grown l ys b c"
  shows "grown l (xs @ ys) a c"
proof -
  let ?n = "ls_next_appender a" and ?m = "ls_next_appender b"
  have m: "?m = ?n + length xs" using assms(1) by (simp add: grown_def Let_def)
  have v: "map (view c) [?n..<?m] = map (view b) [?n..<?m]"
    using assms(2) by (simp add: grown_def Let_def view_def)
  have split: "[?n..<?n + length (xs @ ys)] = [?n..<?m] @ [?m..<?m + length ys]"
    unfolding m using upt_add_eq_append [of ?n "?n + length xs" "length ys"] by (simp add: add.assoc)
  show ?thesis
    unfolding grown_def Let_def split map_append v using assms m by (auto simp: grown_def Let_def)
qed

lemma defined_appenders_grown:
  assumes "list_all type_ok as"
  shows "\<exists>st'. foldR (add_defined_appender e level0 time0 l) as st = Inr st' \<and> grown l as st st'"
  using assms
proof (induction as arbitrary: st)
  case Nil
  then show ?case by (simp add: grown_def)
next
  case (Cons a as)
  obtain st1 where "add_defined_appender e level0 time0 l a st = Inr st1" "grown l [a] st st1"
    using add_defined_grown [of a e level0 time0 l st] Cons.prems by auto
  moreover obtain st2 where "foldR (add_defined_appender e level0 time0 l) as st1 = Inr st2" "grown l as st1 st2"
    using Cons.IH Cons.prems by fastforce
  ultimately show ?case using grown_append [of l "[a]" st st1 as st2] by simp
qed

lemma wf_add_defined:
  assumes "log_wf st" "l < ls_next_logger st" "add_defined_appender e level0 time0 l a st = Inr st'"
  shows "log_wf st'"
proof -
  let ?new = "if lad_type a = 1 then new_FileLogAppender e level0 time0 (lad_file a) else new_StdoutLogAppender level0"
  define n where "n = ls_next_appender st"
  define st2 where "st2 = appender_setLevel n (lad_level a) (snd (alloc_appender ?new st))"
  have wf2: "log_wf st2" unfolding st2_def appender_setLevel_def
    using wf_alloc [OF assms(1)] by (intro wf_upd_appender) auto
  have next2: "ls_next_appender st2 = Suc n" "ls_next_logger st2 = ls_next_logger st"
    by (simp_all add: st2_def n_def appender_setLevel_def upd_appender_def alloc_appender_def)
  define st3 where "st3 = (if lad_formatter a \<noteq> [] \<and> \<not> lf_error (new_LogFormatter (lad_formatter a))
    then appender_setFormatter n (Some (new_LogFormatter (lad_formatter a))) st2 else st2)"
  have wf3: "log_wf st3"
    unfolding st3_def appender_setFormatter_def using wf2 by (auto intro: wf_upd_appender)
  have st3: "ls_next_appender st3 = Suc n" "ls_next_logger st3 = ls_next_logger st"
    unfolding st3_def appender_setFormatter_def using next2 by (auto simp: upd_appender_def)
  have "st' = addAppender l n st3"
    using assms(3) by (auto simp: add_defined_appender_def Let_def st3_def st2_def n_def alloc_appender_def split: if_splits)
  then show ?thesis using wf_addAppender [OF wf3, of l n] st3 assms(2) by simp
qed

lemma wf_defined_appenders:
  "log_wf st \<Longrightarrow> l < ls_next_logger st \<Longrightarrow> list_all type_ok as \<Longrightarrow>
   foldR (add_defined_appender e level0 time0 l) as st = Inr st' \<Longrightarrow> log_wf st'"
proof (induction as arbitrary: st)
  case (Cons a as)
  obtain st1 where st1: "add_defined_appender e level0 time0 l a st = Inr st1" "grown l [a] st st1"
    using add_defined_grown [of a e level0 time0 l st] Cons.prems(3) by auto
  then have "l < ls_next_logger st1" using Cons.prems(2) by (simp add: grown_def Let_def)
  then show ?case using Cons.IH [of st1] wf_add_defined [OF Cons.prems(1,2) st1(1)] Cons.prems(3,4) st1(1) by simp
qed simp

lemma frame_setFormatter: "log_frame {} st (logger_setFormatter l (Some f) st)"
  and setFormatter_same: "lg_level (ls_loggers (logger_setFormatter l (Some f) st) k) = lg_level (ls_loggers st k)"
proof -
  let ?g = "\<lambda>a st. if ap_hasFormatter (ls_appenders st a) then st else upd_appender a (\<lambda>ap. ap\<lparr>ap_formatter := Some f\<rparr>) st"
  let ?st = "upd_logger l (\<lambda>lg. lg\<lparr>lg_formatter := Some f\<rparr>) st"
  have fold: "log_frame {} s (fold ?g as s) \<and> ls_loggers (fold ?g as s) = ls_loggers s" for as s
  proof (induction as arbitrary: s)
    case (Cons a as)
    have "log_frame {} s (?g a s)" "ls_loggers (?g a s) = ls_loggers s" by (auto simp: log_frame_def upd_appender_def)
    then show ?case using Cons.IH [of "?g a s"] log_frame_trans [of "{}" s "?g a s"] by (simp only: fold_simps)
  qed simp
  have one: "log_frame {} st ?st" "lg_level (ls_loggers ?st k) = lg_level (ls_loggers st k)"
    by (auto simp: log_frame_def upd_logger_def)
  show "log_frame {} st (logger_setFormatter l (Some f) st)"
    unfolding logger_setFormatter_def using log_frame_trans one(1) fold by blast
  show "lg_level (ls_loggers (logger_setFormatter l (Some f) st) k) = lg_level (ls_loggers st k)"
    unfolding logger_setFormatter_def using fold one(2) by simp
qed

lemma grown_frame: "grown l as st st' \<Longrightarrow> log_frame {lg_name (ls_loggers st l)} st st'"
  by (auto simp: grown_def log_frame_def Let_def)

lemma logger_configured:
  assumes "log_wf st" "l < ls_next_logger st" "list_all type_ok (ld_appenders d)"
  shows "\<exists>st'. configure_logger e level0 time0 l d st = Inr st' \<and> log_wf st' \<and> log_frame {lg_name (ls_loggers st l)} st st' \<and>
    lg_level (ls_loggers st' l) = ld_level d \<and>
    map (view st') (lg_appenders (ls_loggers st' l)) = map (\<lambda>a. (def_sink a, lad_level a)) (ld_appenders d)"
proof -
  let ?N = "{lg_name (ls_loggers st l)}"
  define st1 where "st1 = logger_setLevel l (ld_level d) st"
  define st2 where "st2 = (if ld_formatter d \<noteq> [] then logger_setFormatter_str l (ld_formatter d) st1 else st1)"
  define st3 where "st3 = clearAppenders l st2"
  have f1: "log_frame ?N st st1" by (auto simp: log_frame_def st1_def logger_setLevel_def upd_logger_def)
  have f2: "log_frame {} st1 st2" unfolding st2_def logger_setFormatter_str_def Let_def using frame_setFormatter by simp
  have names: "lg_name (ls_loggers st2 l) = lg_name (ls_loggers st l)" "l < ls_next_logger st2"
    using log_frame_trans [OF f1 log_frame_mono [OF f2]] assms(2) by (auto simp: log_frame_def)
  have f3: "log_frame ?N st2 st3" using names by (auto simp: log_frame_def st3_def clearAppenders_def upd_logger_def)
  have wf3: "log_wf st3" unfolding st3_def st2_def st1_def
    using assms(1) by (auto intro!: wf_clearAppenders wf_setFormatter_str wf_setLevel)
  have lv: "lg_level (ls_loggers st3 l) = ld_level d"
    using setFormatter_same by (simp add: st3_def st2_def st1_def clearAppenders_def logger_setLevel_def upd_logger_def
        logger_setFormatter_str_def Let_def)
  have l3: "l < ls_next_logger st3" "lg_name (ls_loggers st3 l) = lg_name (ls_loggers st l)"
    "lg_appenders (ls_loggers st3 l) = []"
    using names by (auto simp: st3_def clearAppenders_def upd_logger_def)
  obtain st' where st': "foldR (add_defined_appender e level0 time0 l) (ld_appenders d) st3 = Inr st'" "grown l (ld_appenders d) st3 st'"
    using defined_appenders_grown [OF assms(3)] by blast
  have "configure_logger e level0 time0 l d st = Inr st'"
    using st'(1) unfolding configure_logger_def Let_def st3_def st2_def st1_def .
  moreover have "log_wf st'" using wf_defined_appenders [OF wf3 l3(1) assms(3) st'(1)] .
  moreover have "log_frame ?N st st'"
    using log_frame_trans [OF log_frame_trans [OF f1 log_frame_mono [OF f2]] log_frame_trans [OF f3]] grown_frame [OF st'(2)] l3(2) by auto
  moreover have "lg_level (ls_loggers st' l) = ld_level d"
    "map (view st') (lg_appenders (ls_loggers st' l)) = map (\<lambda>a. (def_sink a, lad_level a)) (ld_appenders d)"
    using st'(2) lv l3(3) by (auto simp: grown_def Let_def)
  ultimately show ?thesis by blast
qed

lemma getLogger_frame:
  assumes "log_wf st" "getLogger name st = (l, st')"
  shows "log_frame {} st st'"
  using assms by (auto simp: getLogger_def log_frame_def map_le_def split: option.splits)

lemma define_applied:
  assumes "log_wf st" "ld_find d old \<noteq> Some d" "list_all type_ok (ld_appenders d)"
  shows "\<exists>st'. apply_define e level0 time0 old d st = Inr st' \<and> log_wf st' \<and> log_frame {ld_name d} st st' \<and> def_applied st' d"
proof -
  obtain l st1 where g: "getLogger (ld_name d) st = (l, st1)" by fastforce
  have st1: "log_wf st1" "l < ls_next_logger st1" "lm_loggers st1 (ld_name d) = Some l" using wf_getLogger [OF assms(1) g] by auto
  then have nm: "lg_name (ls_loggers st1 l) = ld_name d" by (simp add: log_wf_def)
  obtain st' where st': "configure_logger e level0 time0 l d st1 = Inr st'" "log_wf st'" "log_frame {ld_name d} st1 st'"
    "lg_level (ls_loggers st' l) = ld_level d"
    "map (view st') (lg_appenders (ls_loggers st' l)) = map (\<lambda>a. (def_sink a, lad_level a)) (ld_appenders d)"
    using logger_configured [OF st1(1,2) assms(3)] nm by metis
  have "lm_loggers st' (ld_name d) = Some l" using st'(3) st1(3) unfolding log_frame_def map_le_def by (metis domI)
  moreover have "log_frame {ld_name d} st st'"
    using log_frame_trans [OF log_frame_mono [OF getLogger_frame [OF assms(1) g]] st'(3)] by simp
  ultimately show ?thesis using st' g assms(2) by (auto simp: apply_define_def def_applied_def)
qed

lemma removed_silenced:
  assumes "log_wf st" "ld_find d new = None"
  shows "log_wf (silence_removed new d st) \<and> log_frame {ld_name d} st (silence_removed new d st) \<and>
    silenced (silence_removed new d st) (ld_name d)"
proof -
  obtain l st1 where g: "getLogger (ld_name d) st = (l, st1)" by fastforce
  have st1: "log_wf st1" "l < ls_next_logger st1" "lm_loggers st1 (ld_name d) = Some l" using wf_getLogger [OF assms(1) g] by auto
  then have nm: "lg_name (ls_loggers st1 l) = ld_name d" by (simp add: log_wf_def)
  let ?st = "clearAppenders l (logger_setLevel l 100 st1)"
  have "log_frame {ld_name d} st1 ?st"
    using nm by (auto simp: log_frame_def clearAppenders_def logger_setLevel_def upd_logger_def)
  then have "log_frame {ld_name d} st ?st"
    using log_frame_trans log_frame_mono [OF getLogger_frame [OF assms(1) g]] by blast
  moreover have "silenced ?st (ld_name d)"
    using st1(3) by (simp add: silenced_def clearAppenders_def logger_setLevel_def upd_logger_def)
  ultimately show ?thesis using assms(2) g wf_clearAppenders [OF wf_setLevel [OF st1(1)]] by (simp add: silence_removed_def)
qed

lemma defines_applied:
  assumes "log_wf st" "distinct (map ld_name ds)" "\<forall>d \<in> set ds. ld_find d old \<noteq> Some d \<and> list_all type_ok (ld_appenders d)"
  shows "\<exists>st'. foldR (apply_define e level0 time0 old) ds st = Inr st' \<and> log_wf st' \<and>
    log_frame (ld_name ` set ds) st st' \<and> (\<forall>d \<in> set ds. def_applied st' d)"
  using assms
proof (induction ds arbitrary: st)
  case (Cons d ds)
  obtain st1 where st1: "apply_define e level0 time0 old d st = Inr st1" "log_wf st1" "log_frame {ld_name d} st st1" "def_applied st1 d"
    using define_applied [OF Cons.prems(1), of d old] Cons.prems(3) by (metis list.set_intros(1))
  obtain st2 where st2: "foldR (apply_define e level0 time0 old) ds st1 = Inr st2" "log_wf st2"
    "log_frame (ld_name ` set ds) st1 st2" "\<forall>d \<in> set ds. def_applied st2 d"
    using Cons.IH [OF st1(2)] Cons.prems by auto
  have "ld_name d \<notin> ld_name ` set ds" using Cons.prems(2) by simp
  then have "def_applied st2 d" using def_applied_frame [OF st1(2) st2(3)] st1(4) by blast
  moreover have "log_frame (ld_name ` set (d # ds)) st st2"
    using log_frame_trans [OF log_frame_mono [OF st1(3)] log_frame_mono [OF st2(3)]] by auto
  ultimately show ?case using st1(1) st2 by auto
qed simp

lemma ld_find_None: "ld_find d ds = None \<longleftrightarrow> ld_name d \<notin> ld_name ` set ds"
  unfolding ld_find_def find_None_iff by (metis (no_types, lifting) image_iff)

lemma all_silenced:
  assumes "log_wf st"
  shows "log_wf (fold (silence_removed new) ds st) \<and>
    log_frame (ld_name ` set ds - ld_name ` set new) st (fold (silence_removed new) ds st) \<and>
    (\<forall>d \<in> set ds. ld_name d \<notin> ld_name ` set new \<longrightarrow> silenced (fold (silence_removed new) ds st) (ld_name d))"
  using assms
proof (induction ds rule: rev_induct)
  case (snoc d ds)
  let ?st = "fold (silence_removed new) ds st"
  note ih = snoc.IH [OF snoc.prems]
  show ?case
  proof (cases "ld_find d new = None")
    case False
    then have "silence_removed new d ?st = ?st" by (auto simp: silence_removed_def)
    then show ?thesis using ih False by (auto simp: ld_find_None)
  next
    case True
    then have nm: "ld_name d \<notin> ld_name ` set new" by (simp add: ld_find_None)
    note s = removed_silenced [of ?st d new, OF conjunct1 [OF ih] True]
    have "silenced (silence_removed new d ?st) (ld_name x)" if "x \<in> set ds" "ld_name x \<notin> ld_name ` set new" for x
      using silenced_frame [of ?st "{ld_name d}" "silence_removed new d ?st" "ld_name x"] ih s that
      by (cases "ld_name x = ld_name d") auto
    moreover have "log_frame (ld_name ` set (ds @ [d]) - ld_name ` set new) st (silence_removed new d ?st)"
      using nm by (intro log_frame_trans [OF log_frame_mono [OF conjunct1 [OF conjunct2 [OF ih]]]
            log_frame_mono [OF conjunct1 [OF conjunct2 [OF s]]]]) auto
    ultimately show ?thesis using s by auto
  qed
qed simp

subsection \<open>Correctness of reloading\<close>




text \<open>The definitions of \<open>bin/conf/log.yml\<close>.\<close>

definition log_yml :: "logdef list" where
  "log_yml =
     [\<lparr>ld_name = ''root'', ld_level = INFO, ld_formatter = ''%d%T%m%n'', ld_appenders =
         [\<lparr>lad_type = 1, lad_level = UNKNOW, lad_formatter = [], lad_file = ''root.txt''\<rparr>,
          \<lparr>lad_type = 2, lad_level = UNKNOW, lad_formatter = [], lad_file = []\<rparr>]\<rparr>,
      \<lparr>ld_name = ''system'', ld_level = DEBUG, ld_formatter = ''%d%T%m%n'', ld_appenders =
         [\<lparr>lad_type = 1, lad_level = UNKNOW, lad_formatter = ''%d%T[%p]%T%m%n'', lad_file = ''system.txt''\<rparr>,
          \<lparr>lad_type = 2, lad_level = UNKNOW, lad_formatter = [], lad_file = []\<rparr>]\<rparr>]"

lemma sample_env_fits: "\<forall>fmt t. le_strftime sample_env fmt t \<noteq> None"
  by (simp add: sample_env_def)


subsection \<open>Unchanged definitions\<close>

text \<open>The listener in the configuration: \<open>LogIniter\<close> adds it to the variable \<open>logs\<close>.\<close>

definition log_initer ::
  "logenv \<Rightarrow> level \<Rightarrow> u64 \<Rightarrow> logevent \<Rightarrow> unit \<Rightarrow> logdef list \<Rightarrow> logdef list \<Rightarrow> logstate \<Rightarrow> cpp_error option \<times> logstate" where
  "log_initer e level0 time0 ev cb old_value new_value st =
     (case on_logs_changed e level0 time0 ev old_value new_value st of
        Inl err \<Rightarrow> (Some err, st)
      | Inr st \<Rightarrow> (None, st))"

lemma unchanged_fails:
  assumes "log_wf st" "d \<in> set ds" "ld_find d old = Some d" "\<forall>d \<in> set ds. list_all type_ok (ld_appenders d)"
  shows "foldR (apply_define e level0 time0 old) ds st = Inl NullDeref"
  using assms
proof (induction ds arbitrary: st)
  case (Cons x ds)
  show ?case
  proof (cases "ld_find x old = Some x")
    case True
    then show ?thesis by (simp add: apply_define_def)
  next
    case False
    then obtain st1 where "apply_define e level0 time0 old x st = Inr st1" "log_wf st1"
      using define_applied [OF Cons.prems(1) False] Cons.prems(4) by (metis list.set_intros(1))
    moreover have "d \<in> set ds" using Cons.prems(2,3) False by auto
    ultimately show ?thesis using Cons.IH [of st1] Cons.prems(3,4) by simp
  qed
qed simp

text \<open>
  C17. Loading a changed set of logger definitions in which one definition is as it was before ends
  the process: the listener of the variable dereferences the null pointer it keeps for an unchanged
  definition. Adding one logger to the file, or changing one, while another stays the same is enough.
\<close>

theorem unchanged_definition_crashes:
  assumes "\<forall>fmt t. le_strftime e fmt t \<noteq> None" "log_wf st"
    and "from_str (cv_type (cf_heap cfg a)) s = Inr new" "old = getValue a cfg" "new \<noteq> old"
    and "d \<in> set new" "ld_find d old = Some d"
    and "\<forall>d \<in> set new. list_all (\<lambda>a. lad_type a = 1 \<or> lad_type a = 2) (ld_appenders d)"
    and "cv_cbs (cf_heap cfg a) = (k, ()) # cbs"
  shows "fromString from_str (log_initer e level0 time0 ev) a s cfg st = Inl NullDeref"
proof -
  have "lm_root st < ls_next_logger st" using assms(2) by (simp add: log_wf_def)
  then obtain st1 where st1: "sylar_log e (lm_root st) INFO ev st = Inr st1" "log_wf st1"
    using sylar_logs [OF assms(1,2)] same_log_wf [OF _ assms(2)] by metis
  then have "on_logs_changed e level0 time0 ev old new st = Inl NullDeref"
    using unchanged_fails [OF st1(2) assms(6,7,8)] by (simp add: on_logs_changed_def)
  then show ?thesis using assms(3,4,5,9)
    by (simp add: fromString_def setValue_def getValue_def log_initer_def is_exception_def Let_def)
qed

definition logs_config :: "(logdef list, unit) config" where
  "logs_config = \<lparr>cf_datas = [''logs'' \<mapsto> 0],
     cf_heap = (\<lambda>_. (new_ConfigVar ''logs'' ''logs'' [hd log_yml] [])\<lparr>cv_cbs := [(1, ())]\<rparr>), cf_next = 1, cf_fun_id = (\<lambda>_. 1)\<rparr>"

theorem unchanged_definition_crashes_witness:
  "fromString (\<lambda>_ _. Inr log_yml) (log_initer sample_env 0 0 sample_event) 0 ''logs.yml'' logs_config (new_LoggerManager UNKNOW) = Inl NullDeref"
proof -
  have v: "getValue 0 logs_config = [hd log_yml]" "cv_cbs (cf_heap logs_config 0) = [(1, ())]"
    by (simp_all add: logs_config_def getValue_def new_ConfigVar_def)
  have d: "hd log_yml \<in> set log_yml" "log_yml \<noteq> [hd log_yml]" "ld_find (hd log_yml) [hd log_yml] = Some (hd log_yml)"
    "\<forall>d \<in> set log_yml. list_all (\<lambda>a. lad_type a = 1 \<or> lad_type a = 2) (ld_appenders d)"
    by (simp_all add: log_yml_def ld_find_def)
  show ?thesis
    by (rule unchanged_definition_crashes [OF sample_env_fits wf_new_LoggerManager _ v(1) [symmetric] d(2,1,3,4) v(2)]) (rule refl)
qed

subsection \<open>Definitions do not survive printing\<close>

definition printed_appender :: "appenderdef \<Rightarrow> appenderdef" where
  "printed_appender a = (if lad_type a = 1 then a\<lparr>lad_level := UNKNOW\<rparr>
     else \<lparr>lad_type = 2, lad_level = UNKNOW, lad_formatter = [], lad_file = []\<rparr>)"

definition printed_define :: "logdef \<Rightarrow> logdef" where
  "printed_define d = d\<lparr>ld_formatter := [], ld_appenders := map printed_appender (ld_appenders d)\<rparr>"

text \<open>The documented behaviour of the YAML library on maps, sequences and texts.\<close>

definition yaml_ok :: "yamllib \<Rightarrow> bool" where
  "yaml_ok Y \<longleftrightarrow> (\<forall>s. yl_string Y (YScalar s) = Inr s) \<and> (\<forall>ns i. i < length ns \<longrightarrow> yl_at Y (YSeq ns) i = Inr (ns ! i)) \<and>
     (\<forall>kvs k. yl_key Y (YMap kvs) k = Inr (case find (\<lambda>(x, _). x = YScalar k) kvs of Some (_, n) \<Rightarrow> n | None \<Rightarrow> YUndef))"

lemma elements_read:
  assumes "yaml_ok Y" "\<And>x. x \<in> set xs \<Longrightarrow> f (g x) = Inr (h x)"
  shows "mapR (\<lambda>i. bindR (yl_at Y (YSeq (map g xs)) i) f) [0..<length xs] = Inr (map h xs)"
proof -
  have "mapR (\<lambda>i. bindR (yl_at Y (YSeq (map g xs)) i) f) [0..<length xs] = Inr (map (\<lambda>i. h (xs ! i)) [0..<length xs])"
    using assms by (intro mapR_map) (auto simp: yaml_ok_def)
  also have "map (\<lambda>i. h (xs ! i)) [0..<length xs] = map h xs"
    using map_nth [of xs] by (metis (no_types, lifting) map_map comp_def map_eq_conv)
  finally show ?thesis .
qed

lemma appender_read:
  assumes "yaml_ok Y" "type_ok a"
  shows "appender_from_yaml Y (appender_to_yaml i a) = Inr (Some (printed_appender a))"
  using assms by (cases a) (auto simp: appender_from_yaml_def appender_to_yaml_def y_map_def yaml_ok_def y_string_or_def printed_appender_def)

lemma keep_somes_map: "keep_somes (map (\<lambda>x. Some (f x)) xs) = map f xs"
  by (simp add: keep_somes_def comp_def)

lemma define_read:
  assumes "yaml_ok Y" "list_all type_ok (ld_appenders d)" "ld_level d \<le> 5"
  shows "define_from_yaml Y (define_to_yaml d) = Inr (if ld_appenders d = [] then None else Some (printed_define d))"
proof (cases "ld_appenders d = []")
  case True
  then show ?thesis using assms(1)
    by (auto simp: define_from_yaml_def define_to_yaml_def y_map_def yaml_ok_def y_string_or_def)
next
  case False
  have apps: "mapR (\<lambda>x. bindR (yl_at Y (YSeq (map (appender_to_yaml d) (ld_appenders d))) x) (appender_from_yaml Y)) [0..<length (ld_appenders d)]
      = Inr (map (\<lambda>a. Some (printed_appender a)) (ld_appenders d))"
    using assms(1,2) by (intro elements_read) (auto simp: list_all_iff appender_read)
  have lvl: "LogLevel_FromString (if ld_level d \<noteq> UNKNOW then LogLevel_ToString (ld_level d) else []) = ld_level d"
    using level_round_trip [of "ld_level d"] assms(3) by (auto simp: UNKNOW_def) (simp add: LogLevel_FromString_def UNKNOW_def)
  show ?thesis using assms(1) False apps lvl
    by (cases d) (auto simp: define_from_yaml_def define_to_yaml_def y_map_def yaml_ok_def y_string_or_def y_size_def
        printed_define_def keep_somes_map)
qed

lemma str_less_asym: "str_less x y \<Longrightarrow> \<not> str_less y x \<and> x \<noteq> y"
  by (induction x y rule: str_less.induct) auto

lemma insert_last: "\<forall>x \<in> set xs. str_less (ld_name x) (ld_name d) \<Longrightarrow> ld_insert d xs = xs @ [d]"
  using str_less_asym by (induction xs) force+

lemma insert_sorted:
  "sorted_wrt str_less (map ld_name (xs @ ds)) \<Longrightarrow> fold ld_insert ds xs = xs @ ds"
proof (induction ds arbitrary: xs)
  case (Cons d ds)
  then have "ld_insert d xs = xs @ [d]" by (intro insert_last) (auto simp: sorted_wrt_append)
  then show ?case using Cons.IH [of "xs @ [d]"] Cons.prems by simp
qed simp

lemma keep_somes_if: "keep_somes (map (\<lambda>x. if P x then None else Some (f x)) xs) = map f (filter (\<lambda>x. \<not> P x) xs)"
  by (induction xs) (auto simp: keep_somes_def)

text \<open>
  Printing the logger definitions and reading them back loses information, and exactly this: a
  definition without appenders is dropped, the formatter of every logger and the levels of all
  appenders are gone, and so are the formatters of console appenders. Names, levels of loggers,
  files, their formatters and all orders survive. The library reads back what it printed.
\<close>

lemma logs_round_trip:
  assumes "yaml_ok Y" "\<forall>n. n = y_seq (map define_to_yaml v) \<longrightarrow> yl_load Y (yl_emit Y n) = Inr n"
    and "sorted_wrt str_less (map ld_name v)"
    and "\<forall>d \<in> set v. ld_level d \<le> 5 \<and> list_all (\<lambda>a. lad_type a = 1 \<or> lad_type a = 2) (ld_appenders d)"
  shows "cast_to_logs Y (cast_from_logs Y v) = Inr (map printed_define (filter (\<lambda>d. ld_appenders d \<noteq> []) v))"
proof -
  let ?r = "\<lambda>d. if ld_appenders d = [] then None else Some (printed_define d)"
  have elems: "mapR (\<lambda>i. bindR (yl_at Y (y_seq (map define_to_yaml v)) i) (define_from_yaml Y)) [0..<y_size (y_seq (map define_to_yaml v))]
      = Inr (map ?r v)"
  proof (cases "v = []")
    case False
    then show ?thesis using elements_read [OF assms(1), of v "define_from_yaml Y" define_to_yaml ?r] define_read [OF assms(1)] assms(4)
      by (simp add: y_seq_def y_size_def)
  qed (simp add: y_seq_def y_size_def)
  have names: "map ld_name (map printed_define (filter (\<lambda>d. ld_appenders d \<noteq> []) v)) = map ld_name (filter (\<lambda>d. ld_appenders d \<noteq> []) v)"
    by (simp add: printed_define_def)
  have "sorted_wrt str_less (map ld_name (filter (\<lambda>d. ld_appenders d \<noteq> []) v))"
    using assms(3) by (simp add: sorted_wrt_map sorted_wrt_filter)
  then have "fold ld_insert (map printed_define (filter (\<lambda>d. ld_appenders d \<noteq> []) v)) [] =
      map printed_define (filter (\<lambda>d. ld_appenders d \<noteq> []) v)"
    using insert_sorted [of "[]"] unfolding append_Nil names [symmetric] by blast
  then show ?thesis using assms(2) elems keep_somes_if [of "\<lambda>d. ld_appenders d = []" printed_define v]
    by (simp add: cast_to_logs_def cast_from_logs_def)
qed

definition sample_yaml :: yamllib where
  "sample_yaml = \<lparr>yl_load = (\<lambda>_. Inr (y_seq (map define_to_yaml log_yml))), yl_emit = (\<lambda>_. []),
     yl_at = (\<lambda>n i. case n of YSeq ns \<Rightarrow> Inr (ns ! i) | _ \<Rightarrow> Inr YUndef),
     yl_key = (\<lambda>n k. Inr (case n of YMap kvs \<Rightarrow> (case find (\<lambda>(x, _). x = YScalar k) kvs of Some (_, m) \<Rightarrow> m | None \<Rightarrow> YUndef) | _ \<Rightarrow> YUndef)),
     yl_string = (\<lambda>n. Inr (y_scalar n))\<rparr>"

lemma logs_round_trip_example:
  "cast_to_logs sample_yaml (cast_from_logs sample_yaml log_yml) = Inr (map printed_define log_yml) \<and>
   map printed_define log_yml \<noteq> log_yml"
proof -
  have "yaml_ok sample_yaml" by (simp add: yaml_ok_def sample_yaml_def y_scalar_def)
  moreover have "sorted_wrt str_less (map ld_name log_yml)" by code_simp
  moreover have "\<forall>d \<in> set log_yml. ld_level d \<le> 5 \<and> list_all (\<lambda>a. lad_type a = 1 \<or> lad_type a = 2) (ld_appenders d)"
    by (simp add: log_yml_def level_defs)
  moreover have "filter (\<lambda>d. ld_appenders d \<noteq> []) log_yml = log_yml" by (simp add: log_yml_def)
  moreover have "map printed_define log_yml \<noteq> log_yml" by (simp add: log_yml_def printed_define_def)
  ultimately show ?thesis using logs_round_trip [of sample_yaml log_yml] by (simp add: sample_yaml_def)
qed

end
