(* ===== verification/FdManager.thy ===== *)
theory FdManager
  imports Prelude
begin

text \<open>
  \<open>sherry/fd_manager.h\<close>, \<open>sherry/fd_manager.cc\<close>: what the hooks remember of a descriptor, and the table
  of all of them. The kernel is a record of what the code uses of it: which descriptors are open,
  which are sockets, and their file status flags; \<open>F_SETFL\<close> changes only the flags it may.
\<close>

subsection \<open>The kernel's view of descriptors\<close>

definition O_NONBLOCK :: u32 where "O_NONBLOCK = 0x800"

text \<open>\<open>O_APPEND\<close>, \<open>O_NONBLOCK\<close>, \<open>O_ASYNC\<close>, \<open>O_DIRECT\<close> and \<open>O_NOATIME\<close>.\<close>

definition settable_flags :: u32 where "settable_flags = 0x46C00"

record oskernel =
  os_open :: "int \<Rightarrow> bool"
  os_sock :: "int \<Rightarrow> bool"
  os_flags :: "int \<Rightarrow> u32"

definition os_getfl :: "int \<Rightarrow> oskernel \<Rightarrow> int" where
  "os_getfl fd k = (if os_open k fd then uint (os_flags k fd) else -1)"

definition os_setfl :: "int \<Rightarrow> u32 \<Rightarrow> oskernel \<Rightarrow> int \<times> oskernel" where
  "os_setfl fd arg k =
     (if os_open k fd
      then (0, k\<lparr>os_flags := (os_flags k)(fd := (os_flags k fd AND NOT settable_flags) OR (arg AND settable_flags))\<rparr>)
      else (-1, k))"

definition nonblocking :: "int \<Rightarrow> oskernel \<Rightarrow> bool" where
  "nonblocking fd k \<longleftrightarrow> os_flags k fd AND O_NONBLOCK \<noteq> 0"

subsection \<open>One descriptor\<close>

datatype timeout_type = SO_RCVTIMEO | SO_SNDTIMEO

record fdinfo =
  fx_isInit :: bool
  fx_isSocket :: bool
  fx_sysNonblock :: bool
  fx_userNonblock :: bool
  fx_isClosed :: bool
  fx_recvTimeout :: u64
  fx_sendTimeout :: u64

text \<open>\<open>init\<close>; \<open>fcntl_f\<close> failing returns all bits set, which include the flag.\<close>

definition fdctx_init :: "int \<Rightarrow> fdinfo \<Rightarrow> oskernel \<Rightarrow> bool \<times> fdinfo \<times> oskernel" where
  "fdctx_init fd c k =
     (if fx_isInit c then (True, c, k)
      else
        let c = c\<lparr>fx_recvTimeout := -1, fx_sendTimeout := -1, fx_isInit := os_open k fd,
                  fx_isSocket := (os_open k fd \<and> os_sock k fd)\<rparr>;
            flags = (word_of_int (os_getfl fd k) :: u32);
            k = (if fx_isSocket c \<and> flags AND O_NONBLOCK = 0 then snd (os_setfl fd (flags OR O_NONBLOCK) k) else k);
            c = c\<lparr>fx_sysNonblock := fx_isSocket c, fx_userNonblock := False, fx_isClosed := False\<rparr>
        in (fx_isInit c, c, k))"

definition new_FdCtx :: "int \<Rightarrow> oskernel \<Rightarrow> fdinfo \<times> oskernel" where
  "new_FdCtx fd k = snd (fdctx_init fd
     \<lparr>fx_isInit = False, fx_isSocket = False, fx_sysNonblock = False, fx_userNonblock = False, fx_isClosed = False,
      fx_recvTimeout = -1, fx_sendTimeout = -1\<rparr> k)"

definition setTimeout :: "timeout_type \<Rightarrow> u64 \<Rightarrow> fdinfo \<Rightarrow> fdinfo" where
  "setTimeout type v c = (if type = SO_RCVTIMEO then c\<lparr>fx_recvTimeout := v\<rparr> else c\<lparr>fx_sendTimeout := v\<rparr>)"

definition getTimeout :: "timeout_type \<Rightarrow> fdinfo \<Rightarrow> u64" where
  "getTimeout type c = (if type = SO_RCVTIMEO then fx_recvTimeout c else fx_sendTimeout c)"

subsection \<open>The table\<close>

type_synonym fdtable = "fdinfo option list"

definition new_FdManager :: fdtable where
  "new_FdManager = replicate 64 None"

text \<open>The part of \<open>get\<close> under the read lock: \<open>Some r\<close> when it returns there.\<close>

definition fm_read :: "int \<Rightarrow> bool \<Rightarrow> fdtable \<Rightarrow> fdinfo option option res" where
  "fm_read fd auto_create ds =
     (if fd = -1 then Inr (Some None)
      else if int (length ds) \<le> fd then Inr (if \<not> auto_create then Some None else None)
      else if fd < 0 then Inl OutOfBounds
      else if ds ! nat fd \<noteq> None \<or> \<not> auto_create then Inr (Some (ds ! nat fd))
      else Inr None)"

text \<open>The part under the write lock, which does not look again whether the context exists.\<close>

definition fm_create :: "int \<Rightarrow> fdtable \<times> oskernel \<Rightarrow> (fdinfo \<times> fdtable \<times> oskernel) res" where
  "fm_create fd st =
     (case st of (ds, k) \<Rightarrow>
        let (c, k) = new_FdCtx fd k;
            ds = (if fd \<ge> int (length ds) then let n = nat fd * 3 div 2 in take n ds @ replicate (n - length ds) None else ds)
        in if fd < 0 \<or> int (length ds) \<le> fd then Inl OutOfBounds
           else Inr (c, ds[nat fd := Some c], k))"

definition fm_get :: "int \<Rightarrow> bool \<Rightarrow> fdtable \<times> oskernel \<Rightarrow> (fdinfo option \<times> fdtable \<times> oskernel) res" where
  "fm_get fd auto_create st =
     bindR (fm_read fd auto_create (fst st)) (\<lambda>r.
       case r of
         Some c \<Rightarrow> Inr (c, st)
       | None \<Rightarrow> bindR (fm_create fd st) (\<lambda>(c, st). Inr (Some c, st)))"

definition fm_del :: "int \<Rightarrow> fdtable \<Rightarrow> fdtable res" where
  "fm_del fd ds =
     (if int (length ds) \<le> fd then Inr ds
      else if fd < 0 then Inl OutOfBounds
      else Inr (ds[nat fd := None]))"

text \<open>The setters change a context of the table in place.\<close>

definition fm_set :: "int \<Rightarrow> (fdinfo \<Rightarrow> fdinfo) \<Rightarrow> fdtable \<Rightarrow> fdtable" where
  "fm_set fd f ds = (if 0 \<le> fd \<and> nat fd < length ds then ds[nat fd := map_option f (ds ! nat fd)] else ds)"

subsection \<open>The table is a map\<close>

definition fm_abs :: "fdtable \<Rightarrow> int \<Rightarrow> fdinfo option" where
  "fm_abs ds fd = (if 0 \<le> fd \<and> nat fd < length ds then ds ! nat fd else None)"

lemma fm_abs_new: "fm_abs new_FdManager = (\<lambda>_. None)"
  by (auto simp: fm_abs_def new_FdManager_def)

lemma fm_read_abs:
  assumes "-1 \<le> fd"
  shows "fm_read fd a ds = Inr (if fm_abs ds fd = None \<and> a \<and> fd \<noteq> -1 then None else Some (fm_abs ds fd))"
  using assms by (auto simp: fm_read_def fm_abs_def)

lemma fm_set_abs: "fm_abs (fm_set fd f ds) = (fm_abs ds)(fd := map_option f (fm_abs ds fd))"
  by (auto simp: fm_abs_def fm_set_def fun_eq_iff nth_list_update)

lemma fm_set_length [simp]: "length (fm_set fd f ds) = length ds"
  by (simp add: fm_set_def)

lemma fm_create_abs:
  assumes "0 \<le> fd" "64 \<le> length ds"
  shows "\<exists>ds'. fm_create fd (ds, k) = Inr (fst (new_FdCtx fd k), ds', snd (new_FdCtx fd k)) \<and>
    fm_abs ds' = (fm_abs ds)(fd \<mapsto> fst (new_FdCtx fd k)) \<and> 64 \<le> length ds'"
proof -
  obtain c k' where c: "new_FdCtx fd k = (c, k')" by fastforce
  let ?n = "nat fd * 3 div 2"
  let ?grown = "if fd \<ge> int (length ds) then take ?n ds @ replicate (?n - length ds) None else ds"
  have len: "int (length ?grown) > fd" "64 \<le> length ?grown" using assms by (auto simp: min_def)
  have abs: "fm_abs ?grown = fm_abs ds"
    using assms by (auto simp: fm_abs_def fun_eq_iff nth_append)
  have "fm_create fd (ds, k) = Inr (c, ?grown[nat fd := Some c], k')"
    using len assms(1) c by (auto simp: fm_create_def Let_def)
  moreover have "fm_abs (?grown[nat fd := Some c]) = (fm_abs ?grown)(fd \<mapsto> c)"
    using len(1) assms(1) by (auto simp: fm_abs_def fun_eq_iff nth_list_update)
  ultimately show ?thesis using c abs len by auto
qed

lemma fm_get_abs:
  assumes "-1 \<le> fd" "64 \<le> length ds"
  shows "\<exists>r ds' k'. fm_get fd a (ds, k) = Inr (r, ds', k') \<and> 64 \<le> length ds' \<and>
    (if fm_abs ds fd = None \<and> a \<and> fd \<noteq> -1
     then r = Some (fst (new_FdCtx fd k)) \<and> fm_abs ds' = (fm_abs ds)(fd \<mapsto> fst (new_FdCtx fd k)) \<and> k' = snd (new_FdCtx fd k)
     else r = fm_abs ds fd \<and> ds' = ds \<and> k' = k)"
proof (cases "fm_abs ds fd = None \<and> a \<and> fd \<noteq> -1")
  case True
  then have "0 \<le> fd" using assms(1) by simp
  from fm_create_abs [OF this assms(2), of k] True show ?thesis
    using fm_read_abs [OF assms(1), of a ds] by (auto simp: fm_get_def)
next
  case False
  have "fm_read fd a ds = Inr (Some (fm_abs ds fd))"
    unfolding fm_read_abs [OF assms(1)] using False by (simp only: if_False)
  then show ?thesis using False assms(2) by (auto simp: fm_get_def)
qed

lemma fm_del_abs:
  assumes "0 \<le> fd"
  shows "\<exists>ds'. fm_del fd ds = Inr ds' \<and> length ds' = length ds \<and> fm_abs ds' = (fm_abs ds)(fd := None)"
  using assms by (auto simp: fm_del_def fm_abs_def fun_eq_iff nth_list_update)

subsection \<open>New contexts\<close>

lemma setfl_nonblock:
  assumes "os_open k fd"
  shows "nonblocking fd (snd (os_setfl fd arg k)) \<longleftrightarrow> arg AND O_NONBLOCK \<noteq> 0"
proof -
  have s: "settable_flags AND O_NONBLOCK = O_NONBLOCK" "NOT settable_flags AND O_NONBLOCK = 0"
    by (simp_all add: settable_flags_def O_NONBLOCK_def)
  have "((f AND NOT settable_flags) OR (arg AND settable_flags)) AND O_NONBLOCK = arg AND O_NONBLOCK" for f
    by (simp add: bit.conj_disj_distrib2 and.assoc s)
  then show ?thesis using assms by (simp add: nonblocking_def os_setfl_def)
qed

text \<open>A context for an open socket: a socket, not closed, without timeouts, and the kernel does not block.\<close>

lemma new_FdCtx_socket:
  assumes "os_open k fd" "os_sock k fd"
  shows "fst (new_FdCtx fd k) = \<lparr>fx_isInit = True, fx_isSocket = True, fx_sysNonblock = True, fx_userNonblock = False,
      fx_isClosed = False, fx_recvTimeout = -1, fx_sendTimeout = -1\<rparr> \<and> nonblocking fd (snd (new_FdCtx fd k))"
proof -
  have or: "(f OR O_NONBLOCK) AND O_NONBLOCK \<noteq> 0" for f :: u32
    by (simp add: bit.conj_disj_distrib2 O_NONBLOCK_def)
  show ?thesis
    using assms setfl_nonblock [OF assms(1)] or
    by (auto simp: new_FdCtx_def fdctx_init_def os_getfl_def Let_def nonblocking_def)
qed

lemma new_FdCtx_other: "\<not> os_open k fd \<or> \<not> os_sock k fd \<Longrightarrow> \<not> fx_isSocket (fst (new_FdCtx fd k)) \<and> snd (new_FdCtx fd k) = k"
  by (auto simp: new_FdCtx_def fdctx_init_def Let_def)

lemma new_FdCtx_keeps:
  "os_open (snd (new_FdCtx fd k)) = os_open k" "os_sock (snd (new_FdCtx fd k)) = os_sock k"
  "x \<noteq> fd \<Longrightarrow> os_flags (snd (new_FdCtx fd k)) x = os_flags k x"
  by (auto simp: new_FdCtx_def fdctx_init_def Let_def os_setfl_def)

text \<open>
  The table of descriptors, a vector that grows on demand, is a map from descriptors to contexts:
  \<open>get\<close> returns the context of a descriptor, or creates and stores one when asked to, whatever the
  descriptor's number; \<open>del\<close> removes exactly that descriptor, so that a reused number starts with a
  new context; changes of a context are seen by every later \<open>get\<close> and no other descriptor is touched.
\<close>

lemma fd_table_refines_map:
  assumes "0 \<le> fd" "64 \<le> length ds"
  shows "\<exists>r ds' k'. fm_get fd a (ds, k) = Inr (r, ds', k') \<and> 64 \<le> length ds' \<and>
      (if fm_abs ds fd = None \<and> a
       then r = Some (fst (new_FdCtx fd k)) \<and> fm_abs ds' = (fm_abs ds)(fd \<mapsto> fst (new_FdCtx fd k)) \<and> k' = snd (new_FdCtx fd k)
       else r = fm_abs ds fd \<and> ds' = ds \<and> k' = k)
    \<and> (\<exists>ds''. fm_del fd ds = Inr ds'' \<and> 64 \<le> length ds'' \<and> fm_abs ds'' = (fm_abs ds)(fd := None))
    \<and> fm_abs (fm_set fd f ds) = (fm_abs ds)(fd := map_option f (fm_abs ds fd))"
  using fm_get_abs [of fd ds a k] fm_del_abs [OF assms(1), of ds] fm_set_abs assms by fastforce

definition sample_os :: oskernel where
  "sample_os = \<lparr>os_open = (\<lambda>_. True), os_sock = (\<lambda>_. True), os_flags = (\<lambda>_. 2)\<rparr>"

lemma fd_table_refines_map_example:
  "\<exists>r ds' k'. fm_get 100 True (new_FdManager, sample_os) = Inr (r, ds', k') \<and> fm_abs ds' 100 = r \<and> r \<noteq> None"
proof -
  have "64 \<le> length new_FdManager" by (simp add: new_FdManager_def)
  from fd_table_refines_map [OF _ this, of 100 True sample_os id] show ?thesis
    by (simp add: fm_abs_new) (metis fun_upd_same option.distinct(1))
qed

text \<open>Two threads that both find no context create two, and what the first set on its own is lost.\<close>

lemma create_race:
  assumes "0 \<le> fd" "64 \<le> length ds" "fm_abs ds fd = None" "os_open k fd" "os_sock k fd"
  shows "\<exists>c ds1 k1 c2 ds2 k2. fm_create fd (ds, k) = Inr (c, ds1, k1) \<and>
    fm_create fd (fm_set fd (setTimeout SO_RCVTIMEO 5) ds1, k1) = Inr (c2, ds2, k2) \<and>
    map_option (getTimeout SO_RCVTIMEO) (fm_abs ds2 fd) = Some (-1)"
proof -
  obtain ds1 where 1: "fm_create fd (ds, k) = Inr (fst (new_FdCtx fd k), ds1, snd (new_FdCtx fd k))" "64 \<le> length ds1"
    using fm_create_abs [OF assms(1,2)] by blast
  let ?k = "snd (new_FdCtx fd k)"
  obtain ds2 where 2: "fm_create fd (fm_set fd (setTimeout SO_RCVTIMEO 5) ds1, ?k) = Inr (fst (new_FdCtx fd ?k), ds2, snd (new_FdCtx fd ?k))"
    "fm_abs ds2 fd = Some (fst (new_FdCtx fd ?k))"
    using fm_create_abs [OF assms(1), of "fm_set fd (setTimeout SO_RCVTIMEO 5) ds1" ?k] 1(2) by auto
  have "os_open ?k fd" "os_sock ?k fd" using assms(4,5) by (simp_all add: new_FdCtx_keeps)
  then have "getTimeout SO_RCVTIMEO (fst (new_FdCtx fd ?k)) = -1" using new_FdCtx_socket by (simp add: getTimeout_def)
  then show ?thesis using 1 2 by auto
qed

end
