(* ===== verification/Hook.thy ===== *)
theory Hook
  imports FdManager HttpServer
begin

text \<open>
  \<open>sherry/hook.h\<close>, \<open>sherry/hook.cc\<close>: the system calls that suspend the calling fiber instead of the
  thread. The results of the original calls are arguments. A call that waits is split where the fiber
  yields: \<open>do_io_enter\<close>, \<open>do_io_try\<close> (one attempt, up to the yield) and \<open>do_io_resume\<close>. The condition of
  a timer, \<open>timer_info\<close>, lives on a heap and is gone when the call has returned. \<open>hk_iom\<close> is
  \<open>HttpServer::GetThis()\<close>, null on a thread of another kind of scheduler. Log lines are left out.
\<close>

definition EINTR :: int where "EINTR = 4"
definition EBADF :: int where "EBADF = 9"
definition EAGAIN :: int where "EAGAIN = 11"
definition ETIMEDOUT :: int where "ETIMEDOUT = 110"
definition EINPROGRESS :: int where "EINPROGRESS = 115"

lemmas errno_defs = EINTR_def EBADF_def EAGAIN_def ETIMEDOUT_def EINPROGRESS_def

record hook =
  hk_enable :: bool
  hk_datas :: fdtable
  hk_os :: oskernel
  hk_iom :: "httpserver option"
  hk_info :: "nat \<Rightarrow> int option"
  hk_next_info :: nat
  hk_errno :: int
  hk_connect_timeout :: u64

definition set_hook_enable :: "bool \<Rightarrow> hook \<Rightarrow> hook" where
  "set_hook_enable flag h = h\<lparr>hk_enable := flag\<rparr>"

text \<open>The listener of the variable \<open>tcp.connect.timeout\<close>: an \<open>int\<close> becomes a \<open>uint64_t\<close>.\<close>

definition on_connect_timeout :: "int \<Rightarrow> hook \<Rightarrow> hook" where
  "on_connect_timeout new_value h = h\<lparr>hk_connect_timeout := word_of_int new_value\<rparr>"

definition hk_get :: "int \<Rightarrow> hook \<Rightarrow> fdinfo option res" where
  "hk_get fd h = bindR (fm_get fd False (hk_datas h, hk_os h)) (\<lambda>(c, _). Inr c)"

definition hk_get_create :: "int \<Rightarrow> hook \<Rightarrow> hook res" where
  "hk_get_create fd h = bindR (fm_get fd True (hk_datas h, hk_os h)) (\<lambda>(_, ds, k). Inr (h\<lparr>hk_datas := ds, hk_os := k\<rparr>))"

subsection \<open>Waiting for a descriptor\<close>

datatype io_start = IoDirect | IoFailed | IoLoop u64 nat

text \<open>\<open>do_io\<close> up to the label \<open>retry\<close>: call the original, fail, or loop with a timeout and its condition.\<close>

definition new_info :: "hook \<Rightarrow> nat \<times> hook" where
  "new_info h = (hk_next_info h, h\<lparr>hk_info := (hk_info h)(hk_next_info h := Some 0), hk_next_info := hk_next_info h + 1\<rparr>)"

definition do_io_enter :: "int \<Rightarrow> timeout_type \<Rightarrow> hook \<Rightarrow> (io_start \<times> hook) res" where
  "do_io_enter fd timeout_so h =
     (if \<not> hk_enable h then Inr (IoDirect, h)
      else bindR (hk_get fd h) (\<lambda>ctx.
        case ctx of
          None \<Rightarrow> Inr (IoDirect, h)
        | Some c \<Rightarrow>
            if fx_isClosed c then Inr (IoFailed, h\<lparr>hk_errno := EBADF\<rparr>)
            else if \<not> fx_isSocket c \<or> fx_userNonblock c then Inr (IoDirect, h)
            else case new_info h of (i, h) \<Rightarrow> Inr (IoLoop (getTimeout timeout_so c) i, h)))"

text \<open>The loop over \<open>EINTR\<close>: the first result of the calls that is something else.\<close>

fun skip_eintr :: "(int \<times> int) list \<Rightarrow> (int \<times> int) res" where
  "skip_eintr [] = Inl Diverges"
| "skip_eintr ((n, err) # rs) = (if n = -1 \<and> err = EINTR then skip_eintr rs else Inr (n, err))"

definition sv_addConditionTimer :: "nat \<Rightarrow> u64 \<Rightarrow> u64 \<Rightarrow> server_cb \<Rightarrow> httpserver \<Rightarrow> httpserver" where
  "sv_addConditionTimer t now ms cb sv =
     (case addConditionTimer (\<lambda>_ c. the c) t now ms (Some cb) () False (sv_timers sv) of (at_front, tm) \<Rightarrow>
        let sv = sv\<lparr>sv_timers := tm\<rparr> in if at_front then sv_tickle sv else sv)"

definition cancel_timer :: "nat option \<Rightarrow> httpserver \<Rightarrow> httpserver res" where
  "cancel_timer timer sv =
     (case timer of
        None \<Rightarrow> Inr sv
      | Some t \<Rightarrow> bindR (cancel t (sv_timers sv)) (\<lambda>(_, tm). Inr (sv\<lparr>sv_timers := tm\<rparr>)))"

definition end_info :: "nat \<Rightarrow> hook \<Rightarrow> hook" where
  "end_info i h = h\<lparr>hk_info := (hk_info h)(i := None)\<rparr>"

datatype io_next = IoRet int | IoWait "nat option"

text \<open>
  What a fiber brings to a wait: the answers of the kernel, the scheduler, the fiber and its state,
  the clock and the address of a new timer.
\<close>

record waiter =
  w_ok :: bool
  w_junk :: bool
  w_this :: "sref option"
  w_fiber :: "nat \<times> fiber_state"
  w_now :: u64
  w_timer :: nat

text \<open>Registering for the event with a timer: the timer, the result of \<open>addEvent\<close> and the server.\<close>

definition wait_for ::
  "waiter \<Rightarrow> int \<Rightarrow> mask \<Rightarrow> u64 \<Rightarrow> nat \<Rightarrow> httpserver \<Rightarrow> (nat option \<times> int \<times> httpserver) res" where
  "wait_for w fd event to i sv =
     (let timer = (if to \<noteq> -1 then Some (w_timer w) else None);
          sv = (if to \<noteq> -1 then sv_addConditionTimer (w_timer w) (w_now w) to (TimerCb i) sv else sv)
      in bindR (hs_addEvent (w_ok w) (w_junk w) (w_this w) (w_fiber w) fd event None None False sv) (\<lambda>(rt, sv).
           Inr (timer, rt, sv)))"

definition do_io_try ::
  "waiter \<Rightarrow> int \<Rightarrow> mask \<Rightarrow> u64 \<Rightarrow> nat \<Rightarrow> (int \<times> int) list \<Rightarrow> hook \<Rightarrow> (io_next \<times> hook) res" where
  "do_io_try w fd event to i calls h =
     bindR (skip_eintr calls) (\<lambda>(n, err).
       let h = h\<lparr>hk_errno := err\<rparr> in
       if \<not> (n = -1 \<and> err = EAGAIN) then Inr (IoRet n, end_info i h)
       else
         case hk_iom h of
           None \<Rightarrow> Inl NullDeref
         | Some sv \<Rightarrow>
             bindR (wait_for w fd event to i sv) (\<lambda>(timer, rt, sv).
               if rt \<noteq> 0 then bindR (cancel_timer timer sv) (\<lambda>sv. Inr (IoRet (-1), end_info i (h\<lparr>hk_iom := Some sv\<rparr>)))
               else Inr (IoWait timer, h\<lparr>hk_iom := Some sv\<rparr>)))"

text \<open>The callback of the timer, run by the server.\<close>

definition do_io_timeout :: "bool \<Rightarrow> sref option \<Rightarrow> int \<Rightarrow> mask \<Rightarrow> nat \<Rightarrow> hook \<Rightarrow> hook res" where
  "do_io_timeout ok this fd event i h =
     (case hk_info h i of
        None \<Rightarrow> Inr h
      | Some c \<Rightarrow>
          if c \<noteq> 0 then Inr h
          else
            case hk_iom h of
              None \<Rightarrow> Inl NullDeref
            | Some sv \<Rightarrow>
                bindR (hs_cancelEvent ok this fd event sv) (\<lambda>(_, sv).
                  Inr (h\<lparr>hk_info := (hk_info h)(i := Some ETIMEDOUT), hk_iom := Some sv\<rparr>)))"

text \<open>Behind the yield: \<open>None\<close> is the jump to \<open>retry\<close>.\<close>

definition do_io_resume :: "nat option \<Rightarrow> nat \<Rightarrow> hook \<Rightarrow> (int option \<times> hook) res" where
  "do_io_resume timer i h =
     (case hk_iom h of
        None \<Rightarrow> Inl NullDeref
      | Some sv \<Rightarrow>
          bindR (cancel_timer timer sv) (\<lambda>sv.
            let h = h\<lparr>hk_iom := Some sv\<rparr> in
            case hk_info h i of
              None \<Rightarrow> Inl UseAfterFree
            | Some c \<Rightarrow> if c \<noteq> 0 then Inr (Some (-1), end_info i (h\<lparr>hk_errno := c\<rparr>)) else Inr (None, h)))"

subsection \<open>Sleeping\<close>

datatype sleep_next = SleepDirect | SleepWait

definition sv_addTimer :: "nat \<Rightarrow> u64 \<Rightarrow> u64 \<Rightarrow> server_cb \<Rightarrow> httpserver \<Rightarrow> httpserver" where
  "sv_addTimer t now ms cb sv =
     (case addTimer t now ms (Some cb) False (sv_timers sv) of (at_front, tm) \<Rightarrow>
        let sv = sv\<lparr>sv_timers := tm\<rparr> in if at_front then sv_tickle sv else sv)"

text \<open>The timer's callback schedules the fiber, here \<open>TimerCb\<close> with its number.\<close>

definition sleep_for :: "waiter \<Rightarrow> u64 \<Rightarrow> hook \<Rightarrow> (sleep_next \<times> hook) res" where
  "sleep_for w ms h =
     (case hk_iom h of
        None \<Rightarrow> Inl NullDeref
      | Some sv \<Rightarrow> Inr (SleepWait, h\<lparr>hk_iom := Some (sv_addTimer (w_timer w) (w_now w) ms (TimerCb (fst (w_fiber w))) sv)\<rparr>))"

text \<open>The product of \<open>sleep\<close> is one of 32 bits.\<close>

definition hook_sleep :: "waiter \<Rightarrow> u32 \<Rightarrow> hook \<Rightarrow> (sleep_next \<times> hook) res" where
  "hook_sleep w seconds h =
     (if \<not> hk_enable h then Inr (SleepDirect, h) else sleep_for w (ucast (seconds * 1000)) h)"

definition hook_usleep :: "waiter \<Rightarrow> u32 \<Rightarrow> hook \<Rightarrow> (sleep_next \<times> hook) res" where
  "hook_usleep w usec h =
     (if \<not> hk_enable h then Inr (SleepDirect, h) else sleep_for w (ucast (usec div 1000)) h)"

text \<open>
  \<open>nanosleep\<close> calls itself when the hooks are off. Otherwise the milliseconds, an \<open>int\<close>, are divided
  once more by 1000.
\<close>

definition cdiv :: "int \<Rightarrow> int \<Rightarrow> int" where
  "cdiv a b = (if a < 0 then - ((- a) div b) else a div b)"

definition nanosleep_ms :: "int \<Rightarrow> int \<Rightarrow> int" where
  "nanosleep_ms sec nsec = to_int32 (sec * 1000 + cdiv (cdiv nsec 1000) 1000)"

definition hook_nanosleep :: "waiter \<Rightarrow> int \<Rightarrow> int \<Rightarrow> hook \<Rightarrow> (sleep_next \<times> hook) res" where
  "hook_nanosleep w sec nsec h =
     (if \<not> hk_enable h then Inl Diverges
      else sleep_for w (word_of_int (cdiv (nanosleep_ms sec nsec) 1000)) h)"

subsection \<open>Opening, connecting and closing\<close>

text \<open>\<open>socket\<close> and the end of \<open>accept\<close>: a new descriptor gets a context.\<close>

definition hook_socket :: "int \<Rightarrow> hook \<Rightarrow> (int \<times> hook) res" where
  "hook_socket fd h =
     (if \<not> hk_enable h then Inr (fd, h)
      else if fd = -1 then Inr (fd, h)
      else bindR (hk_get_create fd h) (\<lambda>h. Inr (fd, h)))"

definition accept_done :: "int \<Rightarrow> hook \<Rightarrow> (int \<times> hook) res" where
  "accept_done fd h = (if fd \<ge> 0 then bindR (hk_get_create fd h) (\<lambda>h. Inr (fd, h)) else Inr (fd, h))"

datatype connect_next = ConnDirect | ConnRet int | ConnWait nat "nat option" | ConnCheck

text \<open>
  \<open>connect_with_timeout\<close> up to the yield; \<open>call\<close> is the result of \<open>connect_f\<close>. A null context is
  dereferenced after \<open>errno\<close> is set.
\<close>

definition connect_start ::
  "waiter \<Rightarrow> int \<Rightarrow> u64 \<Rightarrow> int \<times> int \<Rightarrow> hook \<Rightarrow> (connect_next \<times> hook) res" where
  "connect_start w fd timeout_ms call h =
     (if \<not> hk_enable h then Inr (ConnDirect, h)
      else bindR (hk_get fd h) (\<lambda>ctx.
        case ctx of
          None \<Rightarrow> Inl NullDeref
        | Some c \<Rightarrow>
            let h = (if fx_isClosed c then h\<lparr>hk_errno := EBADF\<rparr> else h) in
            if \<not> fx_isSocket c \<or> fx_userNonblock c then Inr (ConnDirect, h)
            else
              let (n, err) = call; h = h\<lparr>hk_errno := err\<rparr> in
              if n = 0 then Inr (ConnRet 0, h)
              else if n \<noteq> -1 \<or> err \<noteq> EINPROGRESS then Inr (ConnRet n, h)
              else
                case (hk_iom h, new_info h) of
                  (None, _) \<Rightarrow> Inl NullDeref
                | (Some sv, (i, h)) \<Rightarrow>
                    bindR (wait_for w fd WRITE timeout_ms i sv) (\<lambda>(timer, rt, sv).
                      if rt = 0 then Inr (ConnWait i timer, h\<lparr>hk_iom := Some sv\<rparr>)
                      else bindR (cancel_timer timer sv) (\<lambda>sv. Inr (ConnCheck, end_info i (h\<lparr>hk_iom := Some sv\<rparr>))))))"

text \<open>Behind the yield, and the final question for \<open>SO_ERROR\<close>, whose answer is an argument.\<close>

definition connect_check :: "int \<times> int \<Rightarrow> hook \<Rightarrow> int \<times> hook" where
  "connect_check answer h =
     (case answer of (rt, error) \<Rightarrow>
        if rt = -1 then (-1, h) else if error = 0 then (0, h) else (-1, h\<lparr>hk_errno := error\<rparr>))"

definition connect_resume :: "nat \<Rightarrow> nat option \<Rightarrow> int \<times> int \<Rightarrow> hook \<Rightarrow> (int \<times> hook) res" where
  "connect_resume i timer answer h =
     bindR (do_io_resume timer i h) (\<lambda>(r, h).
       case r of Some n \<Rightarrow> Inr (n, h) | None \<Rightarrow> Inr (connect_check answer (end_info i h)))"

definition hook_close :: "bool \<Rightarrow> sref option \<Rightarrow> int \<Rightarrow> int \<times> oskernel \<Rightarrow> hook \<Rightarrow> (int \<times> hook) res" where
  "hook_close ok this fd answer h =
     (if \<not> hk_enable h then Inr (fst answer, h\<lparr>hk_os := snd answer\<rparr>)
      else bindR (hk_get fd h) (\<lambda>ctx.
        bindR (case ctx of
            None \<Rightarrow> Inr h
          | Some _ \<Rightarrow>
              bindR (case hk_iom h of
                  None \<Rightarrow> Inr h
                | Some sv \<Rightarrow> bindR (hs_cancelAll ok this fd sv) (\<lambda>(_, sv). Inr (h\<lparr>hk_iom := Some sv\<rparr>))) (\<lambda>h.
              bindR (fm_del fd (hk_datas h)) (\<lambda>ds. Inr (h\<lparr>hk_datas := ds\<rparr>)))) (\<lambda>h.
          Inr (fst answer, h\<lparr>hk_os := snd answer\<rparr>))))"

subsection \<open>Flags and options\<close>

text \<open>\<open>fcntl\<close>: the other commands go to the kernel as they are; \<open>other\<close> is what it answers.\<close>

datatype fcntl_cmd = F_SETFL u32 | F_GETFL | F_OTHER nat

definition managed :: "int \<Rightarrow> hook \<Rightarrow> fdinfo option res" where
  "managed fd h = bindR (hk_get fd h) (\<lambda>ctx.
     Inr (case ctx of Some c \<Rightarrow> if fx_isClosed c \<or> \<not> fx_isSocket c then None else Some c | None \<Rightarrow> None))"

definition hook_fcntl :: "(nat \<Rightarrow> int) \<Rightarrow> int \<Rightarrow> fcntl_cmd \<Rightarrow> hook \<Rightarrow> (int \<times> hook) res" where
  "hook_fcntl other fd cmd h =
     (case cmd of
        F_SETFL arg \<Rightarrow>
          bindR (managed fd h) (\<lambda>ctx.
            case ctx of
              None \<Rightarrow> (case os_setfl fd arg (hk_os h) of (r, k) \<Rightarrow> Inr (r, h\<lparr>hk_os := k\<rparr>))
            | Some c \<Rightarrow>
                let h = h\<lparr>hk_datas := fm_set fd (\<lambda>c. c\<lparr>fx_userNonblock := (arg AND O_NONBLOCK \<noteq> 0)\<rparr>) (hk_datas h)\<rparr>;
                    arg = (if fx_sysNonblock c then arg OR O_NONBLOCK else arg AND NOT O_NONBLOCK)
                in case os_setfl fd arg (hk_os h) of (r, k) \<Rightarrow> Inr (r, h\<lparr>hk_os := k\<rparr>))
      | F_GETFL \<Rightarrow>
          bindR (managed fd h) (\<lambda>ctx.
            let arg = (word_of_int (os_getfl fd (hk_os h)) :: u32) in
            Inr (case ctx of
                None \<Rightarrow> os_getfl fd (hk_os h)
              | Some c \<Rightarrow> sint (if fx_userNonblock c then arg OR O_NONBLOCK else arg AND NOT O_NONBLOCK), h))
      | F_OTHER n \<Rightarrow> Inr (other n, h))"

text \<open>\<open>ioctl\<close> with \<open>FIONBIO\<close>: the kernel gets the user's value, also for a managed socket.\<close>

definition os_fionbio :: "int \<Rightarrow> bool \<Rightarrow> oskernel \<Rightarrow> int \<times> oskernel" where
  "os_fionbio fd b k =
     (if os_open k fd
      then (0, k\<lparr>os_flags := (os_flags k)(fd := if b then os_flags k fd OR O_NONBLOCK else os_flags k fd AND NOT O_NONBLOCK)\<rparr>)
      else (-1, k))"

definition hook_ioctl_fionbio :: "int \<Rightarrow> bool \<Rightarrow> hook \<Rightarrow> (int \<times> hook) res" where
  "hook_ioctl_fionbio fd user_nonblock h =
     bindR (managed fd h) (\<lambda>ctx.
       let h = (case ctx of
             None \<Rightarrow> h
           | Some _ \<Rightarrow> h\<lparr>hk_datas := fm_set fd (\<lambda>c. c\<lparr>fx_userNonblock := user_nonblock\<rparr>) (hk_datas h)\<rparr>)
       in case os_fionbio fd user_nonblock (hk_os h) of (r, k) \<Rightarrow> Inr (r, h\<lparr>hk_os := k\<rparr>))"

text \<open>\<open>setsockopt\<close> with a timeout; \<open>r\<close> is the kernel's answer.\<close>

definition hook_setsockopt_timeout :: "int \<Rightarrow> timeout_type \<Rightarrow> int \<times> int \<Rightarrow> int \<Rightarrow> hook \<Rightarrow> (int \<times> hook) res" where
  "hook_setsockopt_timeout fd optname v r h =
     (if \<not> hk_enable h then Inr (r, h)
      else bindR (hk_get fd h) (\<lambda>ctx.
        Inr (r, if ctx = None then h
                else h\<lparr>hk_datas := fm_set fd (setTimeout optname (word_of_int (fst v * 1000 + cdiv (snd v) 1000))) (hk_datas h)\<rparr>)))"

subsection \<open>The server while a fiber waits\<close>

text \<open>The context that \<open>addEvent\<close> without a callback leaves, and what it does not change.\<close>

lemma ctx_of_sock [simp]: "ctx_of e (fc\<lparr>fc_sock := s\<rparr>) = ctx_of e fc"
  by (simp add: ctx_of_def)

lemma added_ctx:
  assumes "hs_addEvent ok junk this fiber fd e sock None p sv = Inr (0, sv')" "event_ok e"
    and "grow_for (new_hfd junk) fd (sv_ctxs sv) = Inr ctxs" "nat fd < length ctxs"
  shows "ctx_of e (sv_ctxs sv' ! nat fd) =
      (ctx_of e (ctxs ! nat fd))\<lparr>hc_scheduler := this, hc_persistent := p, hc_fiber := Some (fst fiber)\<rparr>"
    and "sv_timers sv' = sv_timers sv" and "sv_sched sv' = sv_sched sv" and "length (sv_ctxs sv') = length ctxs"
  using assms by (auto simp: hs_addEvent_def getContext_ok Let_def sv_set_def split: if_splits prod.splits)

lemma grown_ctx:
  assumes "sv_inv sv" "0 \<le> fd" "nat fd < length (sv_ctxs sv) \<longrightarrow> hc_cb (ctx_of e (sv_ctxs sv ! nat fd)) = None"
  obtains ctxs where "grow_for (new_hfd junk) fd (sv_ctxs sv) = Inr ctxs" "nat fd < length ctxs"
    "hc_cb (ctx_of e (ctxs ! nat fd)) = None"
proof -
  obtain ctxs where g: "grow_for (new_hfd junk) fd (sv_ctxs sv) = Inr ctxs" "nat fd < length ctxs"
    using sv_grow [OF assms(1,2)] by blast
  have "hc_cb (ctx_of e (ctxs ! nat fd)) = None"
  proof (cases "nat fd < length (sv_ctxs sv)")
    case True
    then have "ctxs = sv_ctxs sv" using g(1) assms(2) by (auto simp: grow_for_def split: if_splits)
    then show ?thesis using True assms(3) by simp
  next
    case False
    then have "ctxs ! nat fd = new_hfd junk"
      using g assms(2) by (auto simp: grow_for_def contextResize_def Let_def nth_append split: if_splits)
    then show ?thesis by (simp add: ctx_of_def new_hfd_def new_hctx_def)
  qed
  with g show thesis by (rule that)
qed

lemma cancel_schedules:
  assumes "hs_cancelEvent ok this fd e sv = Inr (True, sv')" "event_ok e"
    and "hc_cb (ctx_of e (sv_ctxs sv ! nat fd)) = None" "hc_fiber (ctx_of e (sv_ctxs sv ! nat fd)) = Some f"
    and "hc_scheduler (ctx_of e (sv_ctxs sv ! nat fd)) = Some Self"
  shows "m_fibers (sv_sched sv') = m_fibers (sv_sched sv) @ [fiber_task (Some f) (-1)] \<and> sv_timers sv' = sv_timers sv"
proof -
  obtain none where n: "hs_no_event fd e sv = Inr none" "\<not> none" using assms(1)
    by (auto simp: hs_cancelEvent_def res_simps split: if_splits prod.splits)
  then have fd: "nat fd < length (sv_ctxs sv)" "fc_events (sv_ctxs sv ! nat fd) AND e \<noteq> 0"
    by (auto simp: hs_no_event_def split: if_splits)
  obtain ep where ep: "hs_ctl_without ok (nat fd) e sv = (True, ep)" using assms(1) n
    by (auto simp: hs_cancelEvent_def split: if_splits prod.splits)
  let ?c = "ctx_of e (sv_ctxs sv ! nat fd)"
  define sv1 where "sv1 = sv_set (nat fd) (setContext e (?c\<lparr>hc_persistent := False\<rparr>) (sv_ctxs sv ! nat fd)) (sv\<lparr>sv_epoll := ep\<rparr>)"
  have 1: "make_transient (nat fd) e (sv\<lparr>sv_epoll := ep\<rparr>) = Inr sv1"
    using assms(2) by (simp add: make_transient_def getContext_ok sv1_def)
  have c1: "ctx_of e (sv_ctxs sv1 ! nat fd) = ?c\<lparr>hc_persistent := False\<rparr>" "fc_events (sv_ctxs sv1 ! nat fd) AND e \<noteq> 0"
    "sv_sched sv1 = sv_sched sv" "sv_timers sv1 = sv_timers sv"
    using fd assms(2) by (simp_all add: sv1_def sv_set_def)
  have "sv' = sv_pending_dec (projr (hs_triggerEvent this (nat fd) e sv1))" "\<not> isl (hs_triggerEvent this (nat fd) e sv1)"
    using assms(1) n ep 1 by (auto simp: hs_cancelEvent_def res_simps)
  then show ?thesis using c1 assms(2-5)
    by (auto simp: hs_triggerEvent_def getContext_ok Let_def sv_schedule_def scheduleNoLock_def has_work_def
        fiber_task_def sv_set_def sv_tickle_def sv_pending_dec_def)
qed

subsection \<open>One attempt\<close>

lemma skip_eintr_app: "\<forall>r \<in> set rs. r = (-1, EINTR) \<Longrightarrow> skip_eintr (rs @ cs) = skip_eintr cs"
  by (induction rs) auto

lemma condition_timer:
  assumes "timer_inv (sv_timers sv)" "t \<notin> set (m_timers (sv_timers sv))"
  shows "timer_inv (sv_timers (sv_addConditionTimer t now ms cb sv))"
    "m_cb (t_heap (sv_timers (sv_addConditionTimer t now ms cb sv)) t) = Some cb"
    "sv_ctxs (sv_addConditionTimer t now ms cb sv) = sv_ctxs sv" "sv_epoll (sv_addConditionTimer t now ms cb sv) = sv_epoll sv"
    "sv_sched (sv_addConditionTimer t now ms cb sv) = sv_sched sv"
    "set (m_timers (sv_timers (sv_addConditionTimer t now ms cb sv))) = insert t (set (m_timers (sv_timers sv)))"
    "t_heap (sv_timers (sv_addConditionTimer t now ms cb sv)) t = new_Timer now ms (Some cb) False"
  using addTimer_inv [OF assms, of now ms "Some cb" False] addTimer_timers [OF assms, of now ms "Some cb" False]
  by (auto simp: sv_addConditionTimer_def addConditionTimer_def addTimer_def addTimer_lock_def new_Timer_def Let_def sv_tickle_def
      split: prod.splits)

text \<open>
  The conditions under which a fiber waits: the server is consistent, the event of the descriptor is
  free and has no callback from before, the kernel accepts it, the timer is new.
\<close>

definition can_wait :: "waiter \<Rightarrow> int \<Rightarrow> mask \<Rightarrow> httpserver \<Rightarrow> bool" where
  "can_wait w fd e sv \<longleftrightarrow> sv_inv sv \<and> timer_inv (sv_timers sv) \<and> 0 \<le> fd \<and> event_ok e \<and>
     w_ok w \<and> w_this w = Some Self \<and> snd (w_fiber w) = EXEC \<and> w_timer w \<notin> set (m_timers (sv_timers sv)) \<and>
     \<not> has_event (sv_events sv (nat fd)) e \<and>
     (nat fd < length (sv_ctxs sv) \<longrightarrow> hc_cb (ctx_of e (sv_ctxs sv ! nat fd)) = None)"

lemma waiting:
  assumes "can_wait w fd e sv"
  shows "\<exists>sv'. wait_for w fd e to i sv = Inr (if to = -1 then None else Some (w_timer w), 0, sv') \<and>
    sv_inv sv' \<and> timer_inv (sv_timers sv') \<and> sv_events sv' = (sv_events sv)(nat fd := sv_events sv (nat fd) OR e) \<and>
    (let c = ctx_of e (sv_ctxs sv' ! nat fd) in hc_cb c = None \<and> hc_fiber c = Some (fst (w_fiber w)) \<and> hc_scheduler c = Some Self) \<and>
    (to \<noteq> -1 \<longrightarrow> m_cb (t_heap (sv_timers sv') (w_timer w)) = Some (TimerCb i)) \<and> sv_sched sv' = sv_sched sv \<and>
    nat fd < length (sv_ctxs sv') \<and> \<not> hc_persistent (ctx_of e (sv_ctxs sv' ! nat fd)) \<and>
    sv_timers sv' = sv_timers (if to \<noteq> -1 then sv_addConditionTimer (w_timer w) (w_now w) to (TimerCb i) sv else sv)"
proof -
  note c = assms [unfolded can_wait_def]
  define sv0 where "sv0 = (if to \<noteq> -1 then sv_addConditionTimer (w_timer w) (w_now w) to (TimerCb i) sv else sv)"
  have t: "sv_ctxs sv0 = sv_ctxs sv" "sv_epoll sv0 = sv_epoll sv" "sv_sched sv0 = sv_sched sv" "timer_inv (sv_timers sv0)"
    "to \<noteq> -1 \<Longrightarrow> m_cb (t_heap (sv_timers sv0) (w_timer w)) = Some (TimerCb i)"
    using c condition_timer [of sv "w_timer w" "w_now w" to "TimerCb i"] by (auto simp: sv0_def)
  have inv: "sv_inv sv0" "sv_events sv0 = sv_events sv"
    using c t sv_inv_cong [of sv0 sv] by (auto simp: sv_events_def)
  obtain sv' where add: "hs_addEvent (w_ok w) (w_junk w) (w_this w) (w_fiber w) fd e None None False sv0 = Inr (0, sv')" "sv_inv sv'"
    "sv_events sv' = (sv_events sv)(nat fd := sv_events sv (nat fd) OR e)"
    using sv_add_run [OF inv(1), of fd e None "w_fiber w" "w_ok w" "w_junk w" "w_this w" None False] c inv(2) by auto
  obtain ctxs where g: "grow_for (new_hfd (w_junk w)) fd (sv_ctxs sv0) = Inr ctxs" "nat fd < length ctxs"
    "hc_cb (ctx_of e (ctxs ! nat fd)) = None"
    using grown_ctx [OF inv(1), of fd e] c t(1) by metis
  have "event_ok e" "w_this w = Some Self" using c by auto
  note a = added_ctx [OF add(1) \<open>event_ok e\<close> g(1,2)]
  have "wait_for w fd e to i sv = Inr (if to = -1 then None else Some (w_timer w), 0, sv')"
    using add(1) by (simp add: wait_for_def sv0_def)
  then show ?thesis using add(2,3) a g(2,3) t(3,4,5) \<open>w_this w = Some Self\<close> by (auto simp: Let_def sv0_def)
qed

lemma registered_mask:
  assumes "event_ok e" "\<not> has_event w e"
  shows "has_event (w OR e) e" "(w OR e) AND NOT e = w"
proof -
  have "e \<noteq> 0" using assms(1) by (auto simp: event_ok_def mask_defs)
  moreover have "(w OR e) AND e = e" by (rule bit_word_eqI) (auto simp: bit_simps)
  ultimately show "has_event (w OR e) e" by (simp add: has_event_def)
  show "(w OR e) AND NOT e = w"
    using without_unregistered [OF assms(2)] by (simp add: bit.conj_disj_distrib2)
qed

subsection \<open>Correctness of the hooks\<close>

text \<open>
  A call that would block ends with a timeout: when the original call is interrupted any number of
  times and then would block on a socket with a timeout, the fiber waits, registered for its event.
  When the timer fires first, the fiber is scheduled once, its event is no longer registered, and when
  it runs again the call returns -1 with \<open>ETIMEDOUT\<close>, with its timer and its condition gone.
\<close>

lemma timeout_ends_io:
  assumes "can_wait w fd e sv" "hk_iom h = Some sv" "hk_info h i = Some 0" "to \<noteq> -1"
    and "\<forall>r \<in> set rs. r = (-1, EINTR)"
  shows "\<exists>h1 h2 h3 sv2 sv3. do_io_try w fd e to i (rs @ [(-1, EAGAIN)]) h = Inr (IoWait (Some (w_timer w)), h1) \<and>
    has_event (sv_events (the (hk_iom h1)) (nat fd)) e \<and>
    do_io_timeout True (Some Self) fd e i h1 = Inr h2 \<and> hk_iom h2 = Some sv2 \<and>
    m_fibers (sv_sched sv2) = m_fibers (sv_sched sv) @ [fiber_task (Some (fst (w_fiber w))) (-1)] \<and>
    sv_events sv2 = sv_events sv \<and>
    do_io_resume (Some (w_timer w)) i h2 = Inr (Some (-1), h3) \<and> hk_errno h3 = ETIMEDOUT \<and>
    hk_iom h3 = Some sv3 \<and> m_cb (t_heap (sv_timers sv3) (w_timer w)) = None \<and> hk_info h3 i = None"
proof -
  note c = assms(1) [unfolded can_wait_def]
  have e: "event_ok e" "0 \<le> fd" using c by auto
  obtain sv1 where w1: "wait_for w fd e to i sv = Inr (Some (w_timer w), 0, sv1)" "sv_inv sv1" "timer_inv (sv_timers sv1)"
    and ev1: "sv_events sv1 = (sv_events sv)(nat fd := sv_events sv (nat fd) OR e)"
    and ctx1: "hc_cb (ctx_of e (sv_ctxs sv1 ! nat fd)) = None" "hc_fiber (ctx_of e (sv_ctxs sv1 ! nat fd)) = Some (fst (w_fiber w))"
      "hc_scheduler (ctx_of e (sv_ctxs sv1 ! nat fd)) = Some Self"
    and t1: "m_cb (t_heap (sv_timers sv1) (w_timer w)) = Some (TimerCb i)" "sv_sched sv1 = sv_sched sv"
    using waiting [OF assms(1), of to i] assms(4) by (auto simp: Let_def)
  have m: "mask_ok (sv_events sv (nat fd))" "\<not> has_event (sv_events sv (nat fd)) e" using c by (auto simp: sv_inv_def)
  have reg: "has_event (sv_events sv1 (nat fd)) e" using registered_mask [OF e(1) m(2)] ev1 by simp
  define h1 where "h1 = h\<lparr>hk_errno := EAGAIN, hk_iom := Some sv1\<rparr>"
  have "skip_eintr (rs @ [(-1, EAGAIN)]) = Inr (-1, EAGAIN)"
    using skip_eintr_app [OF assms(5)] by (simp add: errno_defs)
  then have attempt: "do_io_try w fd e to i (rs @ [(-1, EAGAIN)]) h = Inr (IoWait (Some (w_timer w)), h1)"
    using w1(1) assms(2) by (simp add: do_io_try_def h1_def Let_def)
  obtain sv2 where c2: "hs_cancelEvent True (Some Self) fd e sv1 = Inr (True, sv2)"
    "sv_events sv2 = (sv_events sv1)(nat fd := sv_events sv1 (nat fd) AND NOT e)"
    using sv_cancel_run [OF w1(2) e(2,1) reg, of "Some Self" True] by auto
  have s2: "m_fibers (sv_sched sv2) = m_fibers (sv_sched sv) @ [fiber_task (Some (fst (w_fiber w))) (-1)]" "sv_timers sv2 = sv_timers sv1"
    using cancel_schedules [OF c2(1) e(1) ctx1] t1(2) by auto
  have ev2: "sv_events sv2 = sv_events sv" using c2(2) ev1 registered_mask [OF e(1) m(2)] by auto
  define h2 where "h2 = h1\<lparr>hk_info := (hk_info h1)(i := Some ETIMEDOUT), hk_iom := Some sv2\<rparr>"
  have to: "do_io_timeout True (Some Self) fd e i h1 = Inr h2"
    using c2(1) assms(3) by (simp add: do_io_timeout_def h1_def h2_def)
  have cn: "cancel (w_timer w) (sv_timers sv2) = Inr (True, (sv_timers sv1)\<lparr>t_heap := (t_heap (sv_timers sv1))(w_timer w :=
      (t_heap (sv_timers sv1) (w_timer w))\<lparr>m_cb := None\<rparr>), m_timers := remove1 (w_timer w) (m_timers (sv_timers sv1))\<rparr>)"
    using cancel_cases [OF w1(3), of "w_timer w"] t1(1) s2(2) by simp
  define h3 where "h3 = projr (do_io_resume (Some (w_timer w)) i h2)"
  have "do_io_resume (Some (w_timer w)) i h2 = Inr (Some (-1), snd h3)"
    "hk_errno (snd h3) = ETIMEDOUT" "hk_info (snd h3) i = None"
    "\<exists>sv3. hk_iom (snd h3) = Some sv3 \<and> m_cb (t_heap (sv_timers sv3) (w_timer w)) = None"
    using cn by (auto simp: h3_def do_io_resume_def h2_def cancel_timer_def ETIMEDOUT_def end_info_def)
  then show ?thesis using attempt reg to ev2 s2(1) by (fastforce simp: h1_def h2_def)
qed

text \<open>The server and a fiber of the examples.\<close>

definition demo_waiter :: waiter where
  "demo_waiter = \<lparr>w_ok = True, w_junk = False, w_this = Some Self, w_fiber = (7, EXEC), w_now = 0, w_timer = 3\<rparr>"

definition demo_hook :: hook where
  "demo_hook = \<lparr>hk_enable = True, hk_datas = new_FdManager, hk_os = sample_os, hk_iom = Some demo_server,
     hk_info = (\<lambda>_. Some 0), hk_next_info = 1, hk_errno = 0, hk_connect_timeout = -1\<rparr>"

lemma demo_can_wait: "can_wait demo_waiter 5 READ demo_server"
proof -
  have "sv_ctxs demo_server = replicate 32 (new_hfd False)" "sv_timers demo_server = new_TimerManager 0"
    by (simp_all add: demo_server_def new_HttpServer_def sched_start_def contextResize_def)
  moreover have "sv_inv demo_server" using sv_inv_new [OF demo_server_new] .
  moreover have "timer_inv (sv_timers demo_server)" unfolding calculation(2) by (rule timer_inv_new)
  moreover have "has_event 0 READ = False" by (simp add: has_event_def)
  ultimately show ?thesis
    by (simp add: can_wait_def demo_waiter_def event_ok_def new_TimerManager_def ctx_of_def new_hfd_def new_hctx_def)
qed

lemma timeout_ends_io_example:
  "\<exists>h1 h2 h3. do_io_try demo_waiter 5 READ 1000 0 [(-1, EINTR), (-1, EAGAIN)] demo_hook = Inr (IoWait (Some 3), h1) \<and>
     do_io_timeout True (Some Self) 5 READ 0 h1 = Inr h2 \<and> do_io_resume (Some 3) 0 h2 = Inr (Some (-1), h3) \<and> hk_errno h3 = ETIMEDOUT"
  using timeout_ends_io [OF demo_can_wait, of demo_hook 0 1000 "[(-1, EINTR)]"]
  by (fastforce simp: demo_hook_def demo_waiter_def)

subsection \<open>Flags\<close>

lemma hk_get_abs: "-1 \<le> fd \<Longrightarrow> hk_get fd h = Inr (fm_abs (hk_datas h) fd)"
  by (simp add: hk_get_def fm_get_def fm_read_abs split: if_splits)

definition is_managed :: "int \<Rightarrow> hook \<Rightarrow> fdinfo \<Rightarrow> bool" where
  "is_managed fd h c \<longleftrightarrow> 0 \<le> fd \<and> fm_abs (hk_datas h) fd = Some c \<and> fx_isSocket c \<and> \<not> fx_isClosed c \<and> fx_sysNonblock c \<and>
     os_open (hk_os h) fd"

lemma managed_run: "is_managed fd h c \<Longrightarrow> managed fd h = Inr (Some c)"
  by (simp add: managed_def hk_get_abs is_managed_def)

lemma nonblock_or: "(f OR O_NONBLOCK) AND O_NONBLOCK \<noteq> 0" for f :: u32
  by (simp add: bit.conj_disj_distrib2 O_NONBLOCK_def)

lemma nonblock_and: "(f AND NOT O_NONBLOCK) AND O_NONBLOCK = 0" for f :: u32
  by (simp add: and.assoc)

lemma set_flags_run:
  assumes "is_managed fd h c"
  obtains h1 where "hook_fcntl other fd (F_SETFL arg) h = Inr (0, h1)"
    "is_managed fd h1 (c\<lparr>fx_userNonblock := (arg AND O_NONBLOCK \<noteq> 0)\<rparr>)" "nonblocking fd (hk_os h1)"
    "hk_enable h1 = hk_enable h"
proof -
  let ?c = "c\<lparr>fx_userNonblock := (arg AND O_NONBLOCK \<noteq> 0)\<rparr>"
  have open': "os_open (hk_os h) fd" "fx_sysNonblock c" using assms by (auto simp: is_managed_def)
  then obtain k where k: "os_setfl fd (arg OR O_NONBLOCK) (hk_os h) = (0, k)" "os_open k = os_open (hk_os h)"
    by (simp add: os_setfl_def)
  let ?h = "h\<lparr>hk_datas := fm_set fd (\<lambda>c. c\<lparr>fx_userNonblock := (arg AND O_NONBLOCK \<noteq> 0)\<rparr>) (hk_datas h), hk_os := k\<rparr>"
  have "hook_fcntl other fd (F_SETFL arg) h = Inr (0, ?h)"
    using managed_run [OF assms] open'(2) k(1) by (simp add: hook_fcntl_def Let_def)
  moreover have "is_managed fd ?h ?c" using assms k(2) by (simp add: is_managed_def fm_set_abs)
  moreover have "nonblocking fd k" using setfl_nonblock [OF open'(1), of "arg OR O_NONBLOCK"] nonblock_or k(1) by simp
  ultimately show thesis using that by simp
qed

lemma get_flags_run:
  assumes "is_managed fd h c"
  shows "\<exists>f :: u32. hook_fcntl other fd F_GETFL h = Inr (sint f, h) \<and> (f AND O_NONBLOCK \<noteq> 0 \<longleftrightarrow> fx_userNonblock c)"
  using managed_run [OF assms] nonblock_or nonblock_and by (auto simp: hook_fcntl_def Let_def)

lemma enter_run:
  assumes "is_managed fd h c" "hk_enable h"
  shows "do_io_enter fd so h = (if fx_userNonblock c then Inr (IoDirect, h)
     else Inr (IoLoop (getTimeout so c) (hk_next_info h), snd (new_info h)))"
  using assms by (auto simp: do_io_enter_def hk_get_abs is_managed_def new_info_def)

text \<open>
  The non-blocking flag of a managed socket is the user's own: after \<open>fcntl(F_SETFL)\<close> the user
  reads back the flag it set, and calls go straight to the kernel exactly when it is set and suspend
  the fiber otherwise, while the kernel's descriptor stays non-blocking in both cases.
\<close>

lemma user_flag_transparent:
  assumes "is_managed fd h c" "hk_enable h"
  shows "\<exists>h1. hook_fcntl other fd (F_SETFL arg) h = Inr (0, h1) \<and> nonblocking fd (hk_os h1) \<and>
    (\<exists>f :: u32. hook_fcntl other fd F_GETFL h1 = Inr (sint f, h1) \<and> (f AND O_NONBLOCK \<noteq> 0 \<longleftrightarrow> arg AND O_NONBLOCK \<noteq> 0)) \<and>
    (\<exists>s h2. do_io_enter fd so h1 = Inr (s, h2) \<and> (s = IoDirect \<longleftrightarrow> arg AND O_NONBLOCK \<noteq> 0))"
proof -
  let ?c = "c\<lparr>fx_userNonblock := (arg AND O_NONBLOCK \<noteq> 0)\<rparr>"
  obtain h1 where h1: "hook_fcntl other fd (F_SETFL arg) h = Inr (0, h1)" "is_managed fd h1 ?c" "nonblocking fd (hk_os h1)"
    "hk_enable h1 = hk_enable h"
    using set_flags_run [OF assms(1)] .
  then have "hk_enable h1" using assms(2) by simp
  from enter_run [OF h1(2) this, of so] have "\<exists>s h2. do_io_enter fd so h1 = Inr (s, h2) \<and> (s = IoDirect \<longleftrightarrow> arg AND O_NONBLOCK \<noteq> 0)"
    by (auto split: if_splits)
  moreover have "\<exists>f :: u32. hook_fcntl other fd F_GETFL h1 = Inr (sint f, h1) \<and> (f AND O_NONBLOCK \<noteq> 0 \<longleftrightarrow> arg AND O_NONBLOCK \<noteq> 0)"
    using get_flags_run [OF h1(2)] by simp
  ultimately show ?thesis using h1(1,3) by blast
qed

text \<open>A descriptor that \<open>socket\<close> returned is managed from then on.\<close>

lemma socket_managed:
  assumes "hk_enable h" "0 \<le> fd" "64 \<le> length (hk_datas h)" "fm_abs (hk_datas h) fd = None"
    and "os_open (hk_os h) fd" "os_sock (hk_os h) fd"
  shows "\<exists>h' c. hook_socket fd h = Inr (fd, h') \<and> is_managed fd h' c \<and> \<not> fx_userNonblock c \<and>
    nonblocking fd (hk_os h') \<and> hk_enable h' \<and> hk_iom h' = hk_iom h"
proof -
  let ?n = "new_FdCtx fd (hk_os h)"
  obtain ds where "fm_get fd True (hk_datas h, hk_os h) = Inr (Some (fst ?n), ds, snd ?n)" "fm_abs ds = (fm_abs (hk_datas h))(fd \<mapsto> fst ?n)"
    using fm_get_abs [of fd "hk_datas h" True "hk_os h"] assms by auto
  then show ?thesis using new_FdCtx_socket [OF assms(5,6)] assms
    by (auto simp: hook_socket_def hk_get_create_def is_managed_def new_FdCtx_keeps)
qed

lemma demo_managed:
  obtains h c where "hook_socket 5 demo_hook = Inr (5, h)" "is_managed 5 h c" "\<not> fx_userNonblock c" "hk_enable h"
    "hk_iom h = Some demo_server"
proof -
  have "fm_abs (hk_datas demo_hook) 5 = None" using fm_abs_new by (simp add: demo_hook_def)
  moreover have "64 \<le> length (hk_datas demo_hook)" "hk_enable demo_hook" "hk_iom demo_hook = Some demo_server"
    "os_open (hk_os demo_hook) 5" "os_sock (hk_os demo_hook) 5"
    by (simp_all add: demo_hook_def new_FdManager_def sample_os_def)
  ultimately show thesis using socket_managed [of demo_hook 5] that by auto
qed

lemma user_flag_transparent_example:
  "\<exists>h c h1. hook_socket 5 demo_hook = Inr (5, h) \<and> is_managed 5 h c \<and>
     hook_fcntl (\<lambda>_. 0) 5 (F_SETFL O_NONBLOCK) h = Inr (0, h1) \<and> nonblocking 5 (hk_os h1)"
proof -
  obtain h c where "hook_socket 5 demo_hook = Inr (5, h)" "is_managed 5 h c" "hk_enable h" using demo_managed .
  then show ?thesis using user_flag_transparent [of 5 h c "\<lambda>_. 0" O_NONBLOCK] by blast
qed

subsection \<open>Where the hooks fail\<close>

text \<open>\<open>ioctl(FIONBIO, 0)\<close> makes the kernel's socket blocking, and the hooked calls then block the thread.\<close>

lemma fionbio_blocks:
  assumes "is_managed fd h c" "hk_enable h"
  shows "\<exists>h1 to i h2. hook_ioctl_fionbio fd False h = Inr (0, h1) \<and> \<not> nonblocking fd (hk_os h1) \<and>
    do_io_enter fd so h1 = Inr (IoLoop to i, h2)"
proof -
  let ?h = "h\<lparr>hk_datas := fm_set fd (\<lambda>c. c\<lparr>fx_userNonblock := False\<rparr>) (hk_datas h), hk_os := snd (os_fionbio fd False (hk_os h))\<rparr>"
  have "os_open (hk_os h) fd" using assms(1) by (simp add: is_managed_def)
  then have "hook_ioctl_fionbio fd False h = Inr (0, ?h)" "\<not> nonblocking fd (hk_os ?h)"
    using managed_run [OF assms(1)] nonblock_and
    by (auto simp: hook_ioctl_fionbio_def os_fionbio_def Let_def nonblocking_def)
  moreover have "is_managed fd ?h (c\<lparr>fx_userNonblock := False\<rparr>)"
    using assms(1) by (auto simp: is_managed_def fm_set_abs os_fionbio_def)
  then have "do_io_enter fd so ?h = Inr (IoLoop (getTimeout so (c\<lparr>fx_userNonblock := False\<rparr>)) (hk_next_info ?h), snd (new_info ?h))"
    using enter_run [of fd ?h] assms(2) by simp
  ultimately show ?thesis by blast
qed

text \<open>Connecting a descriptor that has no context dereferences a null pointer.\<close>

lemma connect_unknown_crashes:
  "hk_enable h \<Longrightarrow> -1 \<le> fd \<Longrightarrow> fm_abs (hk_datas h) fd = None \<Longrightarrow> connect_start w fd ms call h = Inl NullDeref"
  by (simp add: connect_start_def hk_get_abs)

text \<open>So does waiting on a thread whose scheduler is not the HTTP server.\<close>

lemma wait_elsewhere_crashes: "hk_iom h = None \<Longrightarrow> do_io_try w fd e to i [(-1, EAGAIN)] h = Inl NullDeref"
  by (simp add: do_io_try_def errno_defs)

text \<open>\<open>nanosleep\<close> never returns with the hooks off, and sleeps a thousandth of its time with them on.\<close>

lemma nanosleep_off: "\<not> hk_enable h \<Longrightarrow> hook_nanosleep w sec nsec h = Inl Diverges"
  by (simp add: hook_nanosleep_def)

lemma nanosleep_short:
  assumes "hk_enable h" "0 \<le> sec" "sec < 2000000"
  shows "hook_nanosleep w sec 0 h = sleep_for w (word_of_int sec) h"
  using assms by (simp add: hook_nanosleep_def nanosleep_ms_def cdiv_def to_int32_def)

end
