(* ===== verification/Socket.thy ===== *)
theory Socket
  imports Hook Address
begin

text \<open>
  \<open>sherry/socket.h\<close>, \<open>sherry/socket.cc\<close>: sockets over the hooked calls. Socket creation, closing and the
  timeouts go through the hooks and change their state; the answers of the kernel (the new descriptor,
  \<open>bind\<close>, \<open>connect\<close>, \<open>listen\<close>, the names of the two ends, the data calls) are arguments. Options other
  than the timeouts have no state in the program. Log lines are left out.
\<close>

subsection \<open>State\<close>

definition TCP :: nat where "TCP = 1"
definition UDP :: nat where "UDP = 2"

record socket =
  so_sock :: int
  so_family :: nat
  so_type :: nat
  so_protocol :: nat
  so_isConnected :: bool
  so_local :: "address option"
  so_remote :: "address option"

definition new_Socket :: "nat \<Rightarrow> nat \<Rightarrow> nat \<Rightarrow> socket" where
  "new_Socket family type protocol =
     \<lparr>so_sock = -1, so_family = family, so_type = type, so_protocol = protocol, so_isConnected = False,
      so_local = None, so_remote = None\<rparr>"

definition isValid :: "socket \<Rightarrow> bool" where
  "isValid s \<longleftrightarrow> so_sock s \<noteq> -1"

subsection \<open>Options\<close>

datatype sockopt = SO_REUSEADDR | TCP_NODELAY | Timeout timeout_type "int \<times> int" | OtherOption nat

text \<open>\<open>setOption\<close>; \<open>r\<close> is the answer of the kernel.\<close>

definition setOption :: "int \<Rightarrow> sockopt \<Rightarrow> socket \<Rightarrow> hook \<Rightarrow> (bool \<times> hook) res" where
  "setOption r option s h =
     bindR (case option of
         Timeout type tv \<Rightarrow> hook_setsockopt_timeout (so_sock s) type tv r h
       | _ \<Rightarrow> Inr (r, h)) (\<lambda>(r, h). Inr (r = 0, h))"

definition getOption :: "int \<Rightarrow> bool" where
  "getOption r = (r = 0)"

definition getError :: "int \<Rightarrow> int \<Rightarrow> int \<Rightarrow> int" where
  "getError r error errno = (if getOption r then error else errno)"

definition socket_getTimeout :: "timeout_type \<Rightarrow> socket \<Rightarrow> hook \<Rightarrow> int res" where
  "socket_getTimeout type s h =
     bindR (hk_get (so_sock s) h) (\<lambda>ctx. Inr (case ctx of Some c \<Rightarrow> sint (getTimeout type c) | None \<Rightarrow> -1))"

definition getSendTimeout :: "socket \<Rightarrow> hook \<Rightarrow> int res" where
  "getSendTimeout s h = socket_getTimeout SO_SNDTIMEO s h"

definition getRecvTimeout :: "socket \<Rightarrow> hook \<Rightarrow> int res" where
  "getRecvTimeout s h = socket_getTimeout SO_RCVTIMEO s h"

definition timeval_of :: "int \<Rightarrow> int \<times> int" where
  "timeval_of v = (to_int32 (cdiv v 1000), to_int32 ((v - cdiv v 1000 * 1000) * 1000))"

definition setSendTimeout :: "int \<Rightarrow> int \<Rightarrow> socket \<Rightarrow> hook \<Rightarrow> hook res" where
  "setSendTimeout r v s h = bindR (setOption r (Timeout SO_SNDTIMEO (timeval_of v)) s h) (\<lambda>(_, h). Inr h)"

definition setRecvTimeout :: "int \<Rightarrow> int \<Rightarrow> socket \<Rightarrow> hook \<Rightarrow> hook res" where
  "setRecvTimeout r v s h = bindR (setOption r (Timeout SO_RCVTIMEO (timeval_of v)) s h) (\<lambda>(_, h). Inr h)"

text \<open>\<open>initSock\<close>: the options that are set.\<close>

definition initSock :: "socket \<Rightarrow> sockopt list" where
  "initSock s = SO_REUSEADDR # (if so_type s = TCP then [TCP_NODELAY] else [])"

text \<open>\<open>newSock\<close>; \<open>fd\<close> is the answer of \<open>socket_f\<close>, and the hooks keep the options to the kernel.\<close>

definition newSock :: "int \<Rightarrow> socket \<Rightarrow> hook \<Rightarrow> (socket \<times> hook) res" where
  "newSock fd s h = bindR (hook_socket fd h) (\<lambda>(fd, h). Inr (s\<lparr>so_sock := fd\<rparr>, h))"

definition CreateTCP :: "address \<Rightarrow> socket" where
  "CreateTCP a = new_Socket (getFamily a) TCP 0"

definition connected_UDP :: "nat \<Rightarrow> int \<Rightarrow> hook \<Rightarrow> (socket \<times> hook) res" where
  "connected_UDP family fd h = bindR (newSock fd (new_Socket family UDP 0) h) (\<lambda>(s, h). Inr (s\<lparr>so_isConnected := True\<rparr>, h))"

definition CreateUDP :: "address \<Rightarrow> int \<Rightarrow> hook \<Rightarrow> (socket \<times> hook) res" where
  "CreateUDP a fd h = connected_UDP (getFamily a) fd h"

definition CreateTCPSocket :: socket where
  "CreateTCPSocket = new_Socket AF_INET TCP 0"

definition CreateUDPSocket :: "int \<Rightarrow> hook \<Rightarrow> (socket \<times> hook) res" where
  "CreateUDPSocket fd h = connected_UDP AF_INET fd h"

definition CreateUnixTCPSocket :: socket where
  "CreateUnixTCPSocket = new_Socket AF_UNIX TCP 0"

definition CreateUnixUDPSocket :: socket where
  "CreateUnixUDPSocket = new_Socket AF_UNIX UDP 0"

subsection \<open>Addresses of the two ends\<close>

definition empty_address :: "nat \<Rightarrow> address" where
  "empty_address family =
     (if family = AF_INET then IPv4Address (new_IPv4Address 0 0)
      else if family = AF_INET6 then IPv6Address new_IPv6Address
      else if family = AF_UNIX then new_UnixAddress
      else new_UnknownAddress family)"

text \<open>
  \<open>name\<close> is \<open>getsockname\<close> or \<open>getpeername\<close>: it fills the address and gives its length. A failure is
  answered with an unknown address that is not kept.
\<close>

definition end_address :: "(address \<Rightarrow> (address \<times> nat) option) \<Rightarrow> nat \<Rightarrow> address option \<Rightarrow> address \<times> address option" where
  "end_address name family known =
     (case known of
        Some a \<Rightarrow> (a, known)
      | None \<Rightarrow>
          (case name (empty_address family) of
             None \<Rightarrow> (new_UnknownAddress family, None)
           | Some (a, addrlen) \<Rightarrow>
               let a = (if family = AF_UNIX then setAddrLen addrlen a else a) in (a, Some a)))"

definition getLocalAddress :: "(address \<Rightarrow> (address \<times> nat) option) \<Rightarrow> socket \<Rightarrow> address \<times> socket" where
  "getLocalAddress name s = (case end_address name (so_family s) (so_local s) of (a, l) \<Rightarrow> (a, s\<lparr>so_local := l\<rparr>))"

definition getRemoteAddress :: "(address \<Rightarrow> (address \<times> nat) option) \<Rightarrow> socket \<Rightarrow> address \<times> socket" where
  "getRemoteAddress name s = (case end_address name (so_family s) (so_remote s) of (a, r) \<Rightarrow> (a, s\<lparr>so_remote := r\<rparr>))"

subsection \<open>Connections\<close>

text \<open>The names of the two ends as the kernel gives them.\<close>

record ends =
  en_local :: "address \<Rightarrow> (address \<times> nat) option"
  en_remote :: "address \<Rightarrow> (address \<times> nat) option"

definition socket_init :: "ends \<Rightarrow> int \<Rightarrow> socket \<Rightarrow> hook \<Rightarrow> (bool \<times> socket) res" where
  "socket_init en sock s h =
     bindR (hk_get sock h) (\<lambda>ctx.
       Inr (case ctx of
           Some c \<Rightarrow>
             if fx_isSocket c \<and> \<not> fx_isClosed c then
               let s = s\<lparr>so_sock := sock, so_isConnected := True\<rparr>;
                   s = snd (getLocalAddress (en_local en) s);
                   s = snd (getRemoteAddress (en_remote en) s)
               in (True, s)
             else (False, s)
         | None \<Rightarrow> (False, s)))"

text \<open>\<open>accept\<close>; \<open>newsock\<close> is what the hooked call returned.\<close>

definition socket_accept :: "ends \<Rightarrow> int \<Rightarrow> socket \<Rightarrow> hook \<Rightarrow> socket option res" where
  "socket_accept en newsock s h =
     (if newsock = -1 then Inr None
      else bindR (socket_init en newsock (new_Socket (so_family s) (so_type s) (so_protocol s)) h) (\<lambda>(ok, sock).
        Inr (if ok then Some sock else None)))"

definition ensure_sock :: "int \<Rightarrow> socket \<Rightarrow> hook \<Rightarrow> (socket \<times> hook) res" where
  "ensure_sock fd s h = (if \<not> isValid s then newSock fd s h else Inr (s, h))"

definition socket_bind :: "ends \<Rightarrow> int \<Rightarrow> int \<Rightarrow> address \<Rightarrow> socket \<Rightarrow> hook \<Rightarrow> (bool \<times> socket \<times> hook) res" where
  "socket_bind en fd r addr s h =
     bindR (ensure_sock fd s h) (\<lambda>(s, h).
       Inr (if \<not> isValid s then (False, s, h)
            else if getFamily addr \<noteq> so_family s then (False, s, h)
            else if r \<noteq> 0 then (False, s, h)
            else (True, snd (getLocalAddress (en_local en) s), h)))"

definition socket_close :: "bool \<Rightarrow> sref option \<Rightarrow> int \<times> oskernel \<Rightarrow> socket \<Rightarrow> hook \<Rightarrow> (bool \<times> socket \<times> hook) res" where
  "socket_close ok this answer s h =
     (if \<not> so_isConnected s \<and> so_sock s = -1 then Inr (True, s, h)
      else
        let s = s\<lparr>so_isConnected := False\<rparr> in
        if so_sock s \<noteq> -1
        then bindR (hook_close ok this (so_sock s) answer h) (\<lambda>(_, h). Inr (False, s\<lparr>so_sock := -1\<rparr>, h))
        else Inr (False, s, h))"

text \<open>
  \<open>connect\<close>; \<open>r\<close> is what the hooked \<open>connect\<close> or \<open>connect_with_timeout\<close> returned, with \<open>h\<close> the state after
  it; a failure closes the socket.
\<close>

definition connect_prepare :: "int \<Rightarrow> address \<Rightarrow> socket \<Rightarrow> hook \<Rightarrow> (bool \<times> socket \<times> hook) res" where
  "connect_prepare fd addr s h =
     bindR (ensure_sock fd (s\<lparr>so_remote := Some addr\<rparr>) h) (\<lambda>(s, h).
       Inr (isValid s \<and> getFamily addr = so_family s, s, h))"

definition connect_finish ::
  "ends \<Rightarrow> bool \<Rightarrow> sref option \<Rightarrow> int \<times> oskernel \<Rightarrow> int \<Rightarrow> socket \<Rightarrow> hook \<Rightarrow> (bool \<times> socket \<times> hook) res" where
  "connect_finish en ok this answer r s h =
     (if r \<noteq> 0
      then bindR (socket_close ok this answer s h) (\<lambda>(_, s, h). Inr (False, s, h))
      else
        let s = s\<lparr>so_isConnected := True\<rparr>;
            s = snd (getRemoteAddress (en_remote en) s);
            s = snd (getLocalAddress (en_local en) s)
        in Inr (True, s, h))"

definition socket_listen :: "int \<Rightarrow> socket \<Rightarrow> bool" where
  "socket_listen r s = (isValid s \<and> r = 0)"

text \<open>
  \<open>send\<close>, \<open>sendTo\<close>, \<open>recv\<close> and \<open>recvFrom\<close>, over one buffer or several: \<open>r\<close> is what the hooked call
  returns.
\<close>

definition socket_io :: "int \<Rightarrow> socket \<Rightarrow> int" where
  "socket_io r s = (if so_isConnected s then r else -1)"

text \<open>\<open>cancelRead\<close>, \<open>cancelWrite\<close>, \<open>cancelAccept\<close> and \<open>cancelAll\<close> ask the \<open>IOManager\<close> of the thread.\<close>

definition socket_cancel :: "bool \<Rightarrow> mask \<Rightarrow> socket \<Rightarrow> 'cb iomanager option \<Rightarrow> (bool \<times> 'cb iomanager) res" where
  "socket_cancel ok event s iom =
     (case iom of None \<Rightarrow> Inl NullDeref | Some io \<Rightarrow> cancelEvent ok (so_sock s) event io)"

definition socket_cancelAll :: "bool \<Rightarrow> socket \<Rightarrow> 'cb iomanager option \<Rightarrow> (bool \<times> 'cb iomanager) res" where
  "socket_cancelAll ok s iom =
     (case iom of None \<Rightarrow> Inl NullDeref | Some io \<Rightarrow> cancelAll ok (so_sock s) io)"

definition socket_toString :: "socket \<Rightarrow> string" where
  "socket_toString s =
     ''[Socket sock='' @ dec_int (so_sock s) @ '' is_connected='' @ (if so_isConnected s then ''1'' else ''0'') @
     '' family='' @ dec (so_family s) @ '' type='' @ dec (so_type s) @ '' protocol='' @ dec (so_protocol s) @
     (case so_local s of Some a \<Rightarrow> '' local_address='' @ toString a | None \<Rightarrow> []) @
     (case so_remote s of Some a \<Rightarrow> '' remote_address='' @ toString a | None \<Rightarrow> []) @ '']''"

subsection \<open>Timeouts\<close>

lemma timeval_back:
  assumes "0 \<le> v" "v < 2 ^ 31 * 1000"
  shows "fst (timeval_of v) * 1000 + cdiv (snd (timeval_of v)) 1000 = v"
proof -
  have r: "v - v div 1000 * 1000 = v mod 1000" by (simp add: minus_div_mult_eq_mod)
  have "0 \<le> v mod 1000" "v mod 1000 < 1000" "v div 1000 < 2 ^ 31" "0 \<le> v div 1000" using assms by auto
  then have "int32_ok (v div 1000)" "int32_ok (v mod 1000 * 1000)" by (auto simp: int32_ok_def)
  then have "timeval_of v = (v div 1000, v mod 1000 * 1000)" using assms(1) r by (simp add: timeval_of_def cdiv_def)
  moreover have "cdiv (v mod 1000 * 1000) 1000 = v mod 1000"
    using \<open>0 \<le> v mod 1000\<close> by (subst cdiv_def) (simp only: nonzero_mult_div_cancel_right mult_less_0_iff, auto)
  ultimately show ?thesis by simp
qed

lemma sint_timeout: "0 \<le> v \<Longrightarrow> v < 2 ^ 31 * 1000 \<Longrightarrow> sint (word_of_int v :: u64) = v"
  by (simp add: signed_of_int signed_take_bit_int_eq_self)

lemma set_timeout_run:
  assumes "is_managed fd h c" "hk_enable h" "0 \<le> v" "v < 2 ^ 31 * 1000"
  shows "hook_setsockopt_timeout fd type (timeval_of v) r h =
    Inr (r, h\<lparr>hk_datas := fm_set fd (setTimeout type (word_of_int v)) (hk_datas h)\<rparr>)"
  using assms timeval_back [OF assms(3,4)] by (simp add: hook_setsockopt_timeout_def hk_get_abs is_managed_def)

lemma managed_timeout:
  "is_managed fd h c \<Longrightarrow> is_managed fd (h\<lparr>hk_datas := fm_set fd (setTimeout type w) (hk_datas h)\<rparr>) (setTimeout type w c)"
  by (auto simp: is_managed_def fm_set_abs setTimeout_def)

lemma managed_get: "is_managed (so_sock s) h c \<Longrightarrow> socket_getTimeout type s h = Inr (sint (getTimeout type c))"
  by (simp add: socket_getTimeout_def hk_get_abs is_managed_def)

text \<open>
  C39. A send timeout that is set on a socket is the one that is read back, up to the largest number of
  milliseconds whose seconds fit an \<open>int\<close>, the receive timeout is not touched, and a hooked call that
  has to wait for the socket then waits with exactly that timeout.
\<close>

theorem send_timeout_round_trip:
  assumes "is_managed (so_sock s) h c" "hk_enable h" "0 \<le> v" "v < 2 ^ 31 * 1000" "\<not> fx_userNonblock c"
  shows "\<exists>h' i h''. setSendTimeout r v s h = Inr h' \<and> getSendTimeout s h' = Inr v \<and>
    getRecvTimeout s h' = getRecvTimeout s h \<and>
    do_io_enter (so_sock s) SO_SNDTIMEO h' = Inr (IoLoop (word_of_int v) i, h'')"
proof -
  let ?c = "setTimeout SO_SNDTIMEO (word_of_int v) c"
  let ?h = "h\<lparr>hk_datas := fm_set (so_sock s) (setTimeout SO_SNDTIMEO (word_of_int v)) (hk_datas h)\<rparr>"
  have m: "is_managed (so_sock s) ?h ?c" using managed_timeout [OF assms(1)] .
  have "setSendTimeout r v s h = Inr ?h"
    using set_timeout_run [OF assms(1-4)] by (simp add: setSendTimeout_def setOption_def)
  moreover have "getSendTimeout s ?h = Inr v"
    using managed_get [OF m] sint_timeout [OF assms(3,4)] by (simp add: getSendTimeout_def getTimeout_def setTimeout_def)
  moreover have "getRecvTimeout s ?h = getRecvTimeout s h"
    using managed_get [OF m] managed_get [OF assms(1)] by (simp add: getRecvTimeout_def getTimeout_def setTimeout_def)
  moreover have "do_io_enter (so_sock s) SO_SNDTIMEO ?h = Inr (IoLoop (word_of_int v) (hk_next_info ?h), snd (new_info ?h))"
    using enter_run [OF m, of SO_SNDTIMEO] assms(2,5) by (simp add: getTimeout_def setTimeout_def)
  ultimately show ?thesis by blast
qed

theorem send_timeout_round_trip_witness:
  "\<exists>h h'. hook_socket 5 demo_hook = Inr (5, h) \<and>
     setSendTimeout 0 1500 (CreateTCPSocket\<lparr>so_sock := 5\<rparr>) h = Inr h' \<and> getSendTimeout (CreateTCPSocket\<lparr>so_sock := 5\<rparr>) h' = Inr 1500"
proof -
  obtain h c where h: "hook_socket 5 demo_hook = Inr (5, h)" "is_managed 5 h c" "\<not> fx_userNonblock c" "hk_enable h"
    using demo_managed .
  then show ?thesis using send_timeout_round_trip [of "CreateTCPSocket\<lparr>so_sock := 5\<rparr>" h c 1500 0] by auto
qed

subsection \<open>Closing\<close>

text \<open>
  C38. Closing a socket leaves nothing behind: the descriptor's context is removed, so that a reused
  number starts afresh, no event of it stays registered with the server and its waiting fibers are
  scheduled, the socket is neither valid nor connected, and closing it again does nothing.
\<close>

theorem close_leaves_nothing:
  assumes "0 \<le> so_sock s" "hk_enable h" "fm_abs (hk_datas h) (so_sock s) = Some c" "hk_iom h = Some sv" "sv_inv sv" "this \<noteq> None"
  shows "\<exists>s' h' sv'. socket_close True this answer s h = Inr (False, s', h') \<and> \<not> isValid s' \<and> \<not> so_isConnected s' \<and>
    fm_abs (hk_datas h') = (fm_abs (hk_datas h))(so_sock s := None) \<and> hk_iom h' = Some sv' \<and> sv_inv sv' \<and>
    sv_events sv' = (sv_events sv)(nat (so_sock s) := 0) \<and> socket_close True this answer' s' h' = Inr (True, s', h')"
proof -
  let ?fd = "so_sock s"
  obtain b sv' where sv': "hs_cancelAll True this ?fd sv = Inr (b, sv')" "sv_inv sv'" "sv_events sv' = (sv_events sv)(nat ?fd := 0)"
  proof (cases "sv_events sv (nat ?fd) = 0")
    case False
    then show thesis using that sv_cancelAll_run [OF assms(5,1) False assms(6), of True] by auto
  next
    case True
    then have "hs_cancelAll True this ?fd sv = Inr (False, sv)" using assms(1)
      by (auto simp: hs_cancelAll_def sv_events_def events_at_def nat_less_iff split: if_splits)
    then show thesis using that True assms(5) by (metis fun_upd_triv)
  qed
  obtain ds where ds: "fm_del ?fd (hk_datas h) = Inr ds" "fm_abs ds = (fm_abs (hk_datas h))(?fd := None)"
    using fm_del_abs [OF assms(1)] by blast
  let ?s = "s\<lparr>so_isConnected := False, so_sock := -1\<rparr>"
  let ?h = "h\<lparr>hk_iom := Some sv', hk_datas := ds, hk_os := snd answer\<rparr>"
  have "hook_close True this ?fd answer h = Inr (fst answer, ?h)"
    using assms(1-4) sv'(1) ds(1) by (simp add: hook_close_def hk_get_abs)
  then have "socket_close True this answer s h = Inr (False, ?s, ?h)"
    using assms(1) by (simp add: socket_close_def)
  moreover have "socket_close True this answer' ?s ?h = Inr (True, ?s, ?h)" by (simp add: socket_close_def)
  ultimately show ?thesis using ds(2) sv'(2,3) by (auto simp: isValid_def)
qed

theorem close_leaves_nothing_witness:
  "\<exists>h s' h'. hook_socket 5 demo_hook = Inr (5, h) \<and>
     socket_close True (Some Self) (0, sample_os) (CreateTCPSocket\<lparr>so_sock := 5\<rparr>) h = Inr (False, s', h') \<and>
     fm_abs (hk_datas h') 5 = None"
proof -
  obtain h c where h: "hook_socket 5 demo_hook = Inr (5, h)" "is_managed 5 h c" "hk_enable h" "hk_iom h = Some demo_server"
    using demo_managed .
  then have "fm_abs (hk_datas h) 5 = Some c" by (simp add: is_managed_def)
  then show ?thesis
    using close_leaves_nothing [of "CreateTCPSocket\<lparr>so_sock := 5\<rparr>" h c demo_server "Some Self" "(0, sample_os)"] h
      sv_inv_new [OF demo_server_new] by fastforce
qed

subsection \<open>Stale addresses\<close>

text \<open>
  Closing keeps the addresses: the local address of the first connection is reported for the second,
  whatever the kernel says.
\<close>

lemma local_address_stale:
  assumes "so_local s = Some a" "socket_close ok this answer s h = Inr (b, s1, h1)"
    and "connect_prepare fd addr s1 h1 = Inr (True, s2, h2)" "connect_finish en ok this answer 0 s2 h2 = Inr (b', s3, h3)"
  shows "fst (getLocalAddress (en_local en) s3) = a"
proof -
  have "so_local s1 = Some a" using assms(1,2)
    by (auto simp: socket_close_def Let_def res_simps split: if_splits)
  then have "so_local s2 = Some a" using assms(3)
    by (auto simp: connect_prepare_def ensure_sock_def newSock_def res_simps split: if_splits)
  then show ?thesis using assms(4)
    by (auto simp: connect_finish_def Let_def getLocalAddress_def getRemoteAddress_def end_address_def split: prod.splits option.splits)
qed

text \<open>A bind to an address of another family creates a descriptor and keeps it.\<close>

lemma bind_other_family:
  assumes "\<not> isValid s" "getFamily addr \<noteq> so_family s" "hook_socket fd h = Inr (fd, h')" "fd \<noteq> -1"
  shows "\<exists>s'. socket_bind en fd r addr s h = Inr (False, s', h') \<and> so_sock s' = fd"
  using assms by (auto simp: socket_bind_def ensure_sock_def newSock_def isValid_def)

text \<open>The cancelling operations dereference a null pointer on the threads of the HTTP server.\<close>

lemma cancel_without_iomanager: "socket_cancel ok e s None = Inl NullDeref" "socket_cancelAll ok s None = Inl NullDeref"
  by (simp_all add: socket_cancel_def socket_cancelAll_def)

end
