(* ===== verification/HookRun.thy ===== *)
theory HookRun
  imports Hook
begin

text \<open>
  \<open>sherry/hook.cc\<close>: a whole hooked call, from \<open>do_io\<close>'s first line to its result. A round is one turn of
  the loop at \<open>retry\<close>: what the fiber brings to a wait, the results of the original call, and what wakes
  the fiber if it waits. The result is compared with that of a blocking call.
\<close>

subsection \<open>The hooked calls\<close>

datatype io_call =
    Call_accept | Call_read | Call_readv | Call_recv | Call_recvfrom | Call_recvmsg
  | Call_write | Call_writev | Call_send | Call_sendto | Call_sendmsg

fun call_event :: "io_call \<Rightarrow> mask" where
  "call_event Call_accept = READ"
| "call_event Call_read = READ"
| "call_event Call_readv = READ"
| "call_event Call_recv = READ"
| "call_event Call_recvfrom = READ"
| "call_event Call_recvmsg = READ"
| "call_event Call_write = WRITE"
| "call_event Call_writev = WRITE"
| "call_event Call_send = WRITE"
| "call_event Call_sendto = WRITE"
| "call_event Call_sendmsg = WRITE"

fun call_timeout :: "io_call \<Rightarrow> timeout_type" where
  "call_timeout Call_accept = SO_RCVTIMEO"
| "call_timeout Call_read = SO_RCVTIMEO"
| "call_timeout Call_readv = SO_RCVTIMEO"
| "call_timeout Call_recv = SO_RCVTIMEO"
| "call_timeout Call_recvfrom = SO_RCVTIMEO"
| "call_timeout Call_recvmsg = SO_RCVTIMEO"
| "call_timeout Call_write = SO_SNDTIMEO"
| "call_timeout Call_writev = SO_SNDTIMEO"
| "call_timeout Call_send = SO_SNDTIMEO"
| "call_timeout Call_sendto = SO_SNDTIMEO"
| "call_timeout Call_sendmsg = SO_SNDTIMEO"

text \<open>
  What wakes a waiting fiber, in the idle loop of the server: the descriptor is reported with \<open>evs\<close>, or
  the timers that are due at \<open>now\<close> are taken out and their callbacks run; \<open>a0\<close> is the address of the
  \<open>now_timer\<close> there.
\<close>

datatype wake = ByEvent mask | ByTimer nat u64

record io_round =
  r_waiter :: waiter
  r_calls :: "(int \<times> int) list"
  r_wake :: wake

definition fire_timers :: "nat \<Rightarrow> u64 \<Rightarrow> httpserver \<Rightarrow> (server_cb option list \<times> httpserver) res" where
  "fire_timers a0 now sv =
     bindR (listExpiredCb a0 now [] (sv_timers sv)) (\<lambda>(cbs, tm).
       let sv = sv\<lparr>sv_timers := tm\<rparr> in
       Inr (cbs, if cbs \<noteq> [] then sv_schedule_range (map (\<lambda>cb. cb_task cb (-1)) cbs) sv else sv))"

definition wake_up :: "int \<Rightarrow> mask \<Rightarrow> nat \<Rightarrow> wake \<Rightarrow> hook \<Rightarrow> hook res" where
  "wake_up fd event i wk h =
     (case hk_iom h of
        None \<Rightarrow> Inl NullDeref
      | Some sv \<Rightarrow>
          case wk of
            ByEvent evs \<Rightarrow> bindR (hs_idle_event True (Some Self) (Ready (nat fd) evs) sv) (\<lambda>sv. Inr (h\<lparr>hk_iom := Some sv\<rparr>))
          | ByTimer a0 now \<Rightarrow>
              bindR (fire_timers a0 now sv) (\<lambda>(cbs, sv).
                if Some (TimerCb i) \<in> set cbs then do_io_timeout True (Some Self) fd event i (h\<lparr>hk_iom := Some sv\<rparr>)
                else Inr (h\<lparr>hk_iom := Some sv\<rparr>)))"

text \<open>The loop at \<open>retry\<close>; when the rounds run out it has not returned.\<close>

fun do_io_loop :: "int \<Rightarrow> mask \<Rightarrow> u64 \<Rightarrow> nat \<Rightarrow> io_round list \<Rightarrow> hook \<Rightarrow> (int \<times> hook) res" where
  "do_io_loop fd event to i [] h = Inl Diverges"
| "do_io_loop fd event to i (r # rs) h =
     bindR (do_io_try (r_waiter r) fd event to i (r_calls r) h) (\<lambda>(nx, h).
       case nx of
         IoRet n \<Rightarrow> Inr (n, h)
       | IoWait timer \<Rightarrow>
           bindR (wake_up fd event i (r_wake r) h) (\<lambda>h.
           bindR (do_io_resume timer i h) (\<lambda>(ret, h).
             case ret of
               Some n \<Rightarrow> Inr (n, h)
             | None \<Rightarrow> do_io_loop fd event to i rs h)))"

text \<open>A hooked call; \<open>direct\<close> is the result of the original call where it is called at once.\<close>

definition hook_io :: "io_call \<Rightarrow> int \<Rightarrow> int \<times> int \<Rightarrow> io_round list \<Rightarrow> hook \<Rightarrow> (int \<times> hook) res" where
  "hook_io call fd direct rounds h =
     bindR (do_io_enter fd (call_timeout call) h) (\<lambda>(start, h).
       case start of
         IoDirect \<Rightarrow> Inr (fst direct, h\<lparr>hk_errno := snd direct\<rparr>)
       | IoFailed \<Rightarrow> Inr (-1, h)
       | IoLoop to i \<Rightarrow> do_io_loop fd (call_event call) to i rounds h)"

subsection \<open>A blocking call\<close>

text \<open>
  The reference: what a blocking call with a timeout returns when the kernel answers as in the rounds.
  It goes on over interruptions, waits while there is nothing, and ends with the timeout.
\<close>

fun blocking_call :: "io_round list \<Rightarrow> (int \<times> int) option" where
  "blocking_call [] = None"
| "blocking_call (r # rs) =
     (case skip_eintr (r_calls r) of
        Inl _ \<Rightarrow> None
      | Inr (n, err) \<Rightarrow>
          if \<not> (n = -1 \<and> err = EAGAIN) then Some (n, err)
          else case r_wake r of
            ByTimer _ _ \<Rightarrow> Some (-1, ETIMEDOUT)
          | ByEvent _ \<Rightarrow> blocking_call rs)"

text \<open>
  The rounds that the server can give: the kernel accepts the registrations, the fiber runs on the
  server, the addresses of new timers are free, the descriptor is reported with the event that is
  waited for, and a timer ends the wait only when there is one and it is due.
\<close>

definition round_ok :: "mask \<Rightarrow> u64 \<Rightarrow> nat set \<Rightarrow> io_round \<Rightarrow> bool" where
  "round_ok event to used r \<longleftrightarrow>
     (let w = r_waiter r in
      w_ok w \<and> w_this w = Some Self \<and> snd (w_fiber w) = EXEC \<and> w_timer w \<notin> used \<and>
      (case r_wake r of
         ByEvent evs \<Rightarrow> real_events evs = event
       | ByTimer a0 now \<Rightarrow> to \<noteq> -1 \<and> a0 \<notin> insert (w_timer w) used \<and> w_now w + to \<le> now))"

subsection \<open>Waking up\<close>

lemma tickle_fields [simp]:
  "sv_ctxs (sv_tickle sv) = sv_ctxs sv" "sv_epoll (sv_tickle sv) = sv_epoll sv" "sv_timers (sv_tickle sv) = sv_timers sv"
  by (simp_all add: sv_tickle_def)

lemma schedule_range_fields [simp]:
  "sv_ctxs (sv_schedule_range fts sv) = sv_ctxs sv" "sv_epoll (sv_schedule_range fts sv) = sv_epoll sv"
  "sv_timers (sv_schedule_range fts sv) = sv_timers sv"
  by (simp_all add: sv_schedule_range_def Let_def split: prod.split)

lemma triggered_ctx:
  assumes "hs_triggerEvent this fd e sv = Inr sv'" "event_ok e" "fd < length (sv_ctxs sv)"
  shows "sv_timers sv' = sv_timers sv" "hc_cb (ctx_of e (sv_ctxs sv' ! fd)) = hc_cb (ctx_of e (sv_ctxs sv ! fd))"
    "length (sv_ctxs sv') = length (sv_ctxs sv)"
proof -
  have post: "sv_post sch ft sv1 = Inr sv2 \<Longrightarrow> sv_timers sv2 = sv_timers sv1 \<and> sv_ctxs sv2 = sv_ctxs sv1" for sch ft sv1 sv2
    by (cases "(sch, ft, sv1)" rule: sv_post.cases) (auto simp: sv_schedule_def Let_def split: prod.splits if_splits)
  show "sv_timers sv' = sv_timers sv" "hc_cb (ctx_of e (sv_ctxs sv' ! fd)) = hc_cb (ctx_of e (sv_ctxs sv ! fd))"
    "length (sv_ctxs sv') = length (sv_ctxs sv)"
    using assms by (auto simp: hs_triggerEvent_def getContext_ok Let_def sv_set_def split: if_splits dest!: post)
qed

lemma trigger_if_ctx:
  assumes "hs_trigger_if b this fd e sv = Inr sv'" "event_ok e" "fd < length (sv_ctxs sv)"
  shows "sv_timers sv' = sv_timers sv" "hc_cb (ctx_of e (sv_ctxs sv' ! fd)) = hc_cb (ctx_of e (sv_ctxs sv ! fd))"
    "length (sv_ctxs sv') = length (sv_ctxs sv)"
  using assms triggered_ctx [of this fd e sv] by (auto simp: hs_trigger_if_def res_simps sv_pending_dec_def split: if_splits)

text \<open>A report of the event that the fiber waits for takes the registration away.\<close>

lemma event_wakes:
  assumes inv: "sv_inv sv" "event_ok e" and fd: "fd < length (sv_ctxs sv)" and reg: "has_event (sv_events sv fd) e"
    and evs: "real_events evs = e" and ctx: "\<not> hc_persistent (ctx_of e (sv_ctxs sv ! fd))"
  shows "\<exists>sv'. hs_idle_event True (Some Self) (Ready fd evs) sv = Inr sv' \<and> sv_inv sv' \<and>
    sv_events sv' = (sv_events sv)(fd := sv_events sv fd AND NOT e) \<and> sv_timers sv' = sv_timers sv \<and>
    length (sv_ctxs sv') = length (sv_ctxs sv) \<and> hc_cb (ctx_of e (sv_ctxs sv' ! fd)) = hc_cb (ctx_of e (sv_ctxs sv ! fd))"
proof -
  have "mask_events e (sv_ctxs sv ! fd) = e"
    using inv(2) ctx by (auto simp: mask_events_def event_ok_def ctx_of_def mask_defs)
  moreover have nz: "sv_events sv fd AND e \<noteq> 0" using reg by (simp add: has_event_def)
  ultimately obtain sv' where 1: "hs_idle_event True (Some Self) (Ready fd evs) sv = Inr sv'" "sv_inv sv'"
      "sv_events sv' = (sv_events sv)(fd := sv_events sv fd AND NOT e)"
    using hs_idle_event_run [OF inv(1) fd, of "Some Self" evs] evs by auto
  have nz': "sv_events sv fd \<noteq> 0" using nz by auto
  obtain ep sv1 where s: "hs_trigger_if (e AND READ \<noteq> 0) (Some Self) fd READ (sv\<lparr>sv_epoll := ep\<rparr>) = Inr sv1"
      "hs_trigger_if (e AND WRITE \<noteq> 0) (Some Self) fd WRITE sv1 = Inr sv'"
    using 1(1) nz evs fd sv_ctl [OF inv(1) fd nz', of True "sv_events sv fd AND NOT (mask_events e (sv_ctxs sv ! fd))"]
    by (auto simp: hs_idle_event_def Let_def sv_at res_simps simp del: epoll_ctl.simps split: if_splits prod.splits)
  have "sv_timers sv' = sv_timers sv \<and> length (sv_ctxs sv') = length (sv_ctxs sv) \<and>
      hc_cb (ctx_of e (sv_ctxs sv' ! fd)) = hc_cb (ctx_of e (sv_ctxs sv ! fd))"
  proof (cases "e = READ")
    case True
    then have "sv1 = sv'" using s(2) by (simp add: hs_trigger_if_def mask_defs)
    then show ?thesis using trigger_if_ctx [OF s(1)] fd True by (simp add: event_ok_def)
  next
    case False
    then have "e = WRITE" using inv(2) by (simp add: event_ok_def)
    then have "sv1 = sv\<lparr>sv_epoll := ep\<rparr>" using s(1) by (simp add: hs_trigger_if_def mask_defs)
    then show ?thesis using trigger_if_ctx [OF s(2)] fd \<open>e = WRITE\<close> by (simp add: event_ok_def)
  qed
  then show ?thesis using 1 by blast
qed

text \<open>When the timer of a wait is due, its callback is among those that run, and it is gone.\<close>

lemma timer_fires:
  assumes "timer_inv (sv_timers sv)" "t \<in> set (m_timers (sv_timers sv))" "t_heap (sv_timers sv) t = new_Timer n ms (Some (TimerCb i)) False"
    and "a0 \<notin> set (m_timers (sv_timers sv))" "n + ms \<le> now"
  shows "\<exists>cbs sv'. fire_timers a0 now sv = Inr (cbs, sv') \<and> Some (TimerCb i) \<in> set cbs \<and> timer_inv (sv_timers sv') \<and>
    set (m_timers (sv_timers sv')) \<subseteq> set (m_timers (sv_timers sv)) - {t} \<and> m_cb (t_heap (sv_timers sv') t) = None \<and>
    sv_ctxs sv' = sv_ctxs sv \<and> sv_epoll sv' = sv_epoll sv"
proof -
  let ?tm = "sv_timers sv"
  define due where "due = filter (\<lambda>t. (now < m_previouseTime ?tm \<and> now < m_previouseTime ?tm - 60 * 60 * 1000) \<or> m_next (t_heap ?tm t) \<le> now) (m_timers ?tm)"
  obtain tm' where tm': "listExpiredCb a0 now [] ?tm = Inr (map (\<lambda>t. m_cb (t_heap ?tm t)) due, tm')" "timer_inv tm'"
      "set (m_timers tm') = {t \<in> set (m_timers ?tm). t \<in> set due \<longrightarrow> m_recurring (t_heap ?tm t)}"
      "t_heap tm' = (\<lambda>t. if t \<in> set due then fired now (t_heap ?tm t) else t_heap ?tm t)"
    using listExpiredCb_correct [OF assms(1,4), of now "[]"] unfolding due_def by auto
  have t: "t \<in> set due" using assms(2,3,5) by (simp add: due_def new_Timer_def)
  then have "Some (TimerCb i) \<in> set (map (\<lambda>t. m_cb (t_heap ?tm t)) due)" using assms(3) by (force simp: new_Timer_def)
  moreover from this have "map (\<lambda>t. m_cb (t_heap ?tm t)) due \<noteq> []" by auto
  moreover have "m_cb (t_heap tm' t) = None" "t \<notin> set (m_timers tm')" using t tm'(3,4) assms(3) by (simp_all add: fired_def new_Timer_def)
  ultimately show ?thesis using tm' by (auto simp: fire_timers_def Let_def)
qed

subsection \<open>One round\<close>

text \<open>
  The state of a call between its rounds: the server is consistent, the event of the descriptor is free
  and has no callback, and the condition of the timers has not been set.
\<close>

definition between :: "int \<Rightarrow> mask \<Rightarrow> nat \<Rightarrow> (nat \<Rightarrow> mask) \<Rightarrow> nat set \<Rightarrow> hook \<Rightarrow> bool" where
  "between fd e i events used h \<longleftrightarrow> hk_info h i = Some 0 \<and>
     (\<exists>sv. hk_iom h = Some sv \<and> sv_inv sv \<and> timer_inv (sv_timers sv) \<and> sv_events sv = events \<and>
        set (m_timers (sv_timers sv)) \<subseteq> used \<and> \<not> has_event (events (nat fd)) e \<and>
        (nat fd < length (sv_ctxs sv) \<longrightarrow> hc_cb (ctx_of e (sv_ctxs sv ! nat fd)) = None))"

text \<open>The state after a call: nothing of it is left in the server.\<close>

definition over :: "nat \<Rightarrow> (nat \<Rightarrow> mask) \<Rightarrow> nat set \<Rightarrow> hook \<Rightarrow> bool" where
  "over i events used h \<longleftrightarrow> hk_info h i = None \<and>
     (\<exists>sv. hk_iom h = Some sv \<and> sv_inv sv \<and> timer_inv (sv_timers sv) \<and> sv_events sv = events \<and>
        set (m_timers (sv_timers sv)) \<subseteq> used)"

lemma cancel_timer_run:
  assumes "timer_inv (sv_timers sv)" "set (m_timers (sv_timers sv)) \<subseteq> insert t used" "t \<notin> used"
    "m_cb (t_heap (sv_timers sv) t) = None \<Longrightarrow> t \<notin> set (m_timers (sv_timers sv))"
  shows "\<exists>tm. cancel_timer (Some t) sv = Inr (sv\<lparr>sv_timers := tm\<rparr>) \<and> timer_inv tm \<and> set (m_timers tm) \<subseteq> used"
proof (cases "m_cb (t_heap (sv_timers sv) t)")
  case None
  then have "cancel t (sv_timers sv) = Inr (False, sv_timers sv)" using cancel_cases [OF assms(1)] by simp
  then show ?thesis using assms None by (intro exI [of _ "sv_timers sv"]) (auto simp: cancel_timer_def)
next
  case (Some c)
  let ?tm = "(sv_timers sv)\<lparr>t_heap := (t_heap (sv_timers sv))(t := (t_heap (sv_timers sv) t)\<lparr>m_cb := None\<rparr>),
    m_timers := remove1 t (m_timers (sv_timers sv))\<rparr>"
  have c: "cancel t (sv_timers sv) = Inr (True, ?tm)" using cancel_cases [OF assms(1), of t] Some by simp
  have "distinct (m_timers (sv_timers sv))" using assms(1) tl.sorted_distinct by (auto simp: timer_inv_def)
  then have "set (m_timers ?tm) \<subseteq> used" using assms(2) by auto
  then show ?thesis using c cancel_inv [OF assms(1) c] by (intro exI [of _ ?tm]) (simp add: cancel_timer_def)
qed

text \<open>The first half of a round in which there is nothing: the fiber waits, registered, with its timer.\<close>

lemma round_waits:
  assumes h: "between fd e i events used h" and fd: "0 \<le> fd" "event_ok e" and r: "round_ok e to used r"
    and eagain: "skip_eintr (r_calls r) = Inr (-1, EAGAIN)"
  obtains sv timer where "do_io_try (r_waiter r) fd e to i (r_calls r) h = Inr (IoWait timer, h\<lparr>hk_errno := EAGAIN, hk_iom := Some sv\<rparr>)"
    "sv_inv sv" "timer_inv (sv_timers sv)" "sv_events sv = events(nat fd := events (nat fd) OR e)" "nat fd < length (sv_ctxs sv)"
    "hc_cb (ctx_of e (sv_ctxs sv ! nat fd)) = None" "\<not> hc_persistent (ctx_of e (sv_ctxs sv ! nat fd))"
    "if to = -1 then timer = None \<and> set (m_timers (sv_timers sv)) \<subseteq> used
     else timer = Some (w_timer (r_waiter r)) \<and> set (m_timers (sv_timers sv)) \<subseteq> insert (w_timer (r_waiter r)) used \<and>
       w_timer (r_waiter r) \<in> set (m_timers (sv_timers sv)) \<and>
       t_heap (sv_timers sv) (w_timer (r_waiter r)) = new_Timer (w_now (r_waiter r)) to (Some (TimerCb i)) False"
proof -
  let ?w = "r_waiter r"
  obtain sv0 where sv0: "hk_iom h = Some sv0" "sv_inv sv0" "timer_inv (sv_timers sv0)" "sv_events sv0 = events"
      "set (m_timers (sv_timers sv0)) \<subseteq> used" and cw: "can_wait ?w fd e sv0"
    using h fd r by (auto simp: between_def can_wait_def round_ok_def Let_def)
  have fresh: "w_timer ?w \<notin> set (m_timers (sv_timers sv0))" "w_timer ?w \<notin> used" using r sv0(5) by (auto simp: round_ok_def Let_def)
  obtain sv where sv: "wait_for ?w fd e to i sv0 = Inr (if to = -1 then None else Some (w_timer ?w), 0, sv)" "sv_inv sv" "timer_inv (sv_timers sv)"
      "sv_events sv = events(nat fd := events (nat fd) OR e)" "nat fd < length (sv_ctxs sv)"
      "hc_cb (ctx_of e (sv_ctxs sv ! nat fd)) = None" "\<not> hc_persistent (ctx_of e (sv_ctxs sv ! nat fd))"
    and tm: "sv_timers sv = sv_timers (if to \<noteq> -1 then sv_addConditionTimer (w_timer ?w) (w_now ?w) to (TimerCb i) sv0 else sv0)"
    using waiting [OF cw, of to i] sv0(4) by (auto simp: Let_def)
  have "do_io_try ?w fd e to i (r_calls r) h =
      Inr (IoWait (if to = -1 then None else Some (w_timer ?w)), h\<lparr>hk_errno := EAGAIN, hk_iom := Some sv\<rparr>)"
    using sv(1) sv0(1) eagain by (simp add: do_io_try_def Let_def)
  from that [OF this sv(2-7)] show thesis
    using tm sv0(5) condition_timer(6,7) [OF sv0(3) fresh(1), of "w_now ?w" to "TimerCb i"] by (auto split: if_splits)
qed

text \<open>The event comes: the fiber resumes and tries again, and the server is as before the round.\<close>

lemma round_event:
  assumes h: "between fd e i events used h" and fd: "0 \<le> fd" "event_ok e" and r: "round_ok e to used r"
    and eagain: "skip_eintr (r_calls r) = Inr (-1, EAGAIN)" and wk: "r_wake r = ByEvent evs"
  shows "\<exists>timer h1 h2 h3. do_io_try (r_waiter r) fd e to i (r_calls r) h = Inr (IoWait timer, h1) \<and>
    wake_up fd e i (r_wake r) h1 = Inr h2 \<and> do_io_resume timer i h2 = Inr (None, h3) \<and> between fd e i events used h3"
proof -
  let ?t = "w_timer (r_waiter r)"
  have free: "\<not> has_event (events (nat fd)) e" "hk_info h i = Some 0" using h by (auto simp: between_def)
  have evs: "real_events evs = e" "?t \<notin> used" using r wk by (simp_all add: round_ok_def Let_def)
  obtain sv timer where t: "do_io_try (r_waiter r) fd e to i (r_calls r) h = Inr (IoWait timer, h\<lparr>hk_errno := EAGAIN, hk_iom := Some sv\<rparr>)"
    and sv: "sv_inv sv" "timer_inv (sv_timers sv)" "sv_events sv = events(nat fd := events (nat fd) OR e)" "nat fd < length (sv_ctxs sv)"
      "hc_cb (ctx_of e (sv_ctxs sv ! nat fd)) = None" "\<not> hc_persistent (ctx_of e (sv_ctxs sv ! nat fd))"
    and tm: "if to = -1 then timer = None \<and> set (m_timers (sv_timers sv)) \<subseteq> used
     else timer = Some ?t \<and> set (m_timers (sv_timers sv)) \<subseteq> insert ?t used \<and>
       ?t \<in> set (m_timers (sv_timers sv)) \<and> t_heap (sv_timers sv) ?t = new_Timer (w_now (r_waiter r)) to (Some (TimerCb i)) False"
    by (rule round_waits [OF h fd r eagain])
  have "has_event (sv_events sv (nat fd)) e" using sv(3) registered_mask(1) [OF fd(2) free(1)] by simp
  then obtain sv2 where sv2: "hs_idle_event True (Some Self) (Ready (nat fd) evs) sv = Inr sv2" "sv_inv sv2" "sv_timers sv2 = sv_timers sv"
      "sv_events sv2 = events" "hc_cb (ctx_of e (sv_ctxs sv2 ! nat fd)) = None"
    using event_wakes [OF sv(1) fd(2) sv(4) _ evs(1) sv(6)] sv(3,5) registered_mask(2) [OF fd(2) free(1)] by (auto simp: fun_eq_iff)
  have "\<exists>tm'. cancel_timer timer sv2 = Inr (sv2\<lparr>sv_timers := tm'\<rparr>) \<and> timer_inv tm' \<and> set (m_timers tm') \<subseteq> used"
  proof (cases "to = -1")
    case True
    then have "timer = None" "timer_inv (sv_timers sv2)" "set (m_timers (sv_timers sv2)) \<subseteq> used" using tm sv(2) sv2(3) by auto
    then show ?thesis by (intro exI [of _ "sv_timers sv2"]) (simp add: cancel_timer_def)
  next
    case False
    then show ?thesis using tm sv(2) sv2(3) evs(2) cancel_timer_run [of sv2 ?t used] by (auto simp: new_Timer_def)
  qed
  then obtain tm' where c: "cancel_timer timer sv2 = Inr (sv2\<lparr>sv_timers := tm'\<rparr>)" "timer_inv tm'" "set (m_timers tm') \<subseteq> used" by blast
  let ?h3 = "h\<lparr>hk_errno := EAGAIN, hk_iom := Some (sv2\<lparr>sv_timers := tm'\<rparr>)\<rparr>"
  have "between fd e i events used ?h3" using free sv2 c sv_inv_cong [of "sv2\<lparr>sv_timers := tm'\<rparr>" sv2]
    by (simp add: between_def sv_events_def)
  moreover have "do_io_resume timer i (h\<lparr>hk_errno := EAGAIN, hk_iom := Some sv2\<rparr>) = Inr (None, ?h3)"
    using c(1) free(2) by (simp add: do_io_resume_def)
  ultimately show ?thesis using t sv2(1) wk by (auto simp: wake_up_def)
qed

lemma cancel_keeps_timers:
  assumes "hs_cancelEvent ok this fd e sv = Inr (b, sv')" "event_ok e"
  shows "sv_timers sv' = sv_timers sv"
proof -
  have "nat fd < length (sv_ctxs sv)" if "hs_no_event fd e sv = Inr False"
    using that by (auto simp: hs_no_event_def split: if_splits)
  then show ?thesis using assms
    by (auto simp: hs_cancelEvent_def make_transient_def getContext_ok res_simps sv_pending_dec_def sv_set_def
        split: if_splits prod.splits dest!: triggered_ctx(1))
qed

text \<open>The timer comes first: the call is over with \<open>ETIMEDOUT\<close>, and the server is as before it.\<close>

lemma round_timer:
  assumes h: "between fd e i events used h" and fd: "0 \<le> fd" "event_ok e" and r: "round_ok e to used r"
    and eagain: "skip_eintr (r_calls r) = Inr (-1, EAGAIN)" and wk: "r_wake r = ByTimer a0 now"
  shows "\<exists>timer h1 h2 h3. do_io_try (r_waiter r) fd e to i (r_calls r) h = Inr (IoWait timer, h1) \<and>
    wake_up fd e i (r_wake r) h1 = Inr h2 \<and> do_io_resume timer i h2 = Inr (Some (-1), h3) \<and> hk_errno h3 = ETIMEDOUT \<and> over i events used h3"
proof -
  let ?t = "w_timer (r_waiter r)"
  have free: "\<not> has_event (events (nat fd)) e" "hk_info h i = Some 0" using h by (auto simp: between_def)
  have due: "to \<noteq> -1" "a0 \<notin> insert ?t used" "w_now (r_waiter r) + to \<le> now" "?t \<notin> used"
    using r wk by (simp_all add: round_ok_def Let_def)
  obtain sv where t: "do_io_try (r_waiter r) fd e to i (r_calls r) h = Inr (IoWait (Some ?t), h\<lparr>hk_errno := EAGAIN, hk_iom := Some sv\<rparr>)"
    and sv: "sv_inv sv" "timer_inv (sv_timers sv)" "sv_events sv = events(nat fd := events (nat fd) OR e)"
    and tm: "set (m_timers (sv_timers sv)) \<subseteq> insert ?t used" "?t \<in> set (m_timers (sv_timers sv))"
      "t_heap (sv_timers sv) ?t = new_Timer (w_now (r_waiter r)) to (Some (TimerCb i)) False"
    by (rule round_waits [OF h fd r eagain]) (use due(1) in simp)
  have "a0 \<notin> set (m_timers (sv_timers sv))" using due(2) tm(1) by auto
  then obtain cbs sv1 where f: "fire_timers a0 now sv = Inr (cbs, sv1)" "Some (TimerCb i) \<in> set cbs"
    and sv1: "timer_inv (sv_timers sv1)" "set (m_timers (sv_timers sv1)) \<subseteq> set (m_timers (sv_timers sv)) - {?t}"
      "m_cb (t_heap (sv_timers sv1) ?t) = None" "sv_ctxs sv1 = sv_ctxs sv" "sv_epoll sv1 = sv_epoll sv"
    using timer_fires [OF sv(2) tm(2,3) _ due(3)] by blast
  have inv1: "sv_inv sv1" "sv_events sv1 = sv_events sv" using sv(1) sv1(4,5) sv_inv_cong [of sv1 sv] by (simp_all add: sv_events_def)
  have "has_event (sv_events sv1 (nat fd)) e" using inv1(2) sv(3) registered_mask(1) [OF fd(2) free(1)] by simp
  then obtain sv2 where c: "hs_cancelEvent True (Some Self) fd e sv1 = Inr (True, sv2)" "sv_inv sv2" "sv_events sv2 = events"
    using sv_cancel_run [OF inv1(1) fd, of "Some Self" True] inv1(2) sv(3) registered_mask(2) [OF fd(2) free(1)] by (auto simp: fun_eq_iff)
  let ?h2 = "h\<lparr>hk_errno := EAGAIN, hk_info := (hk_info h)(i := Some ETIMEDOUT), hk_iom := Some sv2\<rparr>"
  have up: "wake_up fd e i (r_wake r) (h\<lparr>hk_errno := EAGAIN, hk_iom := Some sv\<rparr>) = Inr ?h2"
    using f c(1) free(2) wk by (simp add: wake_up_def do_io_timeout_def)
  have tm2: "sv_timers sv2 = sv_timers sv1" by (rule cancel_keeps_timers [OF c(1) fd(2)])
  have "cancel ?t (sv_timers sv2) = Inr (False, sv_timers sv2)"
    unfolding tm2 using cancel_cases [OF sv1(1), of ?t] sv1(3) by simp
  then have ct: "cancel_timer (Some ?t) sv2 = Inr sv2" by (simp add: cancel_timer_def)
  define h3 where "h3 = end_info i (?h2\<lparr>hk_errno := ETIMEDOUT\<rparr>)"
  have "do_io_resume (Some ?t) i ?h2 = Inr (Some (-1), h3)" using ct by (simp add: do_io_resume_def h3_def ETIMEDOUT_def)
  moreover have "over i events used h3" "hk_errno h3 = ETIMEDOUT"
    using c sv1(1,2) tm(1) by (auto simp: h3_def over_def end_info_def tm2)
  ultimately show ?thesis using t up by blast
qed

subsection \<open>Hooked calls are blocking calls\<close>

lemma loop_is_blocking:
  assumes "between fd e i events used h" "0 \<le> fd" "event_ok e" "list_all (round_ok e to used) rounds" "blocking_call rounds = Some (n, err)"
  shows "\<exists>h'. do_io_loop fd e to i rounds h = Inr (n, h') \<and> hk_errno h' = err \<and> over i events used h'"
  using assms
proof (induction rounds arbitrary: h)
  case (Cons r rs)
  note fd = Cons.prems(2,3) and h = Cons.prems(1)
  have r: "round_ok e to used r" using Cons.prems(4) by simp
  obtain m er where m: "skip_eintr (r_calls r) = Inr (m, er)" using Cons.prems(5) by (auto split: sum.splits)
  show ?case
  proof (cases "m = -1 \<and> er = EAGAIN")
    case False
    then have "(m, er) = (n, err)" using Cons.prems(5) m by auto
    moreover have "over i events used (end_info i (h\<lparr>hk_errno := er\<rparr>))" using h by (auto simp: over_def between_def end_info_def)
    ultimately show ?thesis using m False by (auto simp: do_io_try_def Let_def end_info_def)
  next
    case True
    then have eagain: "skip_eintr (r_calls r) = Inr (-1, EAGAIN)" using m by simp
    show ?thesis
    proof (cases "r_wake r")
      case (ByEvent evs)
      obtain timer h1 h2 h3 where s: "do_io_try (r_waiter r) fd e to i (r_calls r) h = Inr (IoWait timer, h1)"
          "wake_up fd e i (r_wake r) h1 = Inr h2" "do_io_resume timer i h2 = Inr (None, h3)" "between fd e i events used h3"
        using round_event [OF h fd r eagain ByEvent] by blast
      have "blocking_call rs = Some (n, err)" using Cons.prems(5) eagain ByEvent by simp
      then show ?thesis using Cons.IH [OF s(4) fd] Cons.prems(4) s(1-3) by simp
    next
      case (ByTimer a0 now)
      have "n = -1 \<and> err = ETIMEDOUT" using Cons.prems(5) eagain ByTimer by simp
      then show ?thesis using round_timer [OF h fd r eagain ByTimer] by fastforce
    qed
  qed
qed simp

lemma call_event_ok [simp]: "event_ok (call_event call)"
  by (cases call) (simp_all add: event_ok_def)


definition demo_rounds :: "io_round list" where
  "demo_rounds =
     [\<lparr>r_waiter = demo_waiter, r_calls = [(-1, EINTR), (-1, EAGAIN)], r_wake = ByEvent EPOLLIN\<rparr>,
      \<lparr>r_waiter = demo_waiter, r_calls = [(12, 0)], r_wake = ByEvent EPOLLIN\<rparr>]"


end
