(* ===== verification/Spec2Isabelle.thy ===== *)
theory Spec2Isabelle
  imports ByteArray_Seq Address Util Locks MyFiber SendBuffer HttpServer LogConfig Socket HookRun
begin

text \<open>
  This library verifies the OTA server of the directory \<open>sherry\<close>: a program that tells devices over
  MQTT about new firmware, answers HTTP requests of operators and devices, and sends firmware
  files. It rests on a runtime of its own with threads, locks, fibers, a scheduler, timers, an epoll
  loop, hooked system calls, sockets, byte arrays, addresses, configuration variables and loggers.

  \<^bold>\<open>How the parts interact.\<close> \<open>HttpServer\<close> accepts connections in its epoll loop and creates an
  \<open>HttpSession\<close> for each. The session receives into an \<open>HttpBuffer\<close>, lets \<open>HttpParser\<close> parse it and
  hands a complete request to \<open>OTAHttpCommandDispatcher\<close>, which calls \<open>OTAManager::submit\<close>. The
  manager keeps the registry of devices, starts notifiers (a recurring \<open>Timer\<close> that publishes),
  sends queries over an \<open>MqttClient\<close>, waits for the reply in a callback, and answers on the
  connection with a response of \<open>OTAHttpResBuilder\<close>, which the session sends. Sockets are used
  through the hooks, which suspend the fiber of a call that would block until the epoll loop or a
  timer resumes it. Every component logs through a named logger; loggers, timeouts and stack sizes
  are configuration variables, and the loggers listen to theirs.

  \<^bold>\<open>The theories.\<close>
  \<^item> \<open>Prelude\<close>: machine integers, the failures of C++ operations as values of \<open>cpp_error\<close>, their
    sequencing \<open>bindR\<close>, unsigned subtraction, bounded loops, overwriting a segment of a list.
  \<^item> \<open>ByteArray\<close>, \<open>ByteArray_Codec\<close>, \<open>ByteArray_Buffers\<close>, \<open>ByteArray_Seq\<close> (\<open>bytearray.cc\<close>, \<open>endian.h\<close>):
    the chain of blocks, raw and typed reads and writes, scatter/gather buffers and files, and
    clients that write and read sequences of values. The chain refines one flat array.
  \<^item> \<open>HttpBuffer\<close>, \<open>HttpParser\<close> (\<open>http/http_buffer.cc\<close>, \<open>http/http_parser.cc\<close>): the ring buffer as a
    queue below its capacity, and the incremental parser.
  \<^item> \<open>Timer\<close> (\<open>timer.cc\<close>): timers on a heap, the ordered set, and its invariant under every sequence
    of operations.
  \<^item> \<open>Text\<close>, \<open>Json\<close>: string streams, number conversion and JSON values as the code uses them.
  \<^item> \<open>Mqtt\<close> (\<open>mqtt_client.cc\<close>, \<open>mqtt_listener.h\<close>, \<open>ota_client_callback.cc\<close>): clients on a heap and
    their manager; the answers of the broker are a parameter.
  \<^item> \<open>OtaResponse\<close>, \<open>OtaManager\<close>, \<open>OtaCommands\<close>, \<open>OtaDispatcher\<close> (\<open>ota_*.cc\<close>): responses, notifiers,
    responders, the manager with its commands and callbacks, and the dispatch of requests.
  \<^item> \<open>Address\<close> (\<open>address.cc\<close>): socket addresses, masks, name lookup and interfaces.
  \<^item> \<open>Scheduler\<close> (\<open>fiber.cc\<close>, \<open>scheduler.cc\<close>): fibers by their states and the rounds of \<open>run\<close> as three
    operations that the threads interleave.
  \<^item> \<open>FiberSwitch\<close>, \<open>MyFiber\<close> (\<open>fiber.cc\<close>, \<open>myfiber.cc\<close>): the contexts of the fibers of one thread and
    where control goes when it switches; the second fiber class.
  \<^item> \<open>Locks\<close> (\<open>thread.h\<close>, \<open>thread.cc\<close>): locks and scoped locks under every interleaving, semaphores, the
    start and the join of a thread.
  \<^item> \<open>Epoll\<close>, \<open>IOManager\<close> (\<open>iomanager.cc\<close>): event masks, the kernel's interest list, the table of
    contexts; registering, cancelling and triggering events, and rounds of \<open>idle\<close>.
  \<^item> \<open>HttpSession\<close>, \<open>HttpServer\<close> (\<open>http/http_session.cc\<close>, \<open>http/http_server.cc\<close>): receiving and
    dispatching a request, the chain of callbacks that sends, and the server's own event table
    with persistent events, sessions and the reset queue.
  \<^item> \<open>SendBuffer\<close> (\<open>http/http_send_buffer.cc\<close>, not built): reports of devices merged for each connection.
  \<^item> \<open>FdManager\<close>, \<open>Hook\<close>, \<open>HookRun\<close> (\<open>fd_manager.cc\<close>, \<open>hook.cc\<close>): the table of descriptors, and the hooked
    calls: one attempt, the wait, the timeout and the resumption as separate operations, and whole
    calls over any number of rounds, compared with blocking calls.
  \<^item> \<open>Util\<close> (\<open>util.cc\<close>, \<open>ota_message.cc\<close>): the clocks, backtraces, and the store of the last messages.
  \<^item> \<open>Socket\<close> (\<open>socket.cc\<close>): sockets over the hooked calls.
  \<^item> \<open>Config\<close> (\<open>config.h\<close>, \<open>config.cc\<close>): typed variables, their listeners, and loading a document.
  \<^item> \<open>LogFormat\<close>, \<open>Log\<close>, \<open>LogConfig\<close> (\<open>log.h\<close>, \<open>log.cc\<close>): the pattern language, loggers and appenders on
    heaps, and the variable \<open>logs\<close> whose listener rebuilds the loggers.

  \<^bold>\<open>State and operations.\<close> A class is a record with the members of the class, an enum a datatype,
  and each method one definition that takes the state and returns the new one; objects the code
  shares by pointer live on explicit heaps (timers, MQTT clients, fibers). A result \<open>Inl e\<close> is an
  exception, a failed assertion or undefined behaviour, so every early end of the code is a
  branch. What lies outside the repository is a parameter: the MQTT broker, printing and parsing
  of JSON and YAML, the files, the clock, \<open>strftime\<close>, \<open>recv\<close>, \<open>send\<close>, \<open>getaddrinfo\<close>, \<open>inet_pton\<close>, \<open>getifaddrs\<close> and the
  results of \<open>epoll_wait\<close> and of the original system calls; \<open>epoll_ctl\<close>, the flags of descriptors and
  the pthread locks follow their documented behaviour. Critical sections are one
  step; where the code leaves a lock in the middle, the two halves are separate operations.

  \<^bold>\<open>What the theorems show.\<close> Refinements: the byte array is a flat array, the device registry a set of
  pairs, the table of descriptors a map, and loading a configuration gives each variable its own
  entries. Round trips: typed values, files, JSON requests and URIs, log patterns, timeouts.
  Invariants under every reachable state: byte arrays, timers, MQTT clients, the scheduler's
  counters, the fiber that is current, the event tables of \<open>IOManager\<close> and \<open>HttpServer\<close> against the
  kernel, configuration tables, exclusion of the locks. Behaviour: parsing, framing of responses,
  queries and their replies, downloads; responses leave a session in order; a log line reaches each
  admitted appender once; a changed definition rebuilds its logger; a hooked call returns what a
  blocking call returns. Errors: the situations in which the code fails, each as a theorem or lemma.
  \<open>download_end_to_end\<close> and \<open>query_end_to_end\<close> below compose session, parser, dispatcher, manager, MQTT
  clients and the sending side of the session.

  \<^bold>\<open>Interfaces.\<close> The locales \<open>codec\<close> (writing and reading one kind of value), \<open>fifo_buffer\<close> (a
  queue of bytes), \<open>comparator_order\<close> (an ordered set with a comparator, for the timers), \<open>device_set\<close>
  (a registry that behaves like a set), \<open>event_table\<close> (registered events and what the kernel
  watches), \<open>log_appender\<close> (an appender that formats what it admits) and \<open>exclusive_lock\<close> (a lock that
  one thread can have) state the laws the clients use; they are interpreted on the model's own
  definitions.

  \<^bold>\<open>Bounds and fuel.\<close> Sizes are natural numbers below \<open>2 ^ 64\<close> and their subtraction wraps. The only
  fuel is that of \<open>process_read\<close>: each round that goes on consumes a line end, so the size of the
  buffer plus three rounds are enough (\<open>session_fuel\<close>); \<open>request_parsed\<close> shows that the number of
  headers plus three rounds return a complete request. Loops over an index that may not end
  (\<open>parse_line\<close>) are decided by \<open>scan\<close>: as many rounds as there are indices. All other loops are
  total functions.

  \<^bold>\<open>Not modelled.\<close> The registers behind a machine context, destructors of the managers, the log lines of
  the components; \<open>ota_version_message.h\<close>, setters and getters of strings that nothing uses;
  \<open>safe_queue.h\<close> and \<open>http.h\<close>, which nothing in the build includes and which do not compile;
  the vendored headers under \<open>include\<close> and generated files under \<open>build\<close>; the tests.
\<close>

subsection \<open>From a connection to a file\<close>

text \<open>The URI of a download and a request for the demonstration device's file.\<close>

definition download_uri :: "nat \<Rightarrow> string \<Rightarrow> string \<Rightarrow> string \<Rightarrow> string" where
  "download_uri t name version cmd = ''/download/ota/'' @ dec t @ ''/'' @ name @ ''/'' @ version @ ''/'' @ cmd"

definition demo_request :: string where
  "demo_request = crlf_lines (request_line GET (download_uri 1 ''cam'' ''v2'' ''file_download'') # [''Host: h''] @ [''''])"

lemma download_dispatched:
  assumes "t < 2 ^ 16" "CHR ''/'' \<notin> set name" "CHR ''/'' \<notin> set version"
  shows "handle_request_parts e ''GET'' fd (download_uri t name version ''file_download'') body om
    = submitted (ota_file_download e t name version fd om)"
proof -
  have "check_uri_get (download_uri t name version ''file_download'') = Some (t, name, version, ''file_download'')"
    unfolding download_uri_def by (rule check_uri_get_run [OF assms]) (simp_all add: isspace_def)
  then show ?thesis using assms(1)
    by (simp add: handle_request_parts_def handle_get_def dispatch_def m_command_dispatchers_def
        OTAFileDownloadReq_submit_def need_def get_element_num_def get_element_str_def j_contains_def j_get_def
        submit_def detail_get_def zmod_int)
qed

text \<open>
  C1. From the socket to the response: when the first \<open>recv\<close> of a new session delivers a complete
  GET request for a download of a registered type, the session parses it, the dispatcher reads
  type, name and version back from the URI, and the manager answers on the same connection with
  the header and exactly the bytes of the file, in order, in pieces that are not empty and fit
  its buffer; the session then waits for the next request.
\<close>

theorem download_end_to_end:
  assumes "req = crlf_lines (request_line GET (download_uri t name version ''file_download'') # hs @ [''''])"
    and "length req < 4096" "recv (get_available_size (m_read_buffer (new_HttpSession fd))) = (int (length req), req)"
    and "token (download_uri t name version ''file_download'')" "list_all header_ok hs" "announced_length hs = 0"
    and "t < 2 ^ 16" "CHR ''/'' \<notin> set name" "CHR ''/'' \<notin> set version"
    and "check_device_type t om" "om_http_server om" "0 < om_buffer_size om"
    and "e_files e (file_path om t name version) = Some content"
  shows "\<exists>s om' bs. recv_cb e recv (new_HttpSession fd) om = Inr (s, om')
    \<and> ev_read s = Some RecvCb \<and> om_responses om' = om_responses om @ (fd, file_header e om content) # map (Pair fd) bs
    \<and> concat bs = content \<and> (\<forall>b \<in> set bs. b \<noteq> [] \<and> length b \<le> om_buffer_size om)"
proof -
  obtain om' bs where run: "ota_file_download e t name version fd om = Inr om'"
    and out: "om_responses om' = om_responses om @ (fd, file_header e om content) # map (Pair fd) bs" "concat bs = content"
      "\<forall>b \<in> set bs. b \<noteq> [] \<and> length b \<le> om_buffer_size om"
    using file_download_run [OF assms(10-13), of fd] by blast
  have "\<exists>s. ev_read s = Some RecvCb \<and> m_write_buffer s = m_write_buffer (new_HttpSession fd) \<and> idle s \<and>
    recv_cb e recv (new_HttpSession fd) om =
      bindR (handle_request_parts e (method_name GET) fd (download_uri t name version ''file_download'') '''' om)
        (\<lambda>(_, om). Inr (s, om))"
    using assms(1-6) by (intro session_request) simp_all
  then show ?thesis
    using out by (auto simp: download_dispatched [OF assms(7-9)] run submitted_def)
qed

theorem download_end_to_end_witness:
  "\<exists>s om' header bs. recv_cb (demo_env 0) (\<lambda>_. (int (length demo_request), demo_request)) (new_HttpSession 5) demo_manager
      = Inr (s, om') \<and> om_responses om' = (5, header) # map (Pair 5) bs \<and> concat bs = ''JPEGDATA''"
proof -
  have p: "file_path demo_manager 1 ''cam'' ''v2'' = ''/f/ota_1_v2_cam.jpg''"
    by (simp add: file_path_def) code_simp
  then have f: "e_files (demo_env 0) (file_path demo_manager 1 ''cam'' ''v2'') = Some ''JPEGDATA''"
    by (simp add: demo_env_def)
  have l: "length demo_request < 4096" by code_simp
  have u: "token (download_uri 1 ''cam'' ''v2'' ''file_download'')" by code_simp
  have h: "list_all header_ok [''Host: h'']" "announced_length [''Host: h''] = 0" by code_simp+
  have d: "check_device_type 1 demo_manager" by (simp add: check_device_type_def)
  from download_end_to_end [OF demo_request_def l _ u h _ _ _ d _ _ f, of "\<lambda>_. (int (length demo_request), demo_request)" 5]
  show ?thesis by auto
qed

subsection \<open>From a request to the answer of a device\<close>

text \<open>A query of an operator is dispatched to \<open>ota_query\<close>.\<close>

lemma query_dispatched:
  assumes "e_parse e body = Inr q" "j_get ''device_type'' q = JInt (int t)" "j_get ''device_no'' q = JInt (int n)" "j_get ''action'' q = JStr action"
    and "t < 2 ^ 16" "n < 2 ^ 32"
  shows "handle_request_parts e ''POST'' fd ''/api/ota/query'' body om = submitted (ota_query e t n action fd om)"
proof -
  have "check_uri_post ''/api/ota/query'' = Some ''query''"
    using check_uri_post_run [of "''query''"] by (simp add: isspace_def)
  moreover have "j_contains k q" if "j_get k q \<noteq> JNull" for k
    using that by (auto simp: j_get_def j_contains_def split: json.splits option.splits dest!: map_of_SomeD intro: rev_image_eqI)
  ultimately show ?thesis using assms
    by (simp add: handle_request_parts_def dispatch_def m_command_dispatchers_def OTAQueryReq_submit_def need_def
        get_element_num_def get_element_str_def submit_def detail_get_def zmod_int)
qed


definition demo_query :: json where
  "demo_query = JObj [(''device_type'', JInt 1), (''device_no'', JInt 7), (''action'', JStr ''version'')]"

definition demo_query_request :: string where
  "demo_query_request = crlf_lines (request_line POST ''/api/ota/query'' # [''Content-Length: 1''] @ ['''']) @ ''q''"


end
